(* ===== verification/OS_Prelude.thy ===== *)
theory OS_Prelude imports Main "HOL-Library.Word" "HOL-Library.Monad_Syntax" begin

text \<open>
  Shared vocabulary of the development: the machine integers and the flat byte memory of the
  board, 32-bit loads and stores (little endian, as the ARM core is run), the interface every
  word store has to satisfy, and the lemma collections the component theories use.

  C's \<open>unsigned int\<close>, \<open>int\<close>, \<open>size_t\<close> and every pointer are 32 bits wide on the Cortex-A7 the
  Makefiles compile for, so all of them are \<open>32 word\<close>; where the code compares an \<open>int\<close> the
  model reads it with \<open>sint\<close>. \<open>char\<close> is \<open>8 word\<close> (unsigned, as on ARM).
\<close>

unbundle bit_operations_syntax

type_synonym u8 = "8 word"
type_synonym u32 = "32 word"
type_synonym mem = "u32 \<Rightarrow> u8"

named_theorems mem_simps \<open>what a load returns after a store\<close>
named_theorems word_nat \<open>words read as natural numbers\<close>

subsection \<open>Words and natural numbers\<close>

lemma of_nat_eq_iff_u32:
  assumes "a < 4294967296" "b < 4294967296"
  shows "((of_nat a :: u32) = of_nat b) \<longleftrightarrow> a = b"
  using assms by (simp add: word_unat_eq_iff unat_of_nat)

lemma unat_of_nat_u32: "a < 4294967296 \<Longrightarrow> unat (of_nat a :: u32) = a"
  by (simp add: unat_of_nat)

lemma of_nat_less_u32:
  assumes "a < 4294967296" "b < 4294967296"
  shows "((of_nat a :: u32) < of_nat b) \<longleftrightarrow> a < b"
  using assms by (simp add: word_less_nat_alt unat_of_nat_u32)

lemma of_nat_le_u32:
  assumes "a < 4294967296" "b < 4294967296"
  shows "((of_nat a :: u32) \<le> of_nat b) \<longleftrightarrow> a \<le> b"
  using assms by (simp add: word_le_nat_alt unat_of_nat_u32)

lemmas u32_nat = of_nat_eq_iff_u32 unat_of_nat_u32 of_nat_less_u32 of_nat_le_u32
declare u32_nat [word_nat]

lemma of_nat_diff_u32: "b \<le> a \<Longrightarrow> (of_nat a :: u32) - of_nat b = of_nat (a - b)"
  by simp

subsection \<open>Loads and stores of 32-bit words\<close>

definition load32 :: "mem \<Rightarrow> u32 \<Rightarrow> u32" where
  "load32 m a = ucast (m a) OR push_bit 8 (ucast (m (a + 1)))
     OR push_bit 16 (ucast (m (a + 2))) OR push_bit 24 (ucast (m (a + 3)))"

definition store32 :: "u32 \<Rightarrow> u32 \<Rightarrow> mem \<Rightarrow> mem" where
  "store32 a v m = m(a := ucast v, a + 1 := ucast (drop_bit 8 v),
     a + 2 := ucast (drop_bit 16 v), a + 3 := ucast (drop_bit 24 v))"

definition aligned4 :: "u32 \<Rightarrow> bool" where
  "aligned4 a \<longleftrightarrow> 4 dvd unat a"

lemma aligned4_plus:
  assumes "aligned4 a" "k < 4"
  shows "unat (a + of_nat k) = unat a + k"
proof -
  have "unat a < 4294967296" using unsigned_less [of a] by simp
  moreover from assms(1) have "unat a mod 4 = 0" by (simp add: aligned4_def)
  ultimately have "unat a + k < 4294967296" using assms(2) by presburger
  then show ?thesis using assms(2) by (simp add: unat_word_ariths unat_of_nat)
qed

lemma aligned4_bytes_neq:
  assumes "aligned4 a" "aligned4 b" "a \<noteq> b" "i < 4" "j < 4"
  shows "a + of_nat i \<noteq> b + of_nat j"
proof
  assume "a + of_nat i = b + of_nat j"
  then have "unat a + i = unat b + j"
    using aligned4_plus [OF assms(1,4)] aligned4_plus [OF assms(2,5)] by metis
  moreover have "unat a mod 4 = 0" "unat b mod 4 = 0"
    using assms(1,2) by (auto simp: aligned4_def)
  ultimately have "unat a = unat b" using assms(4,5) by presburger
  with assms(3) show False by (simp add: word_unat_eq_iff)
qed

lemma store32_byte_other:
  assumes "aligned4 a" "aligned4 b" "a \<noteq> b" "i < 4"
  shows "store32 a v m (b + of_nat i) = m (b + of_nat i)"
proof -
  have "a + of_nat j \<noteq> b + of_nat i" if "j < 4" for j
    using aligned4_bytes_neq [OF assms(1,2,3) that assms(4)] .
  from this [of 0] this [of 1] this [of 2] this [of 3] show ?thesis
    by (simp add: store32_def)
qed

lemma load32_store32_other:
  assumes "aligned4 a" "aligned4 b" "a \<noteq> b"
  shows "load32 (store32 a v m) b = load32 m b"
  using store32_byte_other [OF assms, of 0] store32_byte_other [OF assms, of 1]
    store32_byte_other [OF assms, of 2] store32_byte_other [OF assms, of 3]
  by (simp add: load32_def)

lemma load32_cong:
  assumes "\<And>i. i < 4 \<Longrightarrow> m' (a + of_nat i) = m (a + of_nat i)"
  shows "load32 m' a = load32 m a"
  using assms [of 0] assms [of 1] assms [of 2] assms [of 3] by (simp add: load32_def)

lemma load32_store32_same: "load32 (store32 a v m) a = v"
proof -
  have ne: "a + 1 \<noteq> a" "a + 2 \<noteq> a" "a + 3 \<noteq> a" "a + 2 \<noteq> a + 1" "a + 3 \<noteq> a + 1" "a + 3 \<noteq> a + 2"
    by simp_all
  have split: "(ucast (ucast v :: u8) :: u32) OR push_bit 8 (ucast (ucast (drop_bit 8 v) :: u8))
     OR push_bit 16 (ucast (ucast (drop_bit 16 v) :: u8))
     OR push_bit 24 (ucast (ucast (drop_bit 24 v) :: u8)) = v"
  proof (rule bit_word_eqI)
    fix n assume n: "n < LENGTH(32)"
    consider "n < 8" | "8 \<le> n" "n < 16" | "16 \<le> n" "n < 24" | "24 \<le> n" by linarith
    then show "bit ((ucast (ucast v :: u8) :: u32) OR push_bit 8 (ucast (ucast (drop_bit 8 v) :: u8))
       OR push_bit 16 (ucast (ucast (drop_bit 16 v) :: u8))
       OR push_bit 24 (ucast (ucast (drop_bit 24 v) :: u8))) n \<longleftrightarrow> bit v n"
      using n by cases (auto simp: bit_simps)
  qed
  show ?thesis using split by (simp add: load32_def store32_def ne)
qed

subsection \<open>The interface of a word store\<close>

text \<open>
  What code that keeps its data in 32-bit words of a memory relies on: a load returns the last
  value stored at the same aligned address, and a store changes no other aligned word. The heap
  allocator is such a client; the byte memory above provides the operations.
\<close>

locale word_store =
  fixes ld :: "'m \<Rightarrow> u32 \<Rightarrow> u32"
    and st :: "u32 \<Rightarrow> u32 \<Rightarrow> 'm \<Rightarrow> 'm"
  assumes ld_st_same: "ld (st a v m) a = v"
    and ld_st_other: "aligned4 a \<Longrightarrow> aligned4 b \<Longrightarrow> a \<noteq> b \<Longrightarrow> ld (st a v m) b = ld m b"
begin

lemma ld_st:
  assumes "aligned4 a" "aligned4 b"
  shows "ld (st a v m) b = (if a = b then v else ld m b)"
  using assms ld_st_same ld_st_other by auto

lemma ld_st_nat:
  assumes "4 dvd a" "4 dvd b" "a < 4294967296" "b < 4294967296"
  shows "ld (st (of_nat a) v m) (of_nat b) = (if a = b then v else ld m (of_nat b))"
proof -
  have "aligned4 (of_nat a)" "aligned4 (of_nat b)"
    using assms by (simp_all add: aligned4_def unat_of_nat_u32)
  from ld_st [OF this] show ?thesis using assms by (simp add: of_nat_eq_iff_u32)
qed

lemma ld_st_commute:
  assumes "aligned4 a" "aligned4 b" "aligned4 c" "a \<noteq> b"
  shows "ld (st a v (st b w m)) c = ld (st b w (st a v m)) c"
  using assms by (auto simp: ld_st)

end

interpretation byte_mem: word_store load32 store32
  by unfold_locales (simp_all add: load32_store32_same load32_store32_other)

lemmas load_store_nat = byte_mem.ld_st_nat
declare byte_mem.ld_st_same [mem_simps] byte_mem.ld_st [mem_simps]

subsection \<open>Arrays\<close>

text \<open>
  C arrays are lists of fixed length. \<open>idx\<close> and \<open>upd\<close> take the \<open>int\<close> index of the source:
  \<open>None\<close> is an access outside the array, which C leaves undefined.
\<close>

definition idx :: "'a list \<Rightarrow> int \<Rightarrow> 'a option" where
  "idx xs i = (if 0 \<le> i \<and> i < int (length xs) then Some (xs ! nat i) else None)"

definition upd :: "'a list \<Rightarrow> int \<Rightarrow> 'a \<Rightarrow> 'a list option" where
  "upd xs i v = (if 0 \<le> i \<and> i < int (length xs) then Some (xs[nat i := v]) else None)"

lemma idx_Some: "idx xs i = Some v \<longleftrightarrow> 0 \<le> i \<and> i < int (length xs) \<and> v = xs ! nat i"
  by (auto simp: idx_def)

lemma upd_Some: "upd xs i v = Some ys \<longleftrightarrow> 0 \<le> i \<and> i < int (length xs) \<and> ys = xs[nat i := v]"
  by (auto simp: upd_def)

text \<open>A loop \<open>for (i = a; i < b; i++) t[i] = f(i, t[i])\<close>.\<close>

definition each_entry :: "(nat \<Rightarrow> 'a \<Rightarrow> 'a) \<Rightarrow> nat \<Rightarrow> nat \<Rightarrow> 'a list \<Rightarrow> 'a list" where
  "each_entry f a b t = fold (\<lambda>i t. t[i := f i (t ! i)]) [a..<b] t"

lemma each_entry_length [simp]: "length (each_entry f a b t) = length t"
proof -
  have "length (fold (\<lambda>i t. t[i := f i (t ! i)]) is t) = length t" for "is"
    by (induction "is" arbitrary: t) auto
  then show ?thesis by (simp add: each_entry_def)
qed

lemma each_entry_nth:
  assumes "k < length t"
  shows "each_entry f a b t ! k = (if a \<le> k \<and> k < b then f k (t ! k) else t ! k)"
proof (induction b)
  case (Suc b)
  show ?case
  proof (cases "a \<le> b")
    case True
    have "each_entry f a (Suc b) t = (each_entry f a b t)[b := f b (each_entry f a b t ! b)]"
      using True by (simp add: each_entry_def)
    then show ?thesis using Suc assms True by (auto simp: nth_list_update less_Suc_eq)
  next
    case False
    then show ?thesis by (auto simp: each_entry_def)
  qed
qed (simp add: each_entry_def)

subsection \<open>Messages of the kernel\<close>

text \<open>
  The kernel's \<^verbatim>\<open>kprintf\<close> is part of the library \<^verbatim>\<open>out/e4.o\<close>; a call is recorded with its format
  string and its arguments.
\<close>

datatype karg = KInt u32 | KStr string

type_synonym kmsg = "string \<times> karg list"

definition nl :: string where "nl = [CHR 10]"
definition tab :: string where "tab = [CHR 9]"
definition esc :: string where "esc = [CHR 27]"

end
