(* ===== verification/Heap_Model.thy ===== *)
theory Heap_Model imports OS_Prelude begin

text \<open>
  The user heap allocator of \<^verbatim>\<open>user/heap.c\<close>, statement by statement, on the flat byte memory.
  A block header is two words, \<open>ctrl\<close> (size in the upper 30 bits, bit 1 \<open>free\<close>, bit 0 \<open>top\<close>)
  and \<open>prev_size\<close>; a free block has a third word \<open>next_free\<close>. The C globals are the fields of
  the record \<open>heap\<close>. Loops that need not end are \<open>partial_function (option)\<close>: \<open>None\<close> means
  that the loop does not return. A store through the null pointer is what the machine makes of
  it, a store at address 8 of the flat memory (the first megabyte is mapped with full access by
  \<^verbatim>\<open>memory/mmu.c\<close>).
\<close>

subsection \<open>Constants and state\<close>

definition HEAP_BASE :: u32 where "HEAP_BASE = 0x700000"
definition RB_HEADER_SIZE :: u32 where "RB_HEADER_SIZE = 8"
definition MB_HEXA :: u32 where "MB_HEXA = 0x100000"
definition FREE_BLOCK :: u32 where "FREE_BLOCK = 2"
definition TOP_BLOCK :: u32 where "TOP_BLOCK = 1"
definition BLOCK_SIZE_BITS :: u32 where "BLOCK_SIZE_BITS = 0xfffffffc"

lemmas heap_consts = HEAP_BASE_def RB_HEADER_SIZE_def MB_HEXA_def FREE_BLOCK_def TOP_BLOCK_def
  BLOCK_SIZE_BITS_def

record heap =
  hmem :: mem
  heap_initialized :: u32
  first_free_block :: u32
  counter :: u32
  merge_flag :: u32
  top_block_flag :: u32
  no_free_space :: u32

definition heap_boot :: "mem \<Rightarrow> heap" where
  "heap_boot m = \<lparr>hmem = m, heap_initialized = 1, first_free_block = HEAP_BASE, counter = 1,
     merge_flag = 1, top_block_flag = 1, no_free_space = 1\<rparr>"

subsection \<open>The two layouts of a block header\<close>

definition ctrl :: "mem \<Rightarrow> u32 \<Rightarrow> u32" where
  "ctrl m p = load32 m p"

definition prev_size :: "mem \<Rightarrow> u32 \<Rightarrow> u32" where
  "prev_size m p = load32 m (p + 4)"

definition next_free :: "mem \<Rightarrow> u32 \<Rightarrow> u32" where
  "next_free m p = load32 m (p + 8)"

definition set_ctrl :: "u32 \<Rightarrow> u32 \<Rightarrow> mem \<Rightarrow> mem" where
  "set_ctrl p v m = store32 p v m"

definition set_prev_size :: "u32 \<Rightarrow> u32 \<Rightarrow> mem \<Rightarrow> mem" where
  "set_prev_size p v m = store32 (p + 4) v m"

definition set_next_free :: "u32 \<Rightarrow> u32 \<Rightarrow> mem \<Rightarrow> mem" where
  "set_next_free p v m = store32 (p + 8) v m"

definition bsize :: "mem \<Rightarrow> u32 \<Rightarrow> u32" where
  "bsize m p = ctrl m p AND BLOCK_SIZE_BITS"

definition round_up :: "u32 \<Rightarrow> u32" where
  "round_up n = (if n mod 4 = 0 then n else n + 4 - n mod 4)"

definition BLOCK_IS_FREE :: "mem \<Rightarrow> u32 \<Rightarrow> bool" where
  "BLOCK_IS_FREE m p \<longleftrightarrow> ctrl m p AND FREE_BLOCK > 0"

definition BLOCK_IS_TOP :: "mem \<Rightarrow> u32 \<Rightarrow> bool" where
  "BLOCK_IS_TOP m p \<longleftrightarrow> ctrl m p AND TOP_BLOCK \<noteq> 0"

definition assign_new_top_block :: "u32 \<Rightarrow> u32 \<Rightarrow> mem \<Rightarrow> mem" where
  "assign_new_top_block oldb newb m =
     (if ctrl m oldb AND TOP_BLOCK \<noteq> 0 then set_ctrl newb (ctrl m newb OR TOP_BLOCK) m else m)"

subsection \<open>Walking the blocks\<close>

partial_function (option) skip_reserved :: "mem \<Rightarrow> u32 \<Rightarrow> u32 option" where
  "skip_reserved m nx =
     (if \<not> BLOCK_IS_FREE m nx then skip_reserved m (nx + bsize m nx + RB_HEADER_SIZE)
      else Some nx)"

definition find_next_free :: "mem \<Rightarrow> u32 \<Rightarrow> u32 \<Rightarrow> u32 option" where
  "find_next_free m cnt p =
     (if BLOCK_IS_TOP m p then Some 0
      else let nx = p + bsize m p + RB_HEADER_SIZE in
        if 15 < sint cnt then skip_reserved m nx else Some nx)"

partial_function (option) find_prev_free :: "mem \<Rightarrow> u32 \<Rightarrow> u32 option" where
  "find_prev_free m p =
     (if HEAP_BASE \<le> p \<and> \<not> BLOCK_IS_FREE m p then
        let q = p - prev_size m p - RB_HEADER_SIZE in
        if q < HEAP_BASE \<or> HEAP_BASE + MB_HEXA < q then Some 0
        else if HEAP_BASE + MB_HEXA < q then Some 0
        else find_prev_free m q
      else Some (if HEAP_BASE \<le> p then p else 0))"

text \<open>The loop of \<open>update_first_free_block\<close>: \<open>Some None\<close> is its early return.\<close>

partial_function (option) first_free_walk :: "mem \<Rightarrow> u32 \<Rightarrow> u32 option option" where
  "first_free_walk m p =
     (if \<not> BLOCK_IS_FREE m p \<and> \<not> BLOCK_IS_TOP m p then
        let q = p + bsize m p + RB_HEADER_SIZE in
        if BLOCK_IS_TOP m p then Some None else first_free_walk m q
      else Some (Some p))"

definition update_first_free_block :: "heap \<Rightarrow> heap option" where
  "update_first_free_block h = do {
     r \<leftarrow> first_free_walk (hmem h) HEAP_BASE;
     (case r of
        None \<Rightarrow> Some (h\<lparr>first_free_block := 0, no_free_space := 2\<rparr>)
      | Some p \<Rightarrow> Some (h\<lparr>first_free_block := p\<rparr>)) }"

subsection \<open>malloc\<close>

text \<open>The first call lays out the block it hands out and the top block behind it.\<close>

definition malloc_first :: "u32 \<Rightarrow> heap \<Rightarrow> u32 \<times> heap" where
  "malloc_first n h = (let
     m = set_ctrl HEAP_BASE (n AND BLOCK_SIZE_BITS) (hmem h);
     m = set_prev_size HEAP_BASE 0 m;
     top = HEAP_BASE + n + RB_HEADER_SIZE;
     m = set_ctrl top (((MB_HEXA - n - RB_HEADER_SIZE) AND BLOCK_SIZE_BITS) + FREE_BLOCK + TOP_BLOCK) m;
     m = set_prev_size top n m;
     m = set_next_free top 0 m
     in (HEAP_BASE, h\<lparr>hmem := m, first_free_block := top, heap_initialized := 2\<rparr>))"

text \<open>The search along the free list: \<open>Some None\<close> is the code's \<open>return NULL\<close>.\<close>

partial_function (option) malloc_search :: "mem \<Rightarrow> u32 \<Rightarrow> u32 \<Rightarrow> u32 option option" where
  "malloc_search m n p =
     (if bsize m p < n then
        if BLOCK_IS_TOP m p then Some None else malloc_search m n (next_free m p)
      else Some (Some p))"

text \<open>The block above the one handed out, when at least twelve bytes are left.\<close>

definition malloc_split :: "u32 \<Rightarrow> u32 \<Rightarrow> u32 \<Rightarrow> heap \<Rightarrow> heap option" where
  "malloc_split n HB HB_ptr h = do {
     let m = hmem h;
     let above = HB + n + RB_HEADER_SIZE;
     let m = set_ctrl above ((bsize m HB - n - RB_HEADER_SIZE) + FREE_BLOCK) m;
     let m = assign_new_top_block HB above m;
     let m = set_prev_size above n m;
     let nextnext = above + bsize m above + RB_HEADER_SIZE;
     let m = set_prev_size nextnext (bsize m above) m;
     p \<leftarrow> find_prev_free m HB_ptr;
     let m = set_next_free p above m;
     if BLOCK_IS_TOP m HB then
       let m = set_next_free above 0 m;
           m = set_ctrl above (ctrl m above OR TOP_BLOCK) m
       in Some (h\<lparr>hmem := m\<rparr>)
     else do {
       p2 \<leftarrow> find_next_free m (counter h) above;
       Some (h\<lparr>hmem := set_next_free above p2 m\<rparr>) } }"

text \<open>
  From the block found to the return: \<open>rest\<close> is an \<open>int\<close>, so its comparisons are signed.
\<close>

definition malloc_finish :: "u32 \<Rightarrow> u32 \<Rightarrow> u32 \<Rightarrow> u32 \<Rightarrow> heap \<Rightarrow> (u32 \<times> heap) option" where
  "malloc_finish n HB HB_ptr rest h = do {
     let h = (if BLOCK_IS_TOP (hmem h) HB \<and> bsize (hmem h) HB \<le> n
              then h\<lparr>top_block_flag := 2\<rparr> else h);
     let m = set_ctrl HB (n AND BLOCK_SIZE_BITS) (hmem h);
     let m = (if HB \<noteq> HEAP_BASE then set_prev_size HB (bsize m HB_ptr) m else m);
     prev \<leftarrow> find_prev_free m HB;
     let m = (if sint rest < 12 then
                let m = set_ctrl HB (ctrl m HB + rest) m in
                if top_block_flag h = 2 then set_ctrl HB (ctrl m HB + TOP_BLOCK) m else m
              else m);
     m \<leftarrow> (if prev \<noteq> 0 then do {
             nf \<leftarrow> find_next_free m (counter h) prev;
             Some (set_next_free prev nf m) }
           else Some m);
     h \<leftarrow> update_first_free_block (h\<lparr>hmem := m\<rparr>);
     Some (HB, h\<lparr>counter := counter h + 1\<rparr>) }"

definition malloc_take :: "u32 \<Rightarrow> u32 \<Rightarrow> heap \<Rightarrow> (u32 \<times> heap) option" where
  "malloc_take n HB h = do {
     let HB_ptr = HB - prev_size (hmem h) HB - RB_HEADER_SIZE;
     let rest = bsize (hmem h) HB - n;
     h \<leftarrow> (if n < bsize (hmem h) HB \<and> 12 \<le> sint rest then malloc_split n HB HB_ptr h else Some h);
     malloc_finish n HB HB_ptr rest h }"

definition malloc :: "u32 \<Rightarrow> heap \<Rightarrow> (u32 \<times> heap) option" where
  "malloc nbytes h =
     (if no_free_space h = 2 then Some (0, h)
      else let n = round_up nbytes in
        if heap_initialized h = 1 then Some (malloc_first n h)
        else do {
          r \<leftarrow> malloc_search (hmem h) n (first_free_block h);
          (case r of None \<Rightarrow> Some (0, h) | Some HB \<Rightarrow> malloc_take n HB h) })"

subsection \<open>free\<close>

definition check_merge_with_top :: "u32 \<Rightarrow> heap \<Rightarrow> heap option" where
  "check_merge_with_top p h = do {
     let m = hmem h;
     let nx = p + bsize m p + RB_HEADER_SIZE;
     let nextnext = nx + bsize m nx + RB_HEADER_SIZE;
     if \<not> BLOCK_IS_FREE m nx then Some h
     else do {
       let (m, h) = (if BLOCK_IS_TOP m nx
                     then (set_ctrl p (ctrl m p + TOP_BLOCK) m, h\<lparr>first_free_block := p\<rparr>)
                     else (m, h));
       let m = set_ctrl p (ctrl m p + (bsize m nx + RB_HEADER_SIZE)) m;
       m \<leftarrow> (if BLOCK_IS_TOP m nx then
               let m = set_ctrl nx (ctrl m nx AND NOT TOP_BLOCK) m
               in Some (set_next_free p 0 m)
             else do {
               nf \<leftarrow> find_next_free m (counter h) nx;
               Some (set_next_free p nf m) });
       let m = set_prev_size nextnext (bsize m p) m;
       q \<leftarrow> find_prev_free m p;
       Some (h\<lparr>hmem := set_next_free q p m\<rparr>) } }"

definition check_merge_with_bottom :: "u32 \<Rightarrow> heap \<Rightarrow> heap" where
  "check_merge_with_bottom p h = (let
     m = hmem h;
     pre = p - prev_size m p - RB_HEADER_SIZE
     in if pre < HEAP_BASE \<or> \<not> BLOCK_IS_FREE m pre then h
        else let
          m = set_ctrl pre (ctrl m pre + (bsize m p + RB_HEADER_SIZE)) m;
          m = set_next_free p 0 m;
          m = set_ctrl p (ctrl m p OR FREE_BLOCK) m;
          m = (if BLOCK_IS_TOP m p then
                 let m = set_ctrl p (ctrl m p AND NOT TOP_BLOCK) m
                 in set_ctrl pre (ctrl m pre OR TOP_BLOCK) m
               else let nx = p + bsize m p + RB_HEADER_SIZE
                 in set_prev_size nx (bsize m pre) m)
          in h\<lparr>hmem := m, merge_flag := 2\<rparr>)"

definition free :: "u32 \<Rightarrow> heap \<Rightarrow> heap option" where
  "free p h =
     (if p = 0 then Some h
      else if BLOCK_IS_FREE (hmem h) p then Some h
      else do {
        let pre = p - prev_size (hmem h) p - RB_HEADER_SIZE;
        let nx = p + bsize (hmem h) p + RB_HEADER_SIZE;
        let m = set_ctrl p (ctrl (hmem h) p + FREE_BLOCK) (hmem h);
        if BLOCK_IS_TOP m p \<and> prev_size m p = 0 then
          Some (h\<lparr>hmem := set_ctrl p (ctrl m p + bsize m nx) m, first_free_block := HEAP_BASE\<rparr>)
        else do {
          h \<leftarrow> check_merge_with_top p (h\<lparr>hmem := m\<rparr>);
          let h = check_merge_with_bottom p h;
          let q = (if merge_flag h = 2 then pre else p);
          nf \<leftarrow> find_next_free (hmem h) (counter h) q;
          let m = set_next_free p nf (hmem h);
          pf \<leftarrow> find_prev_free m pre;
          m \<leftarrow> (if pf \<noteq> 0 then do {
                  nf2 \<leftarrow> find_next_free m (counter h) pf;
                  Some (set_next_free pf nf2 m) }
                else Some m);
          h \<leftarrow> update_first_free_block (h\<lparr>hmem := m\<rparr>);
          Some (h\<lparr>top_block_flag := 1, no_free_space := 1, merge_flag := 1\<rparr>) } })"

end
