(* ===== verification/Heap_Layout.thy ===== *)
theory Heap_Layout imports Heap_Model begin

text \<open>
  The abstract view of the heap: the list of its blocks below the top block, each a size and a
  free flag, and the predicate that a memory holds such a list. Addresses are natural numbers
  here and are injected with \<open>of_nat\<close>. Everything the walks of \<^verbatim>\<open>user/heap.c\<close> compute is read
  off the list: the header of a block, the next free block, the last free block before one.
\<close>

subsection \<open>Control words\<close>

definition enc :: "nat \<Rightarrow> bool \<Rightarrow> bool \<Rightarrow> u32" where
  "enc s f t = of_nat (s + (if f then 2 else 0) + (if t then 1 else 0))"

lemma bit_quad: "r < 4 \<Longrightarrow> bit (4 * k + r) i \<longleftrightarrow> (if i < 2 then bit r i else bit k (i - 2))" for k r :: nat
proof -
  assume r: "r < 4"
  show ?thesis
  proof (cases "i < 2")
    case True
    then have "i = 0 \<or> i = 1" by linarith
    then show ?thesis by (auto simp: bit_nat_def) presburger+
  next
    case False
    then obtain j where i: "i = 2 + j" by (metis le_add_diff_inverse not_less)
    have "(4 * k + r) div 2 ^ i = (4 * k + r) div 4 div 2 ^ j"
      by (simp add: i power_add div_mult2_eq)
    also have "(4 * k + r) div 4 = k" using r by simp
    finally show ?thesis using i by (simp add: bit_nat_def)
  qed
qed

lemma bits_enc:
  assumes "4 dvd s"
  shows "enc s f t AND BLOCK_SIZE_BITS = of_nat s"
    and "(enc s f t AND FREE_BLOCK > 0) = f"
    and "(enc s f t AND TOP_BLOCK \<noteq> 0) = t"
proof -
  let ?r = "(if f then 2 else 0) + (if t then 1 else 0 :: nat)"
  from assms(1) obtain k where s: "s = 4 * k" by auto
  have r: "?r < 4" by simp
  have e: "enc s f t = of_nat (4 * k + ?r)" by (simp add: enc_def s add.assoc)
  have mask: "BLOCK_SIZE_BITS = NOT (mask 2)"
    by (simp add: BLOCK_SIZE_BITS_def mask_eq_exp_minus_1)
  have b: "bit (enc s f t) i \<longleftrightarrow> i < 32 \<and> (if i < 2 then bit ?r i else bit k (i - 2))" for i
    unfolding e by (simp only: bit_of_nat_iff bit_quad [OF r]) simp
  have b4: "bit (of_nat s :: u32) i \<longleftrightarrow> i < 32 \<and> 2 \<le> i \<and> bit k (i - 2)" for i
    unfolding s bit_of_nat_iff using bit_quad [of 0 k i] by auto
  show "enc s f t AND BLOCK_SIZE_BITS = of_nat s"
    unfolding mask by (rule bit_word_eqI) (simp only: bit_and_iff b b4 bit_not_iff bit_mask_iff, auto)
  have "enc s f t AND 2 ^ 1 = 0 \<longleftrightarrow> \<not> f"
    unfolding and_exp_eq_0_iff_not_bit b by (simp add: bit_nat_def)
  then show "(enc s f t AND FREE_BLOCK > 0) = f"
    by (simp add: FREE_BLOCK_def word_gt_0)
  have "enc s f t AND 2 ^ 0 = 0 \<longleftrightarrow> \<not> t"
    unfolding and_exp_eq_0_iff_not_bit b by (simp add: bit_nat_def)
  then show "(enc s f t AND TOP_BLOCK \<noteq> 0) = t"
    by (simp add: TOP_BLOCK_def)
qed

text \<open>Setting and clearing the flags of a control word.\<close>

lemma bit_enc:
  assumes "4 dvd s"
  shows "bit (enc s f t) i \<longleftrightarrow> i < 32 \<and> (if i = 0 then t else if i = 1 then f else bit s i)"
proof -
  let ?r = "(if f then 2 else 0) + (if t then 1 else 0 :: nat)"
  from assms obtain k where s: "s = 4 * k" by auto
  have e: "enc s f t = of_nat (4 * k + ?r)" by (simp add: enc_def s add.assoc)
  have r: "?r < 4" by simp
  have r0: "bit ?r 0 = t" "bit ?r (Suc 0) = f" by (simp_all add: bit_nat_def)
  show ?thesis unfolding e bit_of_nat_iff bit_quad [OF r]
    using bit_quad [of 0 k i] r0 by (auto simp: s less_2_cases_iff)
qed

lemma bit_flags: "bit TOP_BLOCK i \<longleftrightarrow> i = 0" "bit FREE_BLOCK i \<longleftrightarrow> i = 1"
  by (auto simp: TOP_BLOCK_def FREE_BLOCK_def bit_simps)

lemma enc_flags:
  assumes "4 dvd s"
  shows "enc s f t OR TOP_BLOCK = enc s f True" "enc s f t AND NOT TOP_BLOCK = enc s f False"
    "enc s f t OR FREE_BLOCK = enc s True t"
  by (rule bit_word_eqI, use assms in \<open>auto simp: bit_enc bit_or_iff bit_and_iff bit_not_iff
      bit_flags split: if_splits\<close>)+

lemma enc_plus_flags:
  "enc s f False + TOP_BLOCK = enc s f True" "enc s False t + FREE_BLOCK = enc s True t"
  by (auto simp: enc_def TOP_BLOCK_def FREE_BLOCK_def)

subsection \<open>Block lists\<close>

type_synonym block = "nat \<times> bool"

definition hbase :: nat where "hbase = 0x700000"
definition hend :: nat where "hend = 0x800000"

definition span :: "block list \<Rightarrow> nat" where
  "span bs = (\<Sum>b\<leftarrow>bs. fst b + 8)"

definition sizes_ok :: "block list \<Rightarrow> bool" where
  "sizes_ok bs \<longleftrightarrow> (\<forall>b \<in> set bs. 4 dvd fst b \<and> 4 \<le> fst b)"

definition last_size :: "nat \<Rightarrow> block list \<Rightarrow> nat" where
  "last_size p bs = (if bs = [] then p else fst (last bs))"

text \<open>The first free block of a list laid out from \<open>a\<close>, and the last one.\<close>

fun nf :: "nat \<Rightarrow> block list \<Rightarrow> nat \<Rightarrow> nat" where
  "nf a [] c = c"
| "nf a ((s, f) # bs) c = (if f then a else nf (a + s + 8) bs c)"

fun lf :: "nat \<Rightarrow> block list \<Rightarrow> nat \<Rightarrow> nat" where
  "lf a [] d = d"
| "lf a ((s, f) # bs) d = lf (a + s + 8) bs (if f then a else d)"

lemma span_simps [simp]:
  "span [] = 0" "span (b # bs) = fst b + 8 + span bs" "span (xs @ ys) = span xs + span ys"
  by (simp_all add: span_def)

lemma sizes_ok_simps [simp]:
  "sizes_ok []" "sizes_ok (b # bs) \<longleftrightarrow> 4 dvd fst b \<and> 4 \<le> fst b \<and> sizes_ok bs"
  "sizes_ok (xs @ ys) \<longleftrightarrow> sizes_ok xs \<and> sizes_ok ys"
  by (auto simp: sizes_ok_def)

lemma span_dvd: "sizes_ok bs \<Longrightarrow> 4 dvd span bs"
  by (induction bs) (auto intro!: dvd_add)

lemma last_size_simps [simp]:
  "last_size p [] = p" "last_size p (xs @ [b]) = fst b"
  "last_size p (b # bs) = last_size (fst b) bs"
  "last_size p (xs @ b # ys) = last_size (fst b) ys"
  by (auto simp: last_size_def)

lemma last_size_append [simp]: "last_size p (xs @ ys) = last_size (last_size p xs) ys"
  by (auto simp: last_size_def)

lemma nf_append [simp]: "nf a (xs @ ys) c = nf a xs (nf (a + span xs) ys c)"
  by (induction a xs c rule: nf.induct) (simp_all add: algebra_simps)

lemma lf_append [simp]: "lf a (xs @ ys) d = lf (a + span xs) ys (lf a xs d)"
  by (induction a xs d rule: lf.induct) (simp_all add: algebra_simps)

lemma nf_reserved: "\<forall>b \<in> set bs. \<not> snd b \<Longrightarrow> nf a bs c = c"
  by (induction a bs c rule: nf.induct) auto

lemma lf_reserved: "\<forall>b \<in> set bs. \<not> snd b \<Longrightarrow> lf a bs d = d"
  by (induction a bs d rule: lf.induct) auto

lemma nf_bounds: "a + span bs \<le> c \<Longrightarrow> a \<le> nf a bs c \<and> nf a bs c \<le> c"
  by (induction a bs c rule: nf.induct) (auto simp: algebra_simps)

text \<open>A list has no free block, or it splits at its last one.\<close>

lemma last_free_cases:
  obtains (none) "\<forall>b \<in> set xs. \<not> snd b" "lf a xs 0 = 0"
  | (some) us t vs where "xs = us @ (t, True) # vs" "\<forall>b \<in> set vs. \<not> snd b" "lf a xs 0 = a + span us"
proof (cases "\<exists>b \<in> set xs. snd b")
  case True
  then obtain us b vs where xs: "xs = us @ b # vs" "snd b" "\<forall>b \<in> set vs. \<not> snd b"
    using split_list_last_prop [of xs snd] by blast
  then have "lf a xs 0 = a + span us"
    by (cases b) (simp add: lf_reserved)
  moreover obtain t where "b = (t, True)" using xs(2) by (cases b) auto
  ultimately show ?thesis using some xs by blast
next
  case False
  then show ?thesis using none lf_reserved by auto
qed

subsection \<open>A memory that holds a block list\<close>

text \<open>Words at natural addresses: the headers' fields as loads and stores.\<close>

definition ldn :: "mem \<Rightarrow> nat \<Rightarrow> u32" where
  "ldn m a = load32 m (of_nat a)"

definition stn :: "nat \<Rightarrow> u32 \<Rightarrow> mem \<Rightarrow> mem" where
  "stn a v m = store32 (of_nat a) v m"

lemma field_nat:
  "ctrl m (of_nat a) = ldn m a" "prev_size m (of_nat a) = ldn m (a + 4)"
  "next_free m (of_nat a) = ldn m (a + 8)"
  "set_ctrl (of_nat a) v m = stn a v m" "set_prev_size (of_nat a) v m = stn (a + 4) v m"
  "set_next_free (of_nat a) v m = stn (a + 8) v m"
  by (simp_all add: ldn_def stn_def ctrl_def prev_size_def next_free_def set_ctrl_def
      set_prev_size_def set_next_free_def)

lemma ldn_stn_same [simp]: "ldn (stn a v m) a = v"
  by (simp add: ldn_def stn_def byte_mem.ld_st_same)

lemma stn_twice: "stn a v (stn a w m) = stn a v m"
  by (rule ext) (simp add: stn_def store32_def)

text \<open>
  Where a memory may change: the bytes in \<open>S\<close>. The functions of \<^verbatim>\<open>user/heap.c\<close> store only into the
  megabyte of the heap and the sixteen bytes behind it (\<open>heap_bytes\<close>), and \<open>malloc\<close> into the
  word at address 8.
\<close>

definition changes_only :: "nat set \<Rightarrow> mem \<Rightarrow> mem \<Rightarrow> bool" where
  "changes_only S m m' \<longleftrightarrow> (\<forall>x. unat x \<notin> S \<longrightarrow> m' x = m x)"

definition heap_bytes :: "nat set" where "heap_bytes = {hbase..<hend + 16}"

definition malloc_bytes :: "nat set" where "malloc_bytes = {8..<12} \<union> heap_bytes"

lemma changes_refl [simp]: "changes_only S m m"
  by (simp add: changes_only_def)

lemma changes_trans: "changes_only S m m' \<Longrightarrow> changes_only S m' m'' \<Longrightarrow> changes_only S m m''"
  by (simp add: changes_only_def)

lemma changes_mono: "changes_only S m m' \<Longrightarrow> S \<subseteq> T \<Longrightarrow> changes_only T m m'"
  by (auto simp: changes_only_def)

lemma changes_if:
  "changes_only S m m1 \<Longrightarrow> changes_only S m m2 \<Longrightarrow> changes_only S m (if c then m1 else m2)"
  by simp

lemma unat_nat_plus: "k < 4 \<Longrightarrow> a + 4 \<le> 4294967296 \<Longrightarrow> unat (of_nat a + of_nat k :: u32) = a + k"
  using unat_of_nat_u32 [of "a + k"] by simp

lemma changes_stn:
  assumes "changes_only S m m'" "{a..<a + 4} \<subseteq> S" "a + 4 \<le> 4294967296"
  shows "changes_only S m (stn a v m')"
proof -
  have ne: "x \<noteq> of_nat a + of_nat k" if "unat x \<notin> S" "k < 4" for x :: u32 and k
  proof
    assume "x = of_nat a + of_nat k"
    then have "unat x = a + k" using unat_nat_plus [OF that(2) assms(3)] by simp
    moreover have "a + k \<in> {a..<a + 4}" using that(2) by simp
    ultimately show False using that(1) assms(2) by (metis subsetD)
  qed
  have "x \<noteq> of_nat a \<and> x \<noteq> of_nat a + 1 \<and> x \<noteq> of_nat a + 2 \<and> x \<noteq> of_nat a + 3"
    if "unat x \<notin> S" for x :: u32
    using ne [OF that, of 0] ne [OF that, of 1] ne [OF that, of 2] ne [OF that, of 3] by simp
  then show ?thesis using assms(1) by (simp add: changes_only_def stn_def store32_def)
qed

lemma changes_ldn:
  assumes "changes_only S m m'" "{a..<a + 4} \<inter> S = {}" "a + 4 \<le> 4294967296"
  shows "ldn m' a = ldn m a"
proof -
  have "m' (of_nat a + of_nat k) = m (of_nat a + of_nat k)" if "k < 4" for k
  proof -
    have "a + k \<in> {a..<a + 4}" using that by simp
    then have "a + k \<notin> S" using assms(2) by blast
    then show ?thesis using assms(1) unat_nat_plus [OF that assms(3)] by (simp add: changes_only_def)
  qed
  from this [of 0] this [of 1] this [of 2] this [of 3] show ?thesis
    by (simp add: ldn_def load32_def)
qed

definition hdr :: "mem \<Rightarrow> nat \<Rightarrow> nat \<Rightarrow> bool \<Rightarrow> bool \<Rightarrow> nat \<Rightarrow> bool" where
  "hdr m a s f t p \<longleftrightarrow> ldn m a = enc s f t \<and> ldn m (a + 4) = of_nat p"

fun tiles :: "mem \<Rightarrow> nat \<Rightarrow> nat \<Rightarrow> block list \<Rightarrow> bool" where
  "tiles m a p [] = True"
| "tiles m a p ((s, f) # bs) = (hdr m a s f False p \<and> tiles m (a + s + 8) s bs)"

text \<open>The same up to the top block, which is free and takes what is left of the megabyte.\<close>

fun heap_tiles :: "mem \<Rightarrow> nat \<Rightarrow> nat \<Rightarrow> block list \<Rightarrow> bool" where
  "heap_tiles m a p [] = hdr m a (hend - a) True True p"
| "heap_tiles m a p ((s, f) # bs) = (hdr m a s f False p \<and> heap_tiles m (a + s + 8) s bs)"

text \<open>The free list: every free block links to the next one, the last one to \<open>c\<close>.\<close>

fun chain :: "mem \<Rightarrow> nat \<Rightarrow> block list \<Rightarrow> nat \<Rightarrow> bool" where
  "chain m a [] c = True"
| "chain m a ((s, f) # bs) c =
     ((f \<longrightarrow> ldn m (a + 8) = of_nat (nf (a + s + 8) bs c)) \<and> chain m (a + s + 8) bs c)"

lemma tiles_append [simp]:
  "tiles m a p (xs @ ys) \<longleftrightarrow> tiles m a p xs \<and> tiles m (a + span xs) (last_size p xs) ys"
  by (induction m a p xs rule: tiles.induct) (auto simp: algebra_simps)

lemma heap_tiles_append:
  "heap_tiles m a p (xs @ ys) \<longleftrightarrow> tiles m a p xs \<and> heap_tiles m (a + span xs) (last_size p xs) ys"
  by (induction m a p xs rule: tiles.induct) (auto simp: algebra_simps)

lemma heap_tiles_top:
  "heap_tiles m a p bs \<longleftrightarrow>
     tiles m a p bs \<and> hdr m (a + span bs) (hend - (a + span bs)) True True (last_size p bs)"
  using heap_tiles_append [of m a p bs "[]"] by simp

lemma chain_append [simp]:
  "chain m a (xs @ ys) c \<longleftrightarrow> chain m a xs (nf (a + span xs) ys c) \<and> chain m (a + span xs) ys c"
  by (induction m a xs c rule: chain.induct) (auto simp: algebra_simps)

lemma chain_reserved: "\<forall>b \<in> set bs. \<not> snd b \<Longrightarrow> chain m a bs c"
  by (induction m a bs c rule: chain.induct) auto

subsection \<open>Reading a header\<close>

lemma hdr_ops:
  assumes "hdr m a s f t p" "4 dvd s"
  shows "ctrl m (of_nat a) = enc s f t" "bsize m (of_nat a) = of_nat s"
    "BLOCK_IS_FREE m (of_nat a) = f" "BLOCK_IS_TOP m (of_nat a) = t"
    "prev_size m (of_nat a) = of_nat p"
  using assms bits_enc [OF assms(2), of f t]
  by (simp_all add: hdr_def field_nat bsize_def BLOCK_IS_FREE_def BLOCK_IS_TOP_def)

text \<open>The address arithmetic of the walks, on natural numbers.\<close>

lemma step_addr:
  "(of_nat a :: u32) + of_nat s + RB_HEADER_SIZE = of_nat (a + s + 8)"
  "(of_nat (a + s + 8) :: u32) - of_nat s - RB_HEADER_SIZE = of_nat a"
  by (simp_all add: RB_HEADER_SIZE_def)

lemma heap_bounds_nat: "HEAP_BASE = of_nat hbase" "HEAP_BASE + MB_HEXA = of_nat hend"
  by (simp_all add: heap_consts hbase_def hend_def)

lemma in_heap:
  assumes "hbase \<le> x" "x \<le> hend"
  shows "HEAP_BASE \<le> of_nat x" "of_nat x \<le> HEAP_BASE + MB_HEXA"
proof -
  have "x < 4294967296" "hbase < 4294967296" "hend < 4294967296"
    using assms by (auto simp: hbase_def hend_def)
  then show "HEAP_BASE \<le> of_nat x" "of_nat x \<le> HEAP_BASE + MB_HEXA"
    unfolding heap_bounds_nat(2) unfolding heap_bounds_nat(1)
    using assms by (simp_all only: of_nat_le_u32)
qed

subsection \<open>Frame rules: what a store leaves alone\<close>

fun hdrs :: "nat \<Rightarrow> block list \<Rightarrow> nat set" where
  "hdrs a [] = {}"
| "hdrs a ((s, f) # bs) = {a, a + 4} \<union> hdrs (a + s + 8) bs"

fun links :: "nat \<Rightarrow> block list \<Rightarrow> nat set" where
  "links a [] = {}"
| "links a ((s, f) # bs) = (if f then {a + 8} else {}) \<union> links (a + s + 8) bs"

lemma hdrs_append [simp]: "hdrs a (xs @ ys) = hdrs a xs \<union> hdrs (a + span xs) ys"
  by (induction a xs rule: hdrs.induct) (auto simp: algebra_simps)

lemma links_append [simp]: "links a (xs @ ys) = links a xs \<union> links (a + span xs) ys"
  by (induction a xs rule: links.induct) (auto simp: algebra_simps)

lemma hdrs_range: "x \<in> hdrs a bs \<Longrightarrow> a \<le> x \<and> x + 4 \<le> a + span bs"
  by (induction a bs rule: hdrs.induct) auto

lemma links_range: "x \<in> links a bs \<Longrightarrow> sizes_ok bs \<Longrightarrow> a + 8 \<le> x \<and> x + 4 \<le> a + span bs"
  by (induction a bs rule: links.induct) (fastforce split: if_splits)+

lemma hdrs_links: "x \<in> hdrs a bs \<Longrightarrow> sizes_ok bs \<Longrightarrow> x \<notin> links a bs"
proof (induction a bs rule: hdrs.induct)
  case (2 a s f bs)
  show ?case
  proof (cases "x \<in> hdrs (a + s + 8) bs")
    case True
    with 2 hdrs_range [OF True] show ?thesis by auto
  next
    case False
    with 2 have "x = a \<or> x = a + 4" by auto
    moreover have "x \<in> links (a + s + 8) bs \<Longrightarrow> a + s + 16 \<le> x"
      using links_range [of x "a + s + 8" bs] 2 by auto
    ultimately show ?thesis using 2 by auto
  qed
qed simp

lemma load_frame:
  assumes "4 dvd x" "4 dvd a" "x < 4294967296" "a < 4294967296" "x \<noteq> a"
  shows "ldn (stn x v m) a = ldn m a"
  using load_store_nat [OF assms(1,2,3,4)] assms(5) by (simp add: ldn_def stn_def)

lemma hdr_frame:
  assumes "4 dvd x" "x < 4294967296" "4 dvd a" "a + 4 < 4294967296" "x \<noteq> a" "x \<noteq> a + 4"
  shows "hdr (stn x v m) a s f t p = hdr m a s f t p"
proof -
  have "4 dvd a + 4" using assms(3) by (intro dvd_add) auto
  then show ?thesis
    using assms load_frame [of x a v m] load_frame [of x "a + 4" v m] by (simp add: hdr_def)
qed

lemma tiles_frame:
  assumes "4 dvd x" "x < 4294967296" "4 dvd a" "sizes_ok bs" "a + span bs < 4294967296"
    and "x \<notin> hdrs a bs"
  shows "tiles (stn x v m) a p bs = tiles m a p bs"
  using assms(3-)
proof (induction a bs arbitrary: p rule: hdrs.induct)
  case (2 a s f bs)
  have "4 dvd a + s + 8" using "2.prems" by (intro dvd_add) auto
  then have "tiles (stn x v m) (a + s + 8) s bs = tiles m (a + s + 8) s bs"
    using 2 by (intro "2.IH") auto
  moreover have "hdr (stn x v m) a s f False p = hdr m a s f False p"
    using 2 assms(1,2) by (intro hdr_frame) auto
  ultimately show ?case by simp
qed simp

lemma heap_tiles_frame:
  assumes "4 dvd x" "x < 4294967296" "4 dvd a" "sizes_ok bs" "a + span bs \<le> hend"
    and "x \<notin> hdrs a bs" "x \<noteq> a + span bs" "x \<noteq> a + span bs + 4"
  shows "heap_tiles (stn x v m) a p bs = heap_tiles m a p bs"
proof -
  have "4 dvd a + span bs" using assms(3,4) span_dvd by (intro dvd_add) auto
  then show ?thesis using assms
    by (simp add: heap_tiles_top tiles_frame hdr_frame hend_def)
qed

lemma chain_frame:
  assumes "4 dvd x" "x < 4294967296" "4 dvd a" "sizes_ok bs" "a + span bs < 4294967296"
    and "x \<notin> links a bs"
  shows "chain (stn x v m) a bs c = chain m a bs c"
  using assms(3-)
proof (induction a bs rule: links.induct)
  case (2 a s f bs)
  have "4 dvd a + s + 8" "4 dvd a + 8" using "2.prems" by (auto intro!: dvd_add)
  moreover from this have "chain (stn x v m) (a + s + 8) bs c = chain m (a + s + 8) bs c"
    using 2 by (intro "2.IH") (auto split: if_splits)
  moreover have "f \<Longrightarrow> ldn (stn x v m) (a + 8) = ldn m (a + 8)"
    using 2 \<open>4 dvd a + 8\<close> assms(1,2) by (intro load_frame) auto
  ultimately show ?case by (simp add: algebra_simps)
qed simp

text \<open>A store outside a stretch of blocks keeps it altogether.\<close>

lemma outside_frames:
  assumes "4 dvd x" "x < 4294967296" "4 dvd a" "sizes_ok bs" "a + span bs < 4294967296"
    and "x < a \<or> a + span bs \<le> x"
  shows "tiles (stn x v m) a p bs = tiles m a p bs"
    and "chain (stn x v m) a bs c = chain m a bs c"
proof -
  have "x \<notin> hdrs a bs" "x \<notin> links a bs"
    using assms(4,6) hdrs_range [of x a bs] links_range [of x a bs] by auto
  then show "tiles (stn x v m) a p bs = tiles m a p bs" "chain (stn x v m) a bs c = chain m a bs c"
    using assms by (simp_all add: tiles_frame chain_frame)
qed

text \<open>A store into a link word keeps the headers, a store into a header keeps the links.\<close>

lemma link_tiles_frame:
  assumes "x \<in> links a bs" "4 dvd x" "4 dvd a" "sizes_ok bs" "a + span bs < 4294967296"
  shows "tiles (stn x v m) a p bs = tiles m a p bs"
  using assms hdrs_links [of x a bs] links_range [of x a bs] by (intro tiles_frame) auto

text \<open>Changing the \<open>prev_size\<close> of the first block of a stretch.\<close>

lemma hdr_set_prev:
  assumes "hdr m a s f t p" "4 dvd a" "a + 4 < 4294967296"
  shows "hdr (stn (a + 4) (of_nat p') m) a s f t p'"
proof -
  have "4 dvd a + 4" using assms(2) by (intro dvd_add) auto
  then show ?thesis using assms load_frame [of "a + 4" a "of_nat p'" m]
    by (simp add: hdr_def)
qed

lemma heap_tiles_set_prev:
  assumes "heap_tiles m a p bs" "4 dvd a" "sizes_ok bs" "a + span bs \<le> hend"
  shows "heap_tiles (stn (a + 4) (of_nat p') m) a p' bs"
proof (cases bs)
  case Nil
  with assms show ?thesis using hdr_set_prev by (simp add: hend_def)
next
  case (Cons b bs')
  obtain s f where b: "b = (s, f)" by (cases b)
  have d: "4 dvd a + s + 8" "4 dvd a + 4" using assms Cons b by (auto intro!: dvd_add)
  have "heap_tiles (stn (a + 4) (of_nat p') m) (a + s + 8) s bs' =
      heap_tiles m (a + s + 8) s bs'"
    using assms Cons b d hdrs_range [of "a + 4" "a + s + 8" bs']
    by (intro heap_tiles_frame) (auto simp: hend_def)
  moreover have "hdr (stn (a + 4) (of_nat p') m) a s f False p'"
    using assms Cons b by (intro hdr_set_prev [of m a s f False p]) (auto simp: hend_def)
  ultimately show ?thesis using assms Cons b by simp
qed

subsection \<open>What the walks return\<close>

lemma skip_reserved_nf:
  assumes "tiles m a p bs" "sizes_ok bs" "BLOCK_IS_FREE m (of_nat (a + span bs))"
  shows "skip_reserved m (of_nat a) = Some (of_nat (nf a bs (a + span bs)))"
  using assms
proof (induction bs arbitrary: a p)
  case Nil
  then show ?case by (simp add: skip_reserved.simps)
next
  case (Cons b bs)
  obtain s f where b: "b = (s, f)" by (cases b)
  with Cons.prems have h: "hdr m a s f False p" "4 dvd s" by auto
  note ops = hdr_ops [OF h]
  have eq: "a + span (b # bs) = a + s + 8 + span bs" by (simp add: b)
  have IH: "skip_reserved m (of_nat (a + s + 8)) = Some (of_nat (nf (a + s + 8) bs (a + span (b # bs))))"
    using Cons.prems b unfolding eq by (intro Cons.IH [of _ s]) auto
  show ?case
  proof (cases f)
    case True
    then show ?thesis by (subst skip_reserved.simps) (simp add: ops b)
  next
    case False
    show ?thesis
      by (subst skip_reserved.simps) (simp only: ops False step_addr IH if_True if_False simp_thms Let_def b nf.simps)
  qed
qed

lemma first_free_walk_nf:
  assumes "tiles m a p bs" "sizes_ok bs" "BLOCK_IS_FREE m (of_nat (a + span bs))"
  shows "first_free_walk m (of_nat a) = Some (Some (of_nat (nf a bs (a + span bs))))"
  using assms
proof (induction bs arbitrary: a p)
  case Nil
  then show ?case by (simp add: first_free_walk.simps)
next
  case (Cons b bs)
  obtain s f where b: "b = (s, f)" by (cases b)
  with Cons.prems have h: "hdr m a s f False p" "4 dvd s" by auto
  note ops = hdr_ops [OF h]
  have eq: "a + span (b # bs) = a + s + 8 + span bs" by (simp add: b)
  have IH: "first_free_walk m (of_nat (a + s + 8)) = Some (Some (of_nat (nf (a + s + 8) bs (a + span (b # bs)))))"
    using Cons.prems b unfolding eq by (intro Cons.IH [of _ s]) auto
  show ?case
  proof (cases f)
    case True
    then show ?thesis by (subst first_free_walk.simps) (simp add: ops b)
  next
    case False
    show ?thesis
      by (subst first_free_walk.simps) (simp only: ops False step_addr IH if_True if_False simp_thms Let_def b nf.simps)
  qed
qed

text \<open>The walk backwards starts one header below the block at the end of \<open>xs\<close>.\<close>

lemma find_prev_free_lf:
  assumes "tiles m hbase 0 xs" "sizes_ok xs" "hbase + span xs \<le> hend"
  shows "find_prev_free m (of_nat (hbase + span xs) - of_nat (last_size 0 xs) - RB_HEADER_SIZE) =
    Some (of_nat (lf hbase xs 0))"
  using assms
proof (induction xs rule: rev_induct)
  case Nil
  show ?case by (simp add: find_prev_free.simps heap_consts hbase_def)
next
  case (snoc b xs)
  obtain s f where b: "b = (s, f)" by (cases b)
  let ?a = "hbase + span xs"
  from snoc.prems b have h: "hdr m ?a s f False (last_size 0 xs)" "4 dvd s" by auto
  note ops = hdr_ops [OF h]
  have a: "(of_nat (hbase + span (xs @ [b])) :: u32) - of_nat (last_size 0 (xs @ [b])) - RB_HEADER_SIZE
      = of_nat ?a"
    by (simp add: b RB_HEADER_SIZE_def)
  have ge: "HEAP_BASE \<le> of_nat ?a" using in_heap [of ?a] snoc.prems(3) by auto
  show ?case
  proof (cases f)
    case True
    then show ?thesis unfolding a
      by (subst find_prev_free.simps) (use ge in \<open>simp add: ops b del: of_nat_add\<close>)
  next
    case False
    let ?q = "of_nat ?a - of_nat (last_size 0 xs) - RB_HEADER_SIZE :: u32"
    have IH: "find_prev_free m ?q = Some (of_nat (lf hbase xs 0))"
      using snoc.prems b by (intro snoc.IH) auto
    show ?thesis
    proof (cases xs rule: rev_cases)
      case Nil
      then have out: "?q < HEAP_BASE \<or> HEAP_BASE + MB_HEXA < ?q"
        by (simp add: heap_consts hbase_def)
      show ?thesis unfolding a
        by (subst find_prev_free.simps)
          (simp only: ops False ge out Let_def if_True simp_thms b lf_append lf.simps if_False,
            simp add: Nil)
    next
      case (snoc ys c)
      have q: "?q = of_nat (hbase + span ys)" by (simp add: snoc RB_HEADER_SIZE_def)
      have "HEAP_BASE \<le> of_nat (hbase + span ys)" "of_nat (hbase + span ys) \<le> HEAP_BASE + MB_HEXA"
        using in_heap [of "hbase + span ys"] snoc.prems(3) snoc by auto
      then have inn: "\<not> ?q < HEAP_BASE" "\<not> HEAP_BASE + MB_HEXA < ?q"
        unfolding q by auto
      show ?thesis unfolding a
        by (subst find_prev_free.simps)
          (simp only: ops False ge inn IH Let_def if_True if_False simp_thms b lf_append lf.simps)
    qed
  qed
qed

lemma top_is_free:
  assumes "heap_tiles m a p bs" "sizes_ok bs" "4 dvd a"
  shows "BLOCK_IS_FREE m (of_nat (a + span bs))" "BLOCK_IS_TOP m (of_nat (a + span bs))"
    "bsize m (of_nat (a + span bs)) = of_nat (hend - (a + span bs))"
proof -
  have "4 dvd a + span bs" using assms span_dvd by (intro dvd_add) auto
  then have d: "4 dvd hend - (a + span bs)" by (intro dvd_diff_nat) (simp_all add: hend_def)
  have h: "hdr m (a + span bs) (hend - (a + span bs)) True True (last_size p bs)"
    using assms(1) by (simp add: heap_tiles_top)
  show "BLOCK_IS_FREE m (of_nat (a + span bs))" "BLOCK_IS_TOP m (of_nat (a + span bs))"
    "bsize m (of_nat (a + span bs)) = of_nat (hend - (a + span bs))"
    using hdr_ops(3) [OF h d] hdr_ops(4) [OF h d] hdr_ops(2) [OF h d] by blast+
qed

lemma find_next_free_top: "hdr m a s f True p \<Longrightarrow> 4 dvd s \<Longrightarrow> find_next_free m cnt (of_nat a) = Some 0"
  by (simp add: find_next_free_def hdr_ops)

lemma find_next_free_nf:
  assumes "heap_tiles m a p ((s, f) # bs)" "sizes_ok ((s, f) # bs)" "4 dvd a" "15 < sint cnt"
  shows "find_next_free m cnt (of_nat a) = Some (of_nat (nf (a + s + 8) bs (a + s + 8 + span bs)))"
proof -
  have h: "hdr m a s f False p" "4 dvd s" and t: "heap_tiles m (a + s + 8) s bs" "sizes_ok bs"
    using assms by auto
  have "4 dvd a + s + 8" using h(2) assms(3) by (intro dvd_add) auto
  then have "skip_reserved m (of_nat (a + s + 8)) = Some (of_nat (nf (a + s + 8) bs (a + s + 8 + span bs)))"
    using t top_is_free [OF t] by (intro skip_reserved_nf [of _ _ s]) (auto simp: heap_tiles_top)
  then show ?thesis
    using assms(4) by (simp add: find_next_free_def hdr_ops [OF h] step_addr Let_def del: of_nat_add)
qed

text \<open>First fit: the address of the first free block that can hold \<open>n\<close> bytes.\<close>

fun first_fit :: "nat \<Rightarrow> nat \<Rightarrow> block list \<Rightarrow> nat option" where
  "first_fit n a [] = None"
| "first_fit n a ((s, f) # bs) = (if f \<and> n \<le> s then Some a else first_fit n (a + s + 8) bs)"

lemma first_fit_Some:
  "first_fit n a bs = Some x \<Longrightarrow>
     \<exists>xs s ys. bs = xs @ (s, True) # ys \<and> n \<le> s \<and> x = a + span xs \<and> first_fit n a xs = None"
proof (induction n a bs rule: first_fit.induct)
  case (2 n a s f bs)
  show ?case
  proof (cases "f \<and> n \<le> s")
    case True
    with 2 have "(s, f) # bs = [] @ (s, True) # bs \<and> n \<le> s \<and> x = a + span [] \<and> first_fit n a [] = None"
      by simp
    then show ?thesis by blast
  next
    case False
    with 2 obtain xs t ys where "bs = xs @ (t, True) # ys" "n \<le> t" "x = a + s + 8 + span xs"
        "first_fit n (a + s + 8) xs = None"
      by auto
    then have "(s, f) # bs = ((s, f) # xs) @ (t, True) # ys \<and> n \<le> t \<and> x = a + span ((s, f) # xs)
        \<and> first_fit n a ((s, f) # xs) = None"
      using False by auto
    then show ?thesis by blast
  qed
qed simp

lemma first_fit_None_iff: "first_fit n a bs = None \<longleftrightarrow> (\<forall>(s, f) \<in> set bs. f \<longrightarrow> s < n)"
  by (induction n a bs rule: first_fit.induct) auto

lemma malloc_search_first_fit:
  assumes "heap_tiles m a p bs" "chain m a bs (a + span bs)" "sizes_ok bs" "4 dvd a"
    "a + span bs \<le> hend" "n < 4294967296"
  shows "malloc_search m (of_nat n) (of_nat (nf a bs (a + span bs))) =
    Some (case first_fit n a bs of Some x \<Rightarrow> Some (of_nat x)
      | None \<Rightarrow> if n \<le> hend - (a + span bs) then Some (of_nat (a + span bs)) else None)"
  using assms(1-5)
proof (induction bs arbitrary: a p)
  case Nil
  have "hend - a < 4294967296" by (simp add: hend_def)
  then show ?case
    using top_is_free [OF Nil(1,3,4)] assms(6)
    by (subst malloc_search.simps) (auto simp: of_nat_less_u32)
next
  case (Cons b bs)
  obtain s f where b: "b = (s, f)" by (cases b)
  with Cons.prems have h: "hdr m a s f False p" "4 dvd s" and d: "4 dvd a + s + 8"
    by (auto intro!: dvd_add)
  note ops = hdr_ops [OF h]
  have eq: "a + span (b # bs) = a + s + 8 + span bs" by (simp add: b)
  have IH: "malloc_search m (of_nat n) (of_nat (nf (a + s + 8) bs (a + span (b # bs)))) =
    Some (case first_fit n (a + s + 8) bs of Some x \<Rightarrow> Some (of_nat x)
      | None \<Rightarrow> if n \<le> hend - (a + span (b # bs)) then Some (of_nat (a + span (b # bs))) else None)"
    using Cons.prems b d unfolding eq by (intro Cons.IH [of _ s]) auto
  show ?case
  proof (cases f)
    case False
    with IH show ?thesis by (simp add: b)
  next
    case True
    have "s < 4294967296" using Cons.prems b by (simp add: hend_def)
    then have lt: "(of_nat s :: u32) < of_nat n \<longleftrightarrow> s < n" using assms(6) by (rule of_nat_less_u32)
    show ?thesis
    proof (cases "s < n")
      case False
      with True show ?thesis by (subst malloc_search.simps) (simp add: ops lt b)
    next
      case less: True
      have "next_free m (of_nat a) = of_nat (nf (a + s + 8) bs (a + span (b # bs)))"
        using Cons.prems(2) True b by (simp add: field_nat add.assoc)
      moreover from less have "\<not> n \<le> s" by simp
      ultimately show ?thesis
        by (subst malloc_search.simps)
          (use IH True less in \<open>simp only: ops lt b nf.simps first_fit.simps if_True if_False simp_thms\<close>)
    qed
  qed
qed

lemma hbase_simps [simp]: "4 dvd hbase" "0 < hbase" "hbase \<noteq> 0" by (simp_all add: hbase_def)

subsection \<open>Relinking the last free block below a point\<close>

definition relink :: "mem \<Rightarrow> block list \<Rightarrow> nat \<Rightarrow> mem" where
  "relink m xs c = (if lf hbase xs 0 = 0 then m else stn (lf hbase xs 0 + 8) (of_nat c) m)"

lemma lf_link:
  assumes "lf hbase xs 0 \<noteq> 0" "sizes_ok xs"
  shows "lf hbase xs 0 + 8 \<in> links hbase xs" "4 dvd lf hbase xs 0"
    "hbase \<le> lf hbase xs 0" "lf hbase xs 0 + 12 \<le> hbase + span xs"
proof -
  obtain us t vs where xs: "xs = us @ (t, True) # vs" "lf hbase xs 0 = hbase + span us"
    using last_free_cases [of xs hbase] assms(1) by metis
  with assms(2) show "lf hbase xs 0 + 8 \<in> links hbase xs" "hbase \<le> lf hbase xs 0"
      "lf hbase xs 0 + 12 \<le> hbase + span xs" by auto
  show "4 dvd lf hbase xs 0" unfolding xs(2) using assms(2) xs(1)
    by (intro dvd_add span_dvd) (auto simp: hbase_def)
qed

lemma changes_relink:
  assumes "changes_only S m m'" "sizes_ok xs" "hbase + span xs \<le> hend" "{hbase..<hbase + span xs} \<subseteq> S"
  shows "changes_only S m (relink m' xs c)"
proof (cases "lf hbase xs 0 = 0")
  case False
  from lf_link [OF this assms(2)] have "{lf hbase xs 0 + 8..<lf hbase xs 0 + 8 + 4} \<subseteq> S"
    "lf hbase xs 0 + 8 + 4 \<le> 4294967296"
    using assms(3,4) by (auto simp: hend_def)
  from changes_stn [OF assms(1) this] show ?thesis using False by (simp add: relink_def)
qed (use assms(1) in \<open>simp add: relink_def\<close>)

lemma relink_search:
  assumes "heap_tiles m hbase 0 (xs @ zs)" "sizes_ok (xs @ zs)"
    and "lf hbase xs 0 \<noteq> 0" "15 < sint cnt"
  shows "find_next_free m cnt (of_nat (lf hbase xs 0)) =
    Some (of_nat (nf (hbase + span xs) zs (hbase + span (xs @ zs))))"
proof -
  obtain us t vs where xs: "xs = us @ (t, True) # vs" "\<forall>b \<in> set vs. \<not> snd b"
      "lf hbase xs 0 = hbase + span us"
    using last_free_cases [of xs hbase] assms(3) by metis
  let ?l = "hbase + span us"
  have "heap_tiles m ?l (last_size 0 us) ((t, True) # vs @ zs)" "sizes_ok ((t, True) # vs @ zs)" "4 dvd ?l"
    using assms(1,2) xs(1) span_dvd by (auto simp: heap_tiles_append intro!: dvd_add)
  from find_next_free_nf [OF this assms(4)] show ?thesis
    using xs by (simp add: nf_reserved algebra_simps del: of_nat_add)
qed

lemma relink_tiles:
  assumes "heap_tiles m hbase 0 (xs @ zs)" "sizes_ok (xs @ zs)" "hbase + span (xs @ zs) \<le> hend"
  shows "heap_tiles (relink m xs c) hbase 0 (xs @ zs)"
proof (cases "lf hbase xs 0 = 0")
  case False
  let ?x = "lf hbase xs 0 + 8"
  have sx: "sizes_ok xs" using assms(2) by simp
  note l = lf_link [OF False sx]
  have "?x \<notin> hdrs hbase (xs @ zs)"
    using l(1,4) hdrs_links [of ?x hbase xs] sx hdrs_range [of ?x "hbase + span xs" zs] by auto
  then show ?thesis using assms l False
    by (simp add: relink_def, subst heap_tiles_frame) (auto intro!: dvd_add simp: hend_def)
qed (use assms in \<open>simp add: relink_def\<close>)

lemma relink_chain:
  assumes "chain m hbase xs c0" "sizes_ok xs" "hbase + span xs \<le> hend"
  shows "chain (relink m xs c) hbase xs c"
proof (cases "lf hbase xs 0 = 0")
  case True
  then have "\<forall>b \<in> set xs. \<not> snd b"
    using last_free_cases [of xs hbase] by (metis add_is_0 hbase_def zero_neq_numeral)
  then show ?thesis by (rule chain_reserved)
next
  case False
  then obtain us t vs where xs: "xs = us @ (t, True) # vs" "\<forall>b \<in> set vs. \<not> snd b"
      "lf hbase xs 0 = hbase + span us"
    using last_free_cases [of xs hbase] by metis
  let ?l = "hbase + span us"
  have d: "4 dvd ?l + 8" using assms(2) xs(1) span_dvd by (auto intro!: dvd_add)
  have "chain m hbase us ?l" using assms(1) xs(1) by simp
  then have "chain (stn (?l + 8) (of_nat c) m) hbase us ?l"
    using assms xs d by (subst outside_frames(2)) (auto simp: hend_def)
  then show ?thesis using xs False
    by (simp add: relink_def nf_reserved chain_reserved)
qed

lemma relink_frame:
  assumes "x \<noteq> lf hbase xs 0 + 8" "4 dvd x" "x < 4294967296" "sizes_ok xs" "hbase + span xs \<le> hend"
  shows "ldn (relink m xs c) x = ldn m x"
proof (cases "lf hbase xs 0 = 0")
  case False
  from lf_link [OF this assms(4)] False assms show ?thesis
    by (simp add: relink_def, subst load_frame) (auto intro!: dvd_add simp: hend_def)
qed (simp add: relink_def)

lemma relink_chain_above:
  assumes "sizes_ok (xs @ zs)" "hbase + span (xs @ zs) \<le> hend" "hbase + span xs \<le> a"
    "a + span ys \<le> hend" "sizes_ok ys" "4 dvd a"
  shows "chain (relink m xs c) a ys d = chain m a ys d"
proof (cases "lf hbase xs 0 = 0")
  case False
  have sx: "sizes_ok xs" using assms(1) by simp
  from lf_link [OF False sx] False assms show ?thesis
    by (simp add: relink_def, subst outside_frames(2)) (auto intro!: dvd_add simp: hend_def)
qed (simp add: relink_def)

end
