(* ===== verification/Heap_Malloc.thy ===== *)
theory Heap_Malloc imports Heap_Layout begin

text \<open>
  \<^verbatim>\<open>malloc\<close> of \<^verbatim>\<open>user/heap.c\<close> against its specification on block lists: first fit, splitting when
  at least twelve bytes are left. The proof follows the code: a store between two stretches of
  blocks keeps both (\<open>surround\<close>), the part after the search is one lemma for the split and the
  unsplit case, and the last free block below is relinked.
\<close>

subsection \<open>The representation invariant\<close>

definition heap_rep :: "heap \<Rightarrow> block list \<Rightarrow> bool" where
  "heap_rep h bs \<longleftrightarrow> heap_initialized h = 2 \<and> merge_flag h = 1 \<and> top_block_flag h = 1 \<and>
     no_free_space h = 1 \<and> sizes_ok bs \<and> hbase + span bs + 4 \<le> hend \<and>
     heap_tiles (hmem h) hbase 0 bs \<and> chain (hmem h) hbase bs (hbase + span bs) \<and>
     first_free_block h = of_nat (nf hbase bs (hbase + span bs))"

text \<open>The specification of a successful call: where the block lies and what the list becomes.\<close>

fun take_block :: "nat \<Rightarrow> block \<Rightarrow> block list" where
  "take_block n (s, f) = (if n + 12 \<le> s then [(n, False), (s - n - 8, True)] else [(s, False)])"

fun alloc_in :: "nat \<Rightarrow> block list \<Rightarrow> block list" where
  "alloc_in n [] = [(n, False)]"
| "alloc_in n ((s, f) # bs) =
     (if f \<and> n \<le> s then take_block n (s, f) @ bs else (s, f) # alloc_in n bs)"

subsection \<open>Stores between two stretches of blocks\<close>

definition surround :: "mem \<Rightarrow> block list \<Rightarrow> nat \<Rightarrow> nat \<Rightarrow> nat \<Rightarrow> block list \<Rightarrow> bool" where
  "surround m xs c z q zs \<longleftrightarrow> tiles m hbase 0 xs \<and> chain m hbase xs c \<and>
     heap_tiles m z q zs \<and> chain m z zs (z + span zs)"

lemma surround_store:
  assumes "surround m xs c z q zs" "sizes_ok xs" "sizes_ok zs" "4 dvd z" "z + span zs \<le> hend"
    and "4 dvd x" "hbase + span xs \<le> x" "x < z"
  shows "surround (stn x v m) xs c z q zs"
proof -
  have "x \<notin> hdrs z zs" using hdrs_range [of x z zs] assms(8) by auto
  then show ?thesis using assms
    by (simp add: surround_def outside_frames heap_tiles_frame hend_def)
qed

lemma of_nat_and_size: "4 dvd n \<Longrightarrow> (of_nat n :: u32) AND BLOCK_SIZE_BITS = of_nat n"
  using bits_enc(1) [of n False False] by (simp add: enc_def)

lemma enc_add: "enc n f t + of_nat d = enc (n + d) f t"
  by (simp add: enc_def)

lemma prev_addr:
  assumes "tiles m hbase 0 xs" "sizes_ok xs" "xs \<noteq> []"
  shows "bsize m (of_nat (hbase + span xs) - of_nat (last_size 0 xs) - RB_HEADER_SIZE) =
    of_nat (last_size 0 xs)"
  using assms
proof (cases xs rule: rev_cases)
  case (snoc us b)
  obtain s f where b: "b = (s, f)" by (cases b)
  with assms snoc have h: "hdr m (hbase + span us) s f False (last_size 0 us)" "4 dvd s" by auto
  have "(of_nat (hbase + span xs) :: u32) - of_nat (last_size 0 xs) - RB_HEADER_SIZE = of_nat (hbase + span us)"
    by (simp add: snoc b RB_HEADER_SIZE_def)
  then show ?thesis using hdr_ops(2) [OF h] by (simp add: snoc b del: of_nat_add)
qed simp

text \<open>Writing the header of the block handed out: its control word and its \<open>prev_size\<close>.\<close>

lemma take_header:
  fixes a n :: nat
  assumes sur: "surround m xs c z q zs" and ok: "sizes_ok xs" "sizes_ok zs" "4 dvd z" "z + span zs \<le> hend"
    and a: "a = hbase + span xs" "a + 8 \<le> z" and n: "4 dvd n"
    and prev: "ldn m (a + 4) = of_nat (last_size 0 xs)"
    and m1: "m1 = set_ctrl (of_nat a) (of_nat n AND BLOCK_SIZE_BITS) m"
    and m2: "m2 = (if of_nat a \<noteq> HEAP_BASE then set_prev_size (of_nat a)
        (bsize m1 (of_nat a - of_nat (last_size 0 xs) - RB_HEADER_SIZE)) m1 else m1)"
  shows "surround m2 xs c z q zs" "hdr m2 a n False False (last_size 0 xs)"
proof -
  have d: "4 dvd a" "4 dvd a + 4" using ok(1) a(1) span_dvd by (auto intro!: dvd_add)
  have lt: "a + 4 < 4294967296" using a ok(4) by (auto simp: hend_def)
  have m1': "m1 = stn a (enc n False False) m"
    using n by (simp add: m1 field_nat of_nat_and_size enc_def)
  have s1: "surround m1 xs c z q zs" unfolding m1'
    by (rule surround_store [OF sur ok]) (use d a in auto)
  have p1: "ldn m1 (a + 4) = of_nat (last_size 0 xs)"
    unfolding m1' using prev d lt by (simp add: load_frame)
  have m2': "m2 = m1 \<or> m2 = stn (a + 4) (of_nat (last_size 0 xs)) m1"
  proof (cases "xs = []")
    case True
    then show ?thesis by (simp add: m2 a heap_bounds_nat(1))
  next
    case False
    with s1 ok(1) prev_addr [of m1 xs] show ?thesis
      by (simp add: m2 a field_nat surround_def del: of_nat_add)
  qed
  have s2: "surround (stn (a + 4) (of_nat (last_size 0 xs)) m1) xs c z q zs"
    by (rule surround_store [OF s1 ok]) (use d a in auto)
  show "surround m2 xs c z q zs" using m2' s1 s2 by auto
  have "hdr m1 a n False False (last_size 0 xs)" using p1 by (simp add: m1' hdr_def)
  then show "hdr m2 a n False False (last_size 0 xs)" using m2' hdr_set_prev d(1) lt by auto
qed

text \<open>The block's final control word: the rest goes to the block when it is not split off.\<close>

lemma take_rest:
  fixes a n s' :: nat and rest :: u32
  assumes sur: "surround m xs c z q zs" and ok: "sizes_ok xs" "sizes_ok zs" "4 dvd z" "z + span zs \<le> hend"
    and a: "a = hbase + span xs" "a + 8 \<le> z"
    and h: "hdr m a n False False p" "4 dvd n"
    and rest: "(12 \<le> sint rest \<and> s' = n) \<or> (sint rest < 12 \<and> rest = of_nat (s' - n) \<and> n \<le> s')"
    and m': "m' = (if sint rest < 12 then set_ctrl (of_nat a) (ctrl m (of_nat a) + rest) m else m)"
  shows "surround m' xs c z q zs" "hdr m' a s' False False p"
proof -
  have d: "4 dvd a" "4 dvd a + 4" using ok(1) a(1) span_dvd by (auto intro!: dvd_add)
  have lt: "a + 4 < 4294967296" using a ok(4) by (auto simp: hend_def)
  have "surround (stn a v m) xs c z q zs" for v
    by (rule surround_store [OF sur ok]) (use d a in auto)
  then show "surround m' xs c z q zs" using sur by (simp add: m' field_nat)
  show "hdr m' a s' False False p"
  proof (cases "sint rest < 12")
    case True
    with rest have r: "rest = of_nat (s' - n)" "n \<le> s'" by auto
    have "m' = stn a (enc s' False False) m"
      using True hdr_ops(1) [OF h] r by (simp add: m' field_nat enc_add del: of_nat_diff)
    then show ?thesis using h lt d by (simp add: hdr_def load_frame)
  next
    case False
    then show ?thesis using rest h by (simp add: m')
  qed
qed

lemma update_first_rep:
  assumes "heap_tiles (hmem h) hbase 0 bs" "sizes_ok bs"
  shows "update_first_free_block h = Some (h\<lparr>first_free_block := of_nat (nf hbase bs (hbase + span bs))\<rparr>)"
proof -
  have "first_free_walk (hmem h) HEAP_BASE = Some (Some (of_nat (nf hbase bs (hbase + span bs))))"
    unfolding heap_bounds_nat(1) using assms top_is_free [OF assms]
    by (intro first_free_walk_nf [of _ _ 0]) (auto simp: heap_tiles_top)
  then show ?thesis by (simp add: update_first_free_block_def)
qed

lemma lf_word_nonzero:
  assumes "sizes_ok xs" "hbase + span xs \<le> hend"
  shows "(of_nat (lf hbase xs 0) :: u32) \<noteq> 0 \<longleftrightarrow> lf hbase xs 0 \<noteq> 0"
proof (cases "lf hbase xs 0 = 0")
  case False
  from lf_link [OF this assms(1)] assms(2) have "lf hbase xs 0 < 4294967296" by (simp add: hend_def)
  with False show ?thesis using of_nat_eq_iff_u32 [of "lf hbase xs 0" 0] by simp
qed simp

text \<open>
  The relinking step of \<open>malloc\<close> and \<open>free\<close>: the last free block below gets the next free block
  above as its successor.
\<close>

lemma relink_step:
  assumes "heap_tiles m hbase 0 (xs @ zs)" "sizes_ok (xs @ zs)" "hbase + span (xs @ zs) \<le> hend"
    and "15 < sint cnt \<or> lf hbase xs 0 = 0"
  shows "(if (of_nat (lf hbase xs 0) :: u32) \<noteq> 0 then do {
       nx \<leftarrow> find_next_free m cnt (of_nat (lf hbase xs 0));
       Some (set_next_free (of_nat (lf hbase xs 0)) nx m) } else Some m) =
     Some (relink m xs (nf (hbase + span xs) zs (hbase + span (xs @ zs))))"
  using assms relink_search [OF assms(1,2)] lf_word_nonzero [of xs]
  by (auto simp: relink_def field_nat)

lemma heap_repI:
  assumes "heap_tiles (relink m xs c') hbase 0 (xs @ zs)" "chain m hbase xs c"
    "chain m (hbase + span xs) zs (hbase + span (xs @ zs))"
    "c' = nf (hbase + span xs) zs (hbase + span (xs @ zs))"
    and ok: "sizes_ok (xs @ zs)" "hbase + span (xs @ zs) + 4 \<le> hend"
    and "hmem h = relink m xs c'" "heap_initialized h = 2" "merge_flag h = 1" "top_block_flag h = 1"
    "no_free_space h = 1" "first_free_block h = of_nat (nf hbase (xs @ zs) (hbase + span (xs @ zs)))"
  shows "heap_rep h (xs @ zs)"
proof -
  have "chain (relink m xs c') hbase xs c'"
    using relink_chain [OF assms(2)] ok by simp
  moreover have "chain (relink m xs c') (hbase + span xs) zs (hbase + span (xs @ zs))"
    using assms(3) ok span_dvd [of xs]
    by (subst relink_chain_above [of xs "[]"]) (auto intro!: dvd_add)
  ultimately show ?thesis using assms by (simp add: heap_rep_def)
qed

lemma malloc_finish_rep:
  fixes a n s' :: nat
  assumes sur: "surround (hmem h) xs c (a + s' + 8) s' zs"
    and ok: "sizes_ok (xs @ (s', False) # zs)" "hbase + span (xs @ (s', False) # zs) + 4 \<le> hend"
    and a: "a = hbase + span xs" and prev: "ldn (hmem h) (a + 4) = of_nat (last_size 0 xs)"
    and notop: "\<not> (BLOCK_IS_TOP (hmem h) (of_nat a) \<and> bsize (hmem h) (of_nat a) \<le> of_nat n)"
    and flags: "heap_initialized h = 2" "merge_flag h = 1" "top_block_flag h = 1" "no_free_space h = 1"
    and n: "4 dvd n" "4 \<le> n" "n \<le> s'"
    and rest: "(12 \<le> sint rest \<and> s' = n) \<or> (sint rest < 12 \<and> rest = of_nat (s' - n))"
    and cnt: "15 < sint (counter h) \<or> lf hbase xs 0 = 0"
  shows "\<exists>h'. malloc_finish (of_nat n) (of_nat a)
        (of_nat a - of_nat (last_size 0 xs) - RB_HEADER_SIZE) rest h = Some (of_nat a, h') \<and>
      heap_rep h' (xs @ (s', False) # zs) \<and> counter h' = counter h + 1 \<and>
      changes_only {hbase..<hend} (hmem h) (hmem h')"
proof -
  let ?bs = "xs @ (s', False) # zs" and ?z = "a + s' + 8"
  have d: "4 dvd a" "4 dvd ?z" using ok a span_dvd by (auto intro!: dvd_add)
  have end': "?z + span zs \<le> hend" "hbase + span (xs @ [(n, False)]) \<le> hend" using ok a n by auto
  define m1 where "m1 = set_ctrl (of_nat a) (of_nat n AND BLOCK_SIZE_BITS) (hmem h)"
  define m2 where "m2 = (if of_nat a \<noteq> HEAP_BASE then set_prev_size (of_nat a)
        (bsize m1 (of_nat a - of_nat (last_size 0 xs) - RB_HEADER_SIZE)) m1 else m1)"
  define m3 where "m3 = (if sint rest < 12 then set_ctrl (of_nat a) (ctrl m2 (of_nat a) + rest) m2 else m2)"
  have oks: "sizes_ok xs" "sizes_ok zs" using ok by auto
  have sur2: "surround m2 xs c ?z s' zs" and h2: "hdr m2 a n False False (last_size 0 xs)"
    using take_header [OF sur oks d(2) end'(1) a _ n(1) prev m1_def m2_def] by auto
  have rest': "(12 \<le> sint rest \<and> s' = n) \<or> (sint rest < 12 \<and> rest = of_nat (s' - n) \<and> n \<le> s')"
    using rest n(3) by blast
  have sur3: "surround m3 xs c ?z s' zs" and h3: "hdr m3 a s' False False (last_size 0 xs)"
    using take_rest [OF sur2 oks d(2) end'(1) a _ h2 n(1) rest' m3_def] by auto
  have prev: "find_prev_free m2 (of_nat a) = Some (of_nat (lf hbase xs 0))"
    using find_prev_free_lf [of m2 "xs @ [(n, False)]"] sur2 h2 ok n end'(2) a
    by (simp add: surround_def RB_HEADER_SIZE_def)
  have tiles3: "heap_tiles m3 hbase 0 ?bs"
    using sur3 h3 a by (simp add: surround_def heap_tiles_append)
  define c' where "c' = nf (hbase + span xs) ((s', False) # zs) (hbase + span ?bs)"
  have rel: "(if (of_nat (lf hbase xs 0) :: u32) \<noteq> 0 then do {
       nx \<leftarrow> find_next_free m3 (counter h) (of_nat (lf hbase xs 0));
       Some (set_next_free (of_nat (lf hbase xs 0)) nx m3) } else Some m3) = Some (relink m3 xs c')"
    unfolding c'_def by (rule relink_step) (use tiles3 ok cnt in auto)
  have tiles4: "heap_tiles (relink m3 xs c') hbase 0 ?bs"
    by (rule relink_tiles [OF tiles3 ok(1)]) (use ok in simp)
  define h' where "h' = h\<lparr>hmem := relink m3 xs c',
      first_free_block := of_nat (nf hbase ?bs (hbase + span ?bs)), counter := counter h + 1\<rparr>"
  have hsel: "(if BLOCK_IS_TOP (hmem h) (of_nat a) \<and> bsize (hmem h) (of_nat a) \<le> of_nat n
      then h\<lparr>top_block_flag := 2\<rparr> else h) = h" by (rule if_not_P [OF notop])
  have one_two: "((1 :: u32) = 2) = False" by simp
  have upd: "update_first_free_block (h\<lparr>hmem := relink m3 xs c'\<rparr>) = Some (h\<lparr>hmem := relink m3 xs c',
      first_free_block := of_nat (nf hbase ?bs (hbase + span ?bs))\<rparr>)"
    using update_first_rep [of "h\<lparr>hmem := relink m3 xs c'\<rparr>", OF _ ok(1)] tiles4 by simp
  have "malloc_finish (of_nat n) (of_nat a)
      (of_nat a - of_nat (last_size 0 xs) - RB_HEADER_SIZE) rest h = Some (of_nat a, h')"
    by (simp only: malloc_finish_def Let_def hsel m1_def [symmetric] m2_def [symmetric] prev
        Option.bind.bind_lunit flags(3) one_two if_False m3_def [symmetric] rel upd) (simp add: h'_def)
  moreover have "heap_rep h' ?bs"
    by (rule heap_repI [OF tiles4])
      (use sur3 ok flags a in \<open>auto simp: c'_def h'_def surround_def algebra_simps\<close>)
  moreover have "changes_only {hbase..<hend} (hmem h) (hmem h')"
  proof -
    have r: "{a..<a + 4} \<subseteq> {hbase..<hend}" "{a + 4..<a + 4 + 4} \<subseteq> {hbase..<hend}"
        "{hbase..<hbase + span xs} \<subseteq> {hbase..<hend}" "a + 4 \<le> 4294967296" "a + 4 + 4 \<le> 4294967296"
      using a ok by (auto simp: hend_def)
    have "changes_only {hbase..<hend} (hmem h) m3"
      unfolding m3_def m2_def m1_def field_nat by (intro changes_if changes_stn changes_refl r)
    then show ?thesis using changes_relink [OF _ oks(1) _ r(3)] a ok by (simp add: h'_def)
  qed
  ultimately show ?thesis by (auto simp: h'_def)
qed

subsection \<open>Splitting the block found\<close>

text \<open>
  The store into the last free block below, or at address 8 when there is none: it keeps
  everything from \<open>hbase + span xs\<close> on and the headers below, and leaves a chain below.
\<close>

lemma link_store:
  fixes c :: nat
  assumes "tiles m hbase 0 xs" "chain m hbase xs c0" "sizes_ok xs" "hbase + span xs \<le> hend"
  defines "m' \<equiv> set_next_free (of_nat (lf hbase xs 0)) (of_nat c) m"
  shows "tiles m' hbase 0 xs" "chain m' hbase xs c"
    and "4 dvd x \<Longrightarrow> hbase + span xs \<le> x \<Longrightarrow> x < 4294967296 \<Longrightarrow> ldn m' x = ldn m x"
    and "changes_only ({8..<12} \<union> {hbase..<hbase + span xs}) m m'"
proof -
  have m': "m' = stn (lf hbase xs 0 + 8) (of_nat c) m" by (simp add: m'_def field_nat)
  have "tiles m' hbase 0 xs \<and> chain m' hbase xs c \<and> 4 dvd lf hbase xs 0 + 8 \<and>
      lf hbase xs 0 + 8 < hbase + span xs \<and>
      {lf hbase xs 0 + 8..<lf hbase xs 0 + 8 + 4} \<subseteq> {8..<12} \<union> {hbase..<hbase + span xs}"
  proof (cases "lf hbase xs 0 = 0")
    case True
    then have r: "\<forall>b \<in> set xs. \<not> snd b"
      using last_free_cases [of xs hbase] by (metis add_is_0 hbase_simps(3))
    have "tiles m' hbase 0 xs"
      unfolding m' using assms True by (subst outside_frames(1)) (auto simp: hend_def hbase_def)
    moreover have "8 < hbase + span xs" by (simp add: hbase_def)
    ultimately show ?thesis using r True by (simp add: chain_reserved)
  next
    case False
    note l = lf_link [OF False assms(3)]
    have "chain m' hbase xs c" using relink_chain [OF assms(2,3,4), of c] False
      by (simp add: relink_def m')
    moreover have "tiles m' hbase 0 xs" unfolding m'
      using assms l by (subst link_tiles_frame [OF l(1)]) (auto intro!: dvd_add simp: hend_def)
    ultimately show ?thesis using l by auto
  qed
  then show "tiles m' hbase 0 xs" "chain m' hbase xs c"
    and "4 dvd x \<Longrightarrow> hbase + span xs \<le> x \<Longrightarrow> x < 4294967296 \<Longrightarrow> ldn m' x = ldn m x"
    and "changes_only ({8..<12} \<union> {hbase..<hbase + span xs}) m m'"
    using assms(4) by (auto simp: m' load_frame hend_def intro!: changes_stn)
qed

lemma ldn_hdr: "ldn m' a = ldn m a \<Longrightarrow> ldn m' (a + 4) = ldn m (a + 4) \<Longrightarrow>
    hdr m' a s f t p = hdr m a s f t p"
  by (simp add: hdr_def)

text \<open>Stretches of blocks read only their own words.\<close>

lemma heap_tiles_cong:
  assumes "heap_tiles m a p bs" "\<And>x. 4 dvd x \<Longrightarrow> a \<le> x \<Longrightarrow> x \<le> a + span bs + 4 \<Longrightarrow> ldn m' x = ldn m x"
    and "4 dvd a" "sizes_ok bs"
  shows "heap_tiles m' a p bs"
  using assms
proof (induction bs arbitrary: a p)
  case Nil
  have "4 dvd a + 4" using Nil(3) by (intro dvd_add) auto
  then show ?case using Nil by (simp add: hdr_def)
next
  case (Cons b bs)
  obtain s f where b: "b = (s, f)" by (cases b)
  have d: "4 dvd a + 4" "4 dvd a + s + 8" using Cons.prems b by (auto intro!: dvd_add)
  have "heap_tiles m' (a + s + 8) s bs"
    by (rule Cons.IH) (use Cons.prems b d in auto)
  moreover have "hdr m' a s f False p"
    using Cons.prems b d by (subst ldn_hdr [of _ _ m]) auto
  ultimately show ?case by (simp add: b)
qed

lemma chain_cong:
  assumes "chain m a bs c" "\<And>x. 4 dvd x \<Longrightarrow> a \<le> x \<Longrightarrow> x < a + span bs \<Longrightarrow> ldn m' x = ldn m x"
    and "4 dvd a" "sizes_ok bs"
  shows "chain m' a bs c"
  using assms
proof (induction bs arbitrary: a)
  case (Cons b bs)
  obtain s f where b: "b = (s, f)" by (cases b)
  have d: "4 dvd a + 8" "4 dvd a + s + 8" using Cons.prems b by (auto intro!: dvd_add)
  have "chain m' (a + s + 8) bs c" by (rule Cons.IH) (use Cons.prems b d in auto)
  then show ?case using Cons.prems b d by auto
qed simp

lemma malloc_split_inner:
  fixes a n s r :: nat
  assumes m: "heap_tiles (hmem h) hbase 0 (xs @ (s, True) # ys)"
    "chain (hmem h) hbase (xs @ (s, True) # ys) (hbase + span (xs @ (s, True) # ys))"
    and ok: "sizes_ok (xs @ (s, True) # ys)" "hbase + span (xs @ (s, True) # ys) + 4 \<le> hend"
    and a: "a = hbase + span xs" and n: "4 dvd n" "4 \<le> n" "4 \<le> r" "s = n + 8 + r"
    and cnt: "15 < sint (counter h)"
  shows "\<exists>m'. malloc_split (of_nat n) (of_nat a)
        (of_nat a - of_nat (last_size 0 xs) - RB_HEADER_SIZE) h = Some (h\<lparr>hmem := m'\<rparr>) \<and>
      surround m' xs (a + n + 8) (a + n + 8) n ((r, True) # ys) \<and>
      hdr m' a s True False (last_size 0 xs) \<and> changes_only malloc_bytes (hmem h) m'"
proof -
  let ?m = "hmem h" and ?b = "a + n + 8" and ?z = "a + s + 8"
  have oks: "sizes_ok xs" "sizes_ok ys" "4 dvd s" using ok by auto
  have r4: "4 dvd r" using oks(3) n(1,4) by presburger
  have d: "4 dvd a" "4 dvd a + 4" "4 dvd ?b" "4 dvd ?b + 4" "4 dvd ?b + 8" "4 dvd ?z" "4 dvd ?z + 4"
    using oks n(1) a span_dvd by (auto intro!: dvd_add)
  have lt: "?z + span ys + 4 \<le> hend" using ok a by auto
  have zr: "?b + r + 8 = ?z" using n by auto
  have ha: "hdr ?m a s True False (last_size 0 xs)" and hys: "heap_tiles ?m ?z s ys"
    using m(1) a by (auto simp: heap_tiles_append)
  define m1 where "m1 = stn ?b (enc r True False) ?m"
  define m3 where "m3 = stn (?b + 4) (of_nat n) m1"
  define m4 where "m4 = stn (?z + 4) (of_nat r) m3"
  define m5 where "m5 = set_next_free (of_nat (lf hbase xs 0)) (of_nat ?b) m4"
  define m6 where "m6 = stn (?b + 8) (of_nat (nf ?z ys (?z + span ys))) m5"
  note ms = m1_def m3_def m4_def
  have lts: "?z + span ys + 4 < 4294967296" using lt by (simp add: hend_def)
  have fr: "ldn m4 x = ldn ?m x" if "4 dvd x" "x < 4294967296" "x \<noteq> ?b" "x \<noteq> ?b + 4" "x \<noteq> ?z + 4" for x
    unfolding ms using that d lts n by (simp add: load_frame)
  have below: "tiles m4 hbase 0 xs" "chain m4 hbase xs a"
    unfolding ms using m a oks d lts n
    by (auto simp: outside_frames heap_tiles_append hbase_def)
  have h4: "hdr m4 a s True False (last_size 0 xs)" "hdr m4 ?b r True False n"
    subgoal using ha fr [of a] fr [of "a + 4"] d lts n by (subst ldn_hdr [of _ _ ?m]) auto
    subgoal unfolding ms hdr_def using d lts n by (simp add: load_frame)
    done
  have z4: "heap_tiles m4 ?z r ys"
  proof -
    have "heap_tiles m3 ?z s ys"
      by (rule heap_tiles_cong [OF hys]) (use d lts n oks in \<open>auto simp: m1_def m3_def load_frame\<close>)
    then show ?thesis unfolding m4_def
      using heap_tiles_set_prev [of m3 ?z s ys r] d oks lt by auto
  qed
  have c4: "chain m4 ?z ys (?z + span ys)"
  proof -
    have "chain ?m ?z ys (?z + span ys)" using m(2) a by (simp add: add.assoc)
    then have "chain m1 ?z ys (?z + span ys)"
      unfolding m1_def by (subst outside_frames(2)) (use d oks(2) lts n in auto)
    then have "chain m3 ?z ys (?z + span ys)"
      unfolding m3_def by (subst outside_frames(2)) (use d oks(2) lts n in auto)
    moreover have "?z + 4 \<notin> links ?z ys" using links_range [of "?z + 4" ?z ys] oks(2) by auto
    ultimately show ?thesis
      unfolding m4_def by (subst chain_frame) (use d oks(2) lts in auto)
  qed
  have prev: "find_prev_free m4 (of_nat a - of_nat (last_size 0 xs) - RB_HEADER_SIZE) = Some (of_nat (lf hbase xs 0))"
    unfolding a by (rule find_prev_free_lf [OF below(1) oks(1)]) (use lt a in auto)
  have ahe: "hbase + span xs \<le> hend" using ok by auto
  note ls = link_store [OF below oks(1) ahe, where c = ?b, folded m5_def, folded a]
  have h5: "hdr m5 a s True False (last_size 0 xs)" "hdr m5 ?b r True False n"
  proof -
    have eq: "ldn m5 x = ldn m4 x" if "x \<in> {a, a + 4, ?b, ?b + 4}" for x
      using that d lts n by (intro ls(3)) auto
    show "hdr m5 a s True False (last_size 0 xs)"
      by (rule iffD2 [OF ldn_hdr h4(1)]) (rule eq, simp)+
    show "hdr m5 ?b r True False n"
      by (rule iffD2 [OF ldn_hdr h4(2)]) (rule eq, simp)+
  qed
  have z5: "heap_tiles m5 ?z r ys" by (rule heap_tiles_cong [OF z4]) (use ls(3) d oks lts in auto)
  have c5: "chain m5 ?z ys (?z + span ys)" by (rule chain_cong [OF c4]) (use ls(3) d oks lts in auto)
  have next5: "find_next_free m5 (counter h) (of_nat ?b) = Some (of_nat (nf ?z ys (?z + span ys)))"
    using find_next_free_nf [of m5 ?b n r True ys] h5(2) z5 zr oks d cnt n r4 by simp
  have top5: "BLOCK_IS_TOP m5 (of_nat a) = False" using hdr_ops(4) [OF h5(1) oks(3)] .
  have e1: "bsize ?m (of_nat a) - of_nat n - RB_HEADER_SIZE + FREE_BLOCK = enc r True False"
    using hdr_ops(2) [OF ha oks(3)] n by (simp add: enc_def RB_HEADER_SIZE_def FREE_BLOCK_def)
  have ha1: "hdr m1 a s True False (last_size 0 xs)"
    unfolding m1_def using ha d lts n by (subst hdr_frame) auto
  have e2: "assign_new_top_block (of_nat a) (of_nat ?b) m1 = m1"
    using hdr_ops(4) [OF ha1 oks(3)] by (simp add: assign_new_top_block_def BLOCK_IS_TOP_def)
  have h3: "hdr m3 ?b r True False n"
    unfolding m3_def m1_def hdr_def using d lts n by (simp add: load_frame)
  note e3 = hdr_ops(2) [OF h3 r4]
  have "malloc_split (of_nat n) (of_nat a)
      (of_nat a - of_nat (last_size 0 xs) - RB_HEADER_SIZE) h = Some (h\<lparr>hmem := m6\<rparr>)"
    unfolding malloc_split_def
    by (simp only: Let_def step_addr e1 field_nat(4,5) m1_def [symmetric] e2 m3_def [symmetric] e3 zr
        m4_def [symmetric] prev Option.bind.bind_lunit m5_def [symmetric] top5 if_False next5)
      (simp add: m6_def field_nat del: of_nat_add)
  moreover have "surround m6 xs ?b ?b n ((r, True) # ys)"
  proof -
    have "tiles m6 hbase 0 xs"
      unfolding m6_def by (subst outside_frames(1)) (use ls(1) d(5) oks(1) a lts n in auto)
    moreover have "chain m6 hbase xs ?b"
      unfolding m6_def by (subst outside_frames(2)) (use ls(2) d(5) oks(1) a lts n in auto)
    moreover have "hdr m6 ?b r True False n"
      unfolding m6_def using h5(2) d lts n by (subst hdr_frame) auto
    moreover have "heap_tiles m6 ?z r ys"
      unfolding m6_def by (rule heap_tiles_cong [OF z5]) (use d oks(2) lts n in \<open>auto simp: load_frame\<close>)
    moreover have "chain m6 ?z ys (?z + span ys)"
      unfolding m6_def by (rule chain_cong [OF c5]) (use d oks(2) lts n in \<open>auto simp: load_frame\<close>)
    moreover have "ldn m6 (?b + 8) = of_nat (nf ?z ys (?z + span ys))" by (simp add: m6_def)
    moreover have "?b + span ((r, True) # ys) = ?z + span ys" using n(4) by simp
    ultimately show ?thesis by (simp only: surround_def heap_tiles.simps chain.simps zr simp_thms)
  qed
  moreover have "hdr m6 a s True False (last_size 0 xs)"
    unfolding m6_def using h5(1) d lts n by (subst hdr_frame) auto
  moreover have "changes_only malloc_bytes ?m m6"
  proof -
    have r: "{?b..<?b + 4} \<subseteq> malloc_bytes" "{?b + 4..<?b + 4 + 4} \<subseteq> malloc_bytes"
        "{?b + 8..<?b + 8 + 4} \<subseteq> malloc_bytes" "{?z + 4..<?z + 4 + 4} \<subseteq> malloc_bytes"
        "{8..<12} \<union> {hbase..<a} \<subseteq> malloc_bytes"
      using a lt n by (auto simp: malloc_bytes_def heap_bytes_def)
    have "changes_only malloc_bytes ?m m4" unfolding m4_def m3_def m1_def
      by (intro changes_stn changes_refl r) (use n lt in \<open>auto simp: hend_def\<close>)
    from changes_trans [OF this changes_mono [OF ls(4) r(5)]] show ?thesis
      unfolding m6_def by (rule changes_stn [OF _ r(3)]) (use n lt in \<open>auto simp: hend_def\<close>)
  qed
  ultimately show ?thesis by blast
qed

lemma malloc_split_top:
  fixes a n s r :: nat
  assumes m: "heap_tiles (hmem h) hbase 0 xs" "chain (hmem h) hbase xs a"
    and ok: "sizes_ok xs" "a + s = hend"
    and a: "a = hbase + span xs" and n: "4 dvd n" "4 \<le> n" "4 \<le> r" "s = n + 8 + r"
  shows "\<exists>m'. malloc_split (of_nat n) (of_nat a)
        (of_nat a - of_nat (last_size 0 xs) - RB_HEADER_SIZE) h = Some (h\<lparr>hmem := m'\<rparr>) \<and>
      surround m' xs (a + n + 8) (a + n + 8) n [] \<and>
      hdr m' a s True True (last_size 0 xs) \<and> changes_only malloc_bytes (hmem h) m' \<and>
      ldn m' (hend + 12) = of_nat r \<and> (lf hbase xs 0 = 0 \<longrightarrow> ldn m' 8 = of_nat (a + n + 8))"
proof -
  let ?m = "hmem h" and ?b = "a + n + 8" and ?z = "a + s + 8"
  have da: "4 dvd a" unfolding a using ok(1) span_dvd by (intro dvd_add) auto
  have s4: "4 dvd s"
  proof -
    have "4 dvd a + s" unfolding ok(2) by (simp add: hend_def)
    then show ?thesis using da by presburger
  qed
  have r4: "4 dvd r" using s4 n(1,4) by presburger
  have d: "4 dvd a + 4" "4 dvd ?b" "4 dvd ?b + 4" "4 dvd ?b + 8" "4 dvd ?z + 4"
    using da n(1) s4 by (auto intro!: dvd_add)
  have zr: "?b + r + 8 = ?z" and zl: "?z + 4 < 4294967296" using n(4) ok(2) by (auto simp: hend_def)
  have ha: "hdr ?m a s True True (last_size 0 xs)" and tl: "tiles ?m hbase 0 xs"
    using m(1) a ok(2) by (auto simp: heap_tiles_top) (metis diff_add_inverse)
  define m1 where "m1 = stn ?b (enc r True False) ?m"
  define m2 where "m2 = stn ?b (enc r True True) m1"
  define m3 where "m3 = stn (?b + 4) (of_nat n) m2"
  define m4 where "m4 = stn (?z + 4) (of_nat r) m3"
  define m5 where "m5 = set_next_free (of_nat (lf hbase xs 0)) (of_nat ?b) m4"
  define m6 where "m6 = stn (?b + 8) 0 m5"
  define m7 where "m7 = stn ?b (enc r True True) m6"
  have fr: "ldn (stn x v m') y = ldn m' y" if "x \<noteq> y" "x \<in> {?b, ?b + 4, ?b + 8, ?z + 4}"
      "y \<in> {a, a + 4, ?b, ?b + 4}" for x y v m'
    using that d da zl n(4) by (intro load_frame) auto
  have keep: "hdr (stn x v m') a s True True p = hdr m' a s True True p"
    if "x \<in> {?b, ?b + 4, ?b + 8, ?z + 4}" for x v m' p
    using that n(4) by (intro ldn_hdr fr) auto
  have tkeep: "tiles (stn x v m') hbase 0 xs = tiles m' hbase 0 xs"
      "chain (stn x v m') hbase xs c = chain m' hbase xs c"
    if "x \<in> {?b, ?b + 4, ?b + 8, ?z + 4}" for x v m' c
    using that d zl n(4) a ok by (auto simp: outside_frames)
  have below: "tiles m4 hbase 0 xs" "chain m4 hbase xs a"
    using tl m(2) by (simp_all add: m4_def m3_def m2_def m1_def tkeep)
  have h4: "hdr m4 a s True True (last_size 0 xs)"
    using ha by (simp add: m4_def m3_def m2_def m1_def keep)
  have h1: "hdr m1 a s True True (last_size 0 xs)" using ha by (simp add: m1_def keep)
  have b3: "hdr m3 ?b r True True n"
    unfolding hdr_def m3_def m2_def using fr [of "?b + 4" ?b] by simp
  have b4: "hdr m4 ?b r True True n"
    unfolding m4_def using b3 fr [of "?z + 4" ?b] fr [of "?z + 4" "?b + 4"] n(4) by (simp add: hdr_def)
  have prev: "find_prev_free m4 (of_nat a - of_nat (last_size 0 xs) - RB_HEADER_SIZE) = Some (of_nat (lf hbase xs 0))"
    unfolding a by (rule find_prev_free_lf [OF below(1) ok(1)]) (use ok a in auto)
  have ahe: "hbase + span xs \<le> hend" using ok a by auto
  note ls = link_store [OF below ok(1) ahe, where c = ?b, folded m5_def, folded a]
  have eq: "ldn m5 x = ldn m4 x" if "x \<in> {a, a + 4, ?b, ?b + 4}" for x
    using that d da zl n(4) by (intro ls(3)) auto
  have h5: "hdr m5 a s True True (last_size 0 xs)" by (rule iffD2 [OF ldn_hdr h4]) (rule eq, simp)+
  have b5: "hdr m5 ?b r True True n" by (rule iffD2 [OF ldn_hdr b4]) (rule eq, simp)+
  have b6: "hdr m6 ?b r True True n"
    unfolding m6_def using b5 fr [of "?b + 8" ?b] fr [of "?b + 8" "?b + 4"] by (simp add: hdr_def)
  have b7: "hdr m7 ?b r True True n"
    unfolding m7_def using b6 fr [of ?b "?b + 4"] by (simp add: hdr_def)
  have e1: "bsize ?m (of_nat a) - of_nat n - RB_HEADER_SIZE + FREE_BLOCK = enc r True False"
    using hdr_ops(2) [OF ha s4] n by (simp add: enc_def RB_HEADER_SIZE_def FREE_BLOCK_def)
  have c1: "ctrl m1 (of_nat ?b) = enc r True False" by (simp add: field_nat m1_def del: of_nat_add)
  have e2: "assign_new_top_block (of_nat a) (of_nat ?b) m1 = m2"
    using hdr_ops(4) [OF h1 s4] c1 enc_flags(1) [OF r4]
    by (simp add: assign_new_top_block_def BLOCK_IS_TOP_def field_nat(4) m2_def del: of_nat_add)
  have top5: "BLOCK_IS_TOP m5 (of_nat a) = True" using hdr_ops(4) [OF h5 s4] .
  have c6: "ctrl m6 (of_nat ?b) OR TOP_BLOCK = enc r True True"
    using hdr_ops(1) [OF b6 r4] enc_flags(1) [OF r4] by simp
  have "malloc_split (of_nat n) (of_nat a)
      (of_nat a - of_nat (last_size 0 xs) - RB_HEADER_SIZE) h = Some (h\<lparr>hmem := m7\<rparr>)"
    unfolding malloc_split_def
    by (simp only: Let_def step_addr e1 field_nat(4,5) m1_def [symmetric] e2 m3_def [symmetric]
        hdr_ops(2) [OF b3 r4] zr m4_def [symmetric] prev Option.bind.bind_lunit m5_def [symmetric]
        top5 if_True field_nat(6) [of ?b] m6_def [symmetric] c6 m7_def [symmetric])
  moreover have "surround m7 xs ?b ?b n []"
  proof -
    have "tiles m7 hbase 0 xs" "chain m7 hbase xs ?b"
      using ls(1,2) by (simp_all add: m7_def m6_def tkeep)
    moreover have "hend - ?b = r" using ok(2) n(4) by simp
    ultimately show ?thesis using b7 by (simp add: surround_def)
  qed
  moreover have "hdr m7 a s True True (last_size 0 xs)"
    using h5 by (simp add: m7_def m6_def keep)
  moreover have "changes_only malloc_bytes ?m m7"
  proof -
    have r: "{?b..<?b + 4} \<subseteq> malloc_bytes" "{?b + 4..<?b + 4 + 4} \<subseteq> malloc_bytes"
        "{?b + 8..<?b + 8 + 4} \<subseteq> malloc_bytes" "{?z + 4..<?z + 4 + 4} \<subseteq> malloc_bytes"
        "{8..<12} \<union> {hbase..<a} \<subseteq> malloc_bytes"
      using a ok(2) n by (auto simp: malloc_bytes_def heap_bytes_def)
    have "changes_only malloc_bytes ?m m4" unfolding m4_def m3_def m2_def m1_def
      by (intro changes_stn changes_refl r) (use n ok(2) in \<open>auto simp: hend_def\<close>)
    from changes_trans [OF this changes_mono [OF ls(4) r(5)]] show ?thesis
      unfolding m7_def m6_def by (intro changes_stn r) (use n ok(2) in \<open>auto simp: hend_def\<close>)
  qed
  moreover have "ldn m7 (hend + 12) = of_nat r"
  proof -
    have z: "?z + 4 = hend + 12" "4 dvd hend + 12" using ok(2) by (auto simp: hend_def)
    have "ldn m7 (hend + 12) = ldn m5 (hend + 12)"
      unfolding m7_def m6_def using d z n(3,4) ok(2) by (simp add: load_frame hend_def)
    also have "\<dots> = ldn m4 (hend + 12)" using z ok(2) by (intro ls(3)) (auto simp: hend_def)
    finally show ?thesis unfolding m4_def z(1) by simp
  qed
  moreover have "lf hbase xs 0 = 0 \<longrightarrow> ldn m7 8 = of_nat ?b"
  proof
    have "ldn (stn x v m') 8 = ldn m' 8" if "x \<in> {?b, ?b + 8}" for x v m'
      using that d a n(4) ok(2) by (intro load_frame) (auto simp: hend_def hbase_def)
    then have "ldn m7 8 = ldn m5 8" unfolding m7_def m6_def by simp
    moreover assume "lf hbase xs 0 = 0"
    ultimately show "ldn m7 8 = of_nat ?b" by (simp add: m5_def set_next_free_def ldn_def byte_mem.ld_st_same)
  qed
  ultimately show ?thesis by (intro exI conjI)
qed

subsection \<open>The block found becomes the block handed out\<close>

lemma sint_of_nat_u32:
  assumes "n < 2147483648"
  shows "sint (of_nat n :: u32) = int n"
proof -
  have "signed_take_bit 31 (int n) = int n"
    using assms by (intro signed_take_bit_int_eq_self) auto
  then show ?thesis by (simp add: signed_of_nat)
qed

lemma malloc_take_inner:
  fixes n s :: nat
  assumes rep: "heap_rep h (xs @ (s, True) # ys)" and n: "4 dvd n" "4 \<le> n" "n \<le> s"
    and cnt: "15 < sint (counter h)"
  shows "\<exists>h'. malloc_take (of_nat n) (of_nat (hbase + span xs)) h = Some (of_nat (hbase + span xs), h') \<and>
      heap_rep h' (xs @ take_block n (s, True) @ ys) \<and> counter h' = counter h + 1 \<and>
      changes_only malloc_bytes (hmem h) (hmem h')"
proof -
  define a where "a = hbase + span xs"
  let ?m = "hmem h" and ?ptr = "of_nat a - of_nat (last_size 0 xs) - RB_HEADER_SIZE :: u32"
  have m: "heap_tiles ?m hbase 0 (xs @ (s, True) # ys)"
      "chain ?m hbase (xs @ (s, True) # ys) (hbase + span (xs @ (s, True) # ys))"
    and ok: "sizes_ok (xs @ (s, True) # ys)" "hbase + span (xs @ (s, True) # ys) + 4 \<le> hend"
    and flags: "heap_initialized h = 2" "merge_flag h = 1" "top_block_flag h = 1" "no_free_space h = 1"
    using rep by (auto simp: heap_rep_def)
  have ha: "hdr ?m a s True False (last_size 0 xs)" and s4: "4 dvd s"
    using m(1) ok(1) by (auto simp: heap_tiles_append a_def)
  have lt: "s < 2147483648" "n < 4294967296" "s < 4294967296" using ok(2) n by (auto simp: hend_def)
  note ops = hdr_ops [OF ha s4]
  have mb: "{hbase..<hend} \<subseteq> malloc_bytes" by (auto simp: malloc_bytes_def heap_bytes_def)
  have rest: "bsize ?m (of_nat a) - of_nat n = of_nat (s - n)"
    using n by (simp add: ops)
  have sr: "sint (of_nat (s - n) :: u32) = int (s - n)"
    using lt by (intro sint_of_nat_u32) simp
  have cond: "(of_nat n < bsize ?m (of_nat a) \<and> 12 \<le> sint (of_nat (s - n) :: u32)) = (n + 12 \<le> s)"
    unfolding sr using n lt by (auto simp: ops of_nat_less_u32)
  have take: "malloc_take (of_nat n) (of_nat a) h =
      (if n + 12 \<le> s then malloc_split (of_nat n) (of_nat a) ?ptr h else Some h) \<bind>
        malloc_finish (of_nat n) (of_nat a) ?ptr (of_nat (s - n))"
    unfolding malloc_take_def Let_def by (simp only: cond ops(5) rest)
  show ?thesis
  proof (cases "n + 12 \<le> s")
    case True
    define r where "r = s - n - 8"
    have r: "s = n + 8 + r" "4 \<le> r" using True by (auto simp: r_def)
    obtain m' where split: "malloc_split (of_nat n) (of_nat a) ?ptr h = Some (h\<lparr>hmem := m'\<rparr>)"
        "surround m' xs (a + n + 8) (a + n + 8) n ((r, True) # ys)" "hdr m' a s True False (last_size 0 xs)"
        "changes_only malloc_bytes ?m m'"
      using malloc_split_inner [OF m ok a_def n(1,2) r(2,1) cnt] by blast
    have "\<exists>h'. malloc_finish (of_nat n) (of_nat a) ?ptr (of_nat (s - n)) (h\<lparr>hmem := m'\<rparr>) = Some (of_nat a, h') \<and>
        heap_rep h' (xs @ (n, False) # (r, True) # ys) \<and> counter h' = counter (h\<lparr>hmem := m'\<rparr>) + 1 \<and>
        changes_only {hbase..<hend} (hmem (h\<lparr>hmem := m'\<rparr>)) (hmem h')"
    proof (rule malloc_finish_rep [where c = "a + n + 8"])
      have "4 dvd r" using s4 n(1) r(1) by presburger
      then show "sizes_ok (xs @ (n, False) # (r, True) # ys)" using ok(1) n r by simp
      show "hbase + span (xs @ (n, False) # (r, True) # ys) + 4 \<le> hend" using ok(2) r by simp
      show "12 \<le> sint (of_nat (s - n) :: u32) \<and> n = n \<or>
          sint (of_nat (s - n) :: u32) < 12 \<and> (of_nat (s - n) :: u32) = of_nat (n - n)"
        unfolding sr using True by simp
    qed (use split flags n cnt hdr_ops(4) [OF split(3) s4] a_def in \<open>auto simp: hdr_def\<close>)
    then show ?thesis
      using True split(1) take changes_trans [OF split(4) changes_mono [OF _ mb]] by (auto simp: a_def r_def)
  next
    case False
    have "\<exists>h'. malloc_finish (of_nat n) (of_nat a) ?ptr (of_nat (s - n)) h = Some (of_nat a, h') \<and>
        heap_rep h' (xs @ (s, False) # ys) \<and> counter h' = counter h + 1 \<and>
        changes_only {hbase..<hend} (hmem h) (hmem h')"
      by (rule malloc_finish_rep [of _ _ a]) (use m ok flags n s4 cnt ops(4) ha a_def sr False
          in \<open>auto simp: hdr_def surround_def heap_tiles_append add.assoc\<close>)
    then show ?thesis using False take changes_mono [OF _ mb] by (auto simp: a_def)
  qed
qed

lemma malloc_take_top:
  fixes n :: nat
  assumes rep: "heap_rep h xs" and n: "4 dvd n" "4 \<le> n" "hbase + span xs + n + 12 \<le> hend"
    and cnt: "15 < sint (counter h) \<or> (\<forall>b \<in> set xs. \<not> snd b)"
  shows "\<exists>h'. malloc_take (of_nat n) (of_nat (hbase + span xs)) h = Some (of_nat (hbase + span xs), h') \<and>
      heap_rep h' (xs @ [(n, False)]) \<and> counter h' = counter h + 1 \<and>
      changes_only malloc_bytes (hmem h) (hmem h') \<and>
      ldn (hmem h') (hend + 12) = of_nat (hend - (hbase + span xs) - n - 8) \<and>
      (lf hbase xs 0 = 0 \<longrightarrow> ldn (hmem h') 8 = of_nat (hbase + span xs + n + 8))"
proof -
  define a where "a = hbase + span xs"
  define s where "s = hend - a"
  define r where "r = s - n - 8"
  let ?m = "hmem h" and ?ptr = "of_nat a - of_nat (last_size 0 xs) - RB_HEADER_SIZE :: u32"
  have m: "heap_tiles ?m hbase 0 xs" "chain ?m hbase xs a" and ok: "sizes_ok xs" "a + s = hend"
    and flags: "heap_initialized h = 2" "merge_flag h = 1" "top_block_flag h = 1" "no_free_space h = 1"
    using rep by (auto simp: heap_rep_def a_def s_def)
  have r: "s = n + 8 + r" "4 \<le> r" using n by (auto simp: r_def s_def a_def)
  have ha: "hdr ?m a s True True (last_size 0 xs)"
    using m(1) by (auto simp: heap_tiles_top a_def s_def)
  have s4: "4 dvd s" using span_dvd [OF ok(1)] by (auto simp: s_def a_def hend_def intro!: dvd_diff_nat dvd_add)
  have lt: "s < 2147483648" "n < 4294967296" "s < 4294967296" using r by (auto simp: s_def hend_def)
  note ops = hdr_ops [OF ha s4]
  have rest: "bsize ?m (of_nat a) - of_nat n = of_nat (s - n)" using r by (simp add: ops)
  have sr: "sint (of_nat (s - n) :: u32) = int (s - n)" using lt by (intro sint_of_nat_u32) simp
  have cond: "of_nat n < bsize ?m (of_nat a) \<and> 12 \<le> sint (of_nat (s - n) :: u32)"
    unfolding sr ops(2) of_nat_less_u32 [OF lt(2,3)] using r by simp
  obtain m' where split: "malloc_split (of_nat n) (of_nat a) ?ptr h = Some (h\<lparr>hmem := m'\<rparr>)"
      "surround m' xs (a + n + 8) (a + n + 8) n []" "hdr m' a s True True (last_size 0 xs)"
      "changes_only malloc_bytes ?m m'" "ldn m' (hend + 12) = of_nat r"
      "lf hbase xs 0 = 0 \<longrightarrow> ldn m' 8 = of_nat (a + n + 8)"
    using malloc_split_top [OF m ok a_def n(1,2) r(2,1)] by (elim exE conjE) (rule that; assumption)
  have "lf hbase xs 0 = 0 \<or> 15 < sint (counter h)" using cnt lf_reserved by auto
  have "malloc_take (of_nat n) (of_nat a) h =
      malloc_finish (of_nat n) (of_nat a) ?ptr (of_nat (s - n)) (h\<lparr>hmem := m'\<rparr>)"
    unfolding malloc_take_def Let_def
    by (simp only: ops(5) rest cond if_True split(1) Option.bind.bind_lunit simp_thms)
  moreover have "\<exists>h'. malloc_finish (of_nat n) (of_nat a) ?ptr (of_nat (s - n)) (h\<lparr>hmem := m'\<rparr>) = Some (of_nat a, h') \<and>
      heap_rep h' (xs @ [(n, False)]) \<and> counter h' = counter (h\<lparr>hmem := m'\<rparr>) + 1 \<and>
      changes_only {hbase..<hend} (hmem (h\<lparr>hmem := m'\<rparr>)) (hmem h')"
  proof (rule malloc_finish_rep [where c = "a + n + 8"])
    show "\<not> (BLOCK_IS_TOP (hmem (h\<lparr>hmem := m'\<rparr>)) (of_nat a) \<and>
        bsize (hmem (h\<lparr>hmem := m'\<rparr>)) (of_nat a) \<le> of_nat n)"
      using hdr_ops(2) [OF split(3) s4] r lt by (simp add: of_nat_le_u32 del: of_nat_add)
    show "12 \<le> sint (of_nat (s - n) :: u32) \<and> n = n \<or>
        sint (of_nat (s - n) :: u32) < 12 \<and> (of_nat (s - n) :: u32) = of_nat (n - n)"
      unfolding sr using r by simp
    show "15 < sint (counter (h\<lparr>hmem := m'\<rparr>)) \<or> lf hbase xs 0 = 0" using cnt lf_reserved by auto
  qed (use split ok n flags a_def r in \<open>auto simp: hdr_def\<close>)
  ultimately obtain h' where h': "malloc_take (of_nat n) (of_nat a) h = Some (of_nat a, h')"
      "heap_rep h' (xs @ [(n, False)])" "counter h' = counter h + 1" "changes_only {hbase..<hend} m' (hmem h')"
    by auto
  have "{hbase..<hend} \<subseteq> malloc_bytes" by (auto simp: malloc_bytes_def heap_bytes_def)
  from changes_trans [OF split(4) changes_mono [OF h'(4) this]]
  have "changes_only malloc_bytes ?m (hmem h')" .
  moreover have "ldn (hmem h') x = ldn m' x" if "x \<in> {8, hend + 12}" for x
    by (rule changes_ldn [OF h'(4)]) (use that in \<open>auto simp: hend_def hbase_def\<close>)
  ultimately show ?thesis using h' split(5,6) by (simp add: a_def r_def s_def)
qed

subsection \<open>malloc refines first fit on block lists\<close>

definition counter_ok :: "heap \<Rightarrow> block list \<Rightarrow> bool" where
  "counter_ok h bs \<longleftrightarrow> 15 < sint (counter h) \<or> (\<forall>b \<in> set bs. \<not> snd b)"

definition rounded :: "nat \<Rightarrow> nat" where
  "rounded k = 4 * ((k + 3) div 4)"

definition spec_malloc :: "nat \<Rightarrow> block list \<Rightarrow> (nat \<times> block list) option" where
  "spec_malloc n bs = (case first_fit n hbase bs of
     Some a \<Rightarrow> Some (a, alloc_in n bs)
   | None \<Rightarrow> if hbase + span bs + n + 12 \<le> hend then Some (hbase + span bs, alloc_in n bs) else None)"

lemma rounded_facts: "4 dvd rounded k" "k \<le> rounded k" "rounded k < k + 4" "0 < k \<Longrightarrow> 4 \<le> rounded k"
  by (auto simp: rounded_def)

lemma round_up_rounded:
  assumes "k \<le> 4294967292"
  shows "round_up (of_nat k) = of_nat (rounded k)"
proof -
  have u: "unat ((of_nat k :: u32) mod 4) = k mod 4"
    using assms by (simp add: unat_mod unat_of_nat_u32)
  have m: "(of_nat k :: u32) mod 4 = of_nat (k mod 4)"
    by (rule word_unat_eq_iff [THEN iffD2], subst unat_of_nat_u32)
      (use u in \<open>auto intro: le_less_trans [OF mod_le_divisor]\<close>)
  have z: "(of_nat k :: u32) mod 4 = 0 \<longleftrightarrow> k mod 4 = 0"
    unfolding m using of_nat_eq_iff_u32 [of "k mod 4" 0] by (simp add: le_less_trans [OF mod_le_divisor])
  show ?thesis
  proof (cases "k mod 4 = 0")
    case True
    then have "rounded k = k" unfolding rounded_def by presburger
    then show ?thesis using True z by (simp add: round_up_def)
  next
    case False
    then have "rounded k = k + 4 - k mod 4" unfolding rounded_def by presburger
    moreover have "(of_nat k :: u32) + 4 - of_nat (k mod 4) = of_nat (k + 4 - k mod 4)"
      by (subst of_nat_diff) (auto intro: order_trans [OF mod_le_divisor])
    ultimately show ?thesis using False z by (simp add: round_up_def m [symmetric])
  qed
qed

lemma alloc_in_split:
  "first_fit n a xs = None \<Longrightarrow> n \<le> s \<Longrightarrow> alloc_in n (xs @ (s, True) # ys) = xs @ take_block n (s, True) @ ys"
  by (induction n a xs rule: first_fit.induct) (auto split: if_splits)

lemma alloc_in_append: "first_fit n a xs = None \<Longrightarrow> alloc_in n xs = xs @ [(n, False)]"
  by (induction n a xs rule: first_fit.induct) (auto split: if_splits)

lemma malloc_search_rep:
  assumes "heap_rep h bs" "n < 4294967296"
  shows "malloc_search (hmem h) (of_nat n) (first_free_block h) =
    Some (case first_fit n hbase bs of Some x \<Rightarrow> Some (of_nat x)
      | None \<Rightarrow> if hbase + span bs + n \<le> hend then Some (of_nat (hbase + span bs)) else None)"
proof -
  have "n \<le> hend - (hbase + span bs) \<longleftrightarrow> hbase + span bs + n \<le> hend"
    using assms(1) by (auto simp: heap_rep_def)
  then show ?thesis
    using assms malloc_search_first_fit [of "hmem h" hbase 0 bs n] by (simp add: heap_rep_def)
qed

lemma malloc_rep:
  assumes rep: "heap_rep h bs" and cnt: "counter_ok h bs" and k: "0 < k" "k \<le> 4294967292"
    and spec: "spec_malloc (rounded k) bs = Some (a, bs')"
  shows "\<exists>h'. malloc (of_nat k) h = Some (of_nat a, h') \<and> heap_rep h' bs' \<and> counter h' = counter h + 1 \<and>
    changes_only malloc_bytes (hmem h) (hmem h') \<and>
    (first_fit (rounded k) hbase bs = None \<longrightarrow>
      ldn (hmem h') (hend + 12) = of_nat (hend - (a + rounded k + 8)) \<and>
      (lf hbase bs 0 = 0 \<longrightarrow> ldn (hmem h') 8 = of_nat (a + rounded k + 8)))"
proof -
  let ?n = "rounded k"
  have n: "4 dvd ?n" "4 \<le> ?n" "?n < 4294967296"
    using rounded_facts [of k] k by (auto simp: rounded_def)
  note search = malloc_search_rep [OF rep n(3)]
  have flags: "no_free_space h = 1" "heap_initialized h = 2" using rep by (auto simp: heap_rep_def)
  have code: "malloc (of_nat k) h = malloc_take (of_nat ?n) (of_nat a) h"
    using spec search flags
    by (auto simp: malloc_def Let_def round_up_rounded [OF k(2)] spec_malloc_def split: option.splits if_splits)
  show ?thesis
  proof (cases "first_fit ?n hbase bs")
    case None
    with spec have top: "hbase + span bs + ?n + 12 \<le> hend" "a = hbase + span bs" "bs' = bs @ [(?n, False)]"
      using alloc_in_append [OF None] by (auto simp: spec_malloc_def split: if_splits)
    have "hend - (hbase + span bs) - ?n - 8 = hend - (a + ?n + 8)" using top(2) by simp
    then show ?thesis using malloc_take_top [OF rep n(1,2) top(1)] cnt code top(2,3) by (auto simp: counter_ok_def)
  next
    case (Some x)
    then obtain xs s ys where bs: "bs = xs @ (s, True) # ys" "?n \<le> s" "x = hbase + span xs"
        "first_fit ?n hbase xs = None"
      using first_fit_Some by blast
    moreover have "15 < sint (counter h)" using cnt bs(1) by (auto simp: counter_ok_def)
    ultimately show ?thesis
      using malloc_take_inner [of h xs s ys ?n] rep n(1,2) code spec Some alloc_in_split [OF bs(4,2)]
      by (auto simp: spec_malloc_def)
  qed
qed

lemma malloc_null_rep:
  assumes rep: "heap_rep h bs" and k: "k \<le> 4294967292"
    and none: "first_fit (rounded k) hbase bs = None" "hend < hbase + span bs + rounded k"
  shows "malloc (of_nat k) h = Some (0, h)"
proof -
  have n: "rounded k < 4294967296" using k by (auto simp: rounded_def)
  have flags: "no_free_space h = 1" "heap_initialized h = 2" using rep by (auto simp: heap_rep_def)
  show ?thesis
    using malloc_search_rep [OF rep n] none flags
    by (simp add: malloc_def Let_def round_up_rounded [OF k])
qed

text \<open>The first call sets the heap up.\<close>

lemma malloc_first_rep:
  assumes k: "0 < k" "rounded k + 12 \<le> 0x100000"
  shows "\<exists>h'. malloc (of_nat k) (heap_boot m) = Some (HEAP_BASE, h') \<and>
    heap_rep h' [(rounded k, False)] \<and> counter h' = 1 \<and> changes_only malloc_bytes m (hmem h')"
proof -
  let ?n = "rounded k"
  have n: "4 dvd ?n" "4 \<le> ?n" "k \<le> 4294967292" using rounded_facts [of k] k by auto
  define t where "t = hbase + ?n + 8"
  have d: "4 dvd t" "4 dvd t + 4" "4 dvd t + 8" "4 dvd hbase + 4" "4 dvd hend - t"
    using n(1) by (auto simp: t_def hend_def hbase_def intro!: dvd_add dvd_diff_nat)
  have lt: "t + 4 \<le> hend" "hbase + 12 \<le> t" using k n by (auto simp: t_def hbase_def hend_def)
  have ts: "hend - t = 0x100000 - ?n - 8" by (simp add: t_def hbase_def hend_def)
  define m1 where "m1 = stn hbase (enc ?n False False) m"
  define m2 where "m2 = stn (hbase + 4) 0 m1"
  define m3 where "m3 = stn t (enc (hend - t) True True) m2"
  define m4 where "m4 = stn (t + 4) (of_nat ?n) m3"
  define m5 where "m5 = stn (t + 8) 0 m4"
  have w1: "(of_nat ?n :: u32) AND BLOCK_SIZE_BITS = enc ?n False False"
    using of_nat_and_size [OF n(1)] by (simp add: enc_def)
  have "(MB_HEXA - of_nat ?n - RB_HEADER_SIZE :: u32) = of_nat (hend - t)"
    unfolding ts using k by (simp add: heap_consts)
  then have w2: "((MB_HEXA - of_nat ?n - RB_HEADER_SIZE) AND BLOCK_SIZE_BITS) + FREE_BLOCK + TOP_BLOCK =
      enc (hend - t) True True"
    using of_nat_and_size [OF d(5)] by (simp add: enc_def FREE_BLOCK_def TOP_BLOCK_def)
  have top: "HEAP_BASE + of_nat ?n + RB_HEADER_SIZE = of_nat t"
    unfolding t_def heap_bounds_nat(1) by (simp add: RB_HEADER_SIZE_def)
  define h' where "h' = (heap_boot m)\<lparr>hmem := m5, first_free_block := of_nat t, heap_initialized := 2\<rparr>"
  have code: "malloc (of_nat k) (heap_boot m) = Some (HEAP_BASE, h')"
    by (simp add: malloc_def heap_boot_def Let_def round_up_rounded [OF n(3)] malloc_first_def w1 w2 top h'_def)
      (simp add: heap_bounds_nat(1) field_nat m5_def m4_def m3_def m2_def m1_def del: of_nat_add)
  have fr: "ldn (stn x v m') y = ldn m' y" if "x \<noteq> y" "x \<in> {hbase, hbase + 4, t, t + 4, t + 8}"
      "y \<in> {hbase, hbase + 4, t, t + 4}" for x y v m'
    using that d lt by (intro load_frame) (auto simp: hend_def)
  have b1: "hdr m5 hbase ?n False False 0"
    unfolding hdr_def m5_def m4_def m3_def m2_def using lt by (simp add: fr) (simp add: m1_def)
  have b2: "hdr m5 t (hend - t) True True ?n"
    unfolding hdr_def m5_def m4_def m3_def using lt by (simp add: fr)
  have "heap_rep h' [(?n, False)]"
    using b1 b2 n lt by (simp add: heap_rep_def h'_def heap_boot_def t_def add.assoc)
  moreover have "changes_only malloc_bytes m m5"
    unfolding m5_def m4_def m3_def m2_def m1_def
    by (intro changes_stn changes_refl) (use lt in \<open>auto simp: malloc_bytes_def heap_bytes_def hend_def\<close>)
  ultimately show ?thesis using code by (simp add: h'_def heap_boot_def)
qed

end
