(* ===== verification/Heap_Free.thy ===== *)
theory Heap_Free imports Heap_Malloc begin

text \<open>
  \<^verbatim>\<open>free\<close> of \<^verbatim>\<open>user/heap.c\<close> against its specification on block lists: the block becomes free,
  is merged with a free block (or the top block) above it and with a free block below it, and the
  free list is relinked. The proof has one lemma per function: merging above, merging below, and
  the relinking at the end.
\<close>

subsection \<open>The specification\<close>

fun merge_up :: "nat \<Rightarrow> block list \<Rightarrow> block list" where
  "merge_up s [] = []"
| "merge_up s ((t, f) # ys) = (if f then (s + 8 + t, True) # ys else (s, True) # (t, f) # ys)"

definition join_below :: "block list \<Rightarrow> block list \<Rightarrow> block list" where
  "join_below xs zs = (if xs \<noteq> [] \<and> snd (last xs) then
     (case zs of [] \<Rightarrow> butlast xs
      | (z, f) # zs' \<Rightarrow> butlast xs @ (fst (last xs) + 8 + z, True) # zs')
     else xs @ zs)"

fun split_at :: "nat \<Rightarrow> nat \<Rightarrow> block list \<Rightarrow> (block list \<times> nat \<times> block list) option" where
  "split_at a c [] = None"
| "split_at a c ((s, f) # bs) = (if a = c then (if f then None else Some ([], s, bs))
     else (case split_at a (c + s + 8) bs of None \<Rightarrow> None
       | Some (xs, t, ys) \<Rightarrow> Some ((s, f) # xs, t, ys)))"

definition spec_free :: "nat \<Rightarrow> block list \<Rightarrow> block list option" where
  "spec_free a bs = (case split_at a hbase bs of None \<Rightarrow> None
     | Some (xs, s, ys) \<Rightarrow> Some (join_below xs (merge_up s ys)))"

lemma split_at_Some:
  "split_at a c bs = Some (xs, s, ys) \<Longrightarrow> bs = xs @ (s, False) # ys \<and> a = c + span xs"
proof (induction a c bs arbitrary: xs rule: split_at.induct)
  case (2 a c t f bs)
  then show ?case by (auto split: if_splits option.splits)
qed simp

lemma split_at_append:
  "a = c + span xs \<Longrightarrow> split_at a c (xs @ (s, False) # ys) = Some (xs, s, ys)"
proof (induction xs arbitrary: c)
  case (Cons b xs)
  obtain t f where b: "b = (t, f)" by (cases b)
  have "split_at a (c + t + 8) (xs @ (s, False) # ys) = Some (xs, s, ys)"
    using Cons by (intro Cons.IH) (simp add: b)
  then show ?case using Cons.prems by (simp add: b)
qed simp

subsection \<open>A heap whose block at \<open>Q\<close> has just been freed\<close>

text \<open>
  \<open>below\<close>: the blocks under the one freed, linked to some block \<open>c\<close>. \<open>freed\<close>: the block at \<open>Q\<close> is
  the head of \<open>zs\<close> (or the top block, when \<open>zs\<close> is empty), and its own link is arbitrary.
\<close>

definition below :: "mem \<Rightarrow> block list \<Rightarrow> nat \<Rightarrow> bool" where
  "below m xs c \<longleftrightarrow> tiles m hbase 0 xs \<and> chain m hbase xs c"

fun freed :: "mem \<Rightarrow> block list \<Rightarrow> nat \<Rightarrow> block list \<Rightarrow> nat \<Rightarrow> bool" where
  "freed m xs Q [] c = (below m xs c \<and> hdr m Q (hend - Q) True True (last_size 0 xs))"
| "freed m xs Q ((w, f) # zs) c = (surround m xs c (Q + w + 8) w zs \<and> f \<and>
     hdr m Q w f False (last_size 0 xs))"

lemma below_store:
  assumes "below m xs c" "sizes_ok xs" "4 dvd x" "hbase + span xs \<le> x" "x < 4294967296"
  shows "below (stn x v m) xs c"
  using assms by (simp add: below_def outside_frames)

lemma surround_below: "surround m xs c z q zs \<Longrightarrow> below m xs c"
  by (simp add: surround_def below_def)

lemma surround_prev:
  assumes "surround m xs c z q zs" "sizes_ok xs" "sizes_ok zs" "4 dvd z" "z + span zs \<le> hend"
    and "hbase + span xs \<le> z"
  shows "surround (stn (z + 4) (of_nat q') m) xs c z q' zs"
proof -
  have d: "4 dvd z + 4" using assms(4) by (auto intro!: dvd_add)
  have "z + 4 \<notin> links z zs" using links_range [of "z + 4" z zs] assms(3) by auto
  then have "chain (stn (z + 4) (of_nat q') m) z zs (z + span zs)"
    using assms d by (subst chain_frame) (auto simp: surround_def hend_def)
  moreover have "heap_tiles (stn (z + 4) (of_nat q') m) z q' zs"
    using assms by (intro heap_tiles_set_prev [of m z q]) (auto simp: surround_def)
  ultimately show ?thesis
    using assms d by (simp add: surround_def outside_frames hend_def)
qed

text \<open>A store into the payload of the block at \<open>Q\<close> keeps everything.\<close>

lemma freed_store:
  assumes "freed m xs Q zs c" "Q + 8 \<le> x" "zs \<noteq> [] \<Longrightarrow> x < Q + fst (hd zs) + 8"
    and "4 dvd x" "x < 4294967296" "sizes_ok (xs @ zs)" "Q = hbase + span xs" "Q + span zs \<le> hend"
  shows "freed (stn x v m) xs Q zs c"
proof -
  have d: "4 dvd Q" using assms(6,7) span_dvd by (auto intro!: dvd_add)
  show ?thesis
  proof (cases zs)
    case Nil
    then show ?thesis using assms d by (auto simp: below_store hdr_frame hend_def)
  next
    case (Cons b zs')
    obtain w f where b: "b = (w, f)" by (cases b)
    have "4 dvd Q + w + 8" using assms(6) Cons b d by (auto intro!: dvd_add)
    then have "surround (stn x v m) xs c (Q + w + 8) w zs'"
      using assms Cons b by (intro surround_store) auto
    then show ?thesis using assms Cons b d by (auto simp: hdr_frame hend_def)
  qed
qed

text \<open>Every store of \<open>free\<close> is to a word of the heap, or to one right behind it.\<close>

lemma heap_store:
  "changes_only heap_bytes m m' \<Longrightarrow> hbase \<le> x \<Longrightarrow> x \<le> hend + 12 \<Longrightarrow> changes_only heap_bytes m (stn x v m')"
  by (rule changes_stn) (auto simp: heap_bytes_def hend_def)

subsection \<open>Merging with the block above\<close>

lemma find_prev_free_self:
  assumes "hdr m a s True t p" "4 dvd s" "hbase \<le> a" "a \<le> hend"
  shows "find_prev_free m (of_nat a) = Some (of_nat a)"
  using hdr_ops(3) [OF assms(1,2)] in_heap [OF assms(3,4)] by (simp add: find_prev_free.simps)

lemma enc_grow: "enc s f t + (of_nat w + RB_HEADER_SIZE) = enc (s + 8 + w) f t"
  by (simp add: enc_def RB_HEADER_SIZE_def)

lemma merge_top_inner:
  fixes a s t :: nat
  assumes m: "hdr (hmem h) a s True False p" "hdr (hmem h) (a + s + 8) t True False s"
    "surround (hmem h) xs c (a + s + 8 + t + 8) t ys"
    and ok: "sizes_ok xs" "sizes_ok ys" "4 dvd s" "4 dvd t" "4 \<le> t" and p: "p = last_size 0 xs"
    and a: "a = hbase + span xs" "a + s + 8 + t + 8 + span ys + 4 \<le> hend"
    and cnt: "15 < sint (counter h)"
  shows "\<exists>m'. check_merge_with_top (of_nat a) h = Some (h\<lparr>hmem := m'\<rparr>) \<and>
      freed m' xs a ((s + 8 + t, True) # ys) c \<and> changes_only heap_bytes (hmem h) m'"
proof -
  let ?m = "hmem h" and ?b = "a + s + 8" and ?w = "s + 8 + t"
  let ?z = "?b + t + 8"
  have d: "4 dvd a" "4 dvd a + 8" "4 dvd ?b" "4 dvd ?z" "4 dvd ?w" "4 dvd ?z + 4"
    using ok a(1) span_dvd by (auto intro!: dvd_add)
  have lt: "?z + 4 < 4294967296" "a \<le> hend" "?z + span ys \<le> hend" "hbase \<le> a" "hbase + span xs \<le> ?z"
    using a by (auto simp: hend_def)
  define X where "X = nf ?z ys (?z + span ys)"
  define m1 where "m1 = stn a (enc ?w True False) ?m"
  define m2 where "m2 = stn (a + 8) (of_nat X) m1"
  define m3 where "m3 = stn (?z + 4) (of_nat ?w) m2"
  define m4 where "m4 = stn (a + 8) (of_nat a) m3"
  note st = surround_store [OF _ ok(1,2) d(4) lt(3)]
  have sur1: "surround m1 xs c ?z t ys" unfolding m1_def by (rule st [OF m(3)]) (use d a in auto)
  have sur2: "surround m2 xs c ?z t ys" unfolding m2_def by (rule st [OF sur1]) (use d a in auto)
  have sur3: "surround m3 xs c ?z ?w ys" unfolding m3_def
    by (rule surround_prev [OF sur2 ok(1,2) d(4) lt(3,5)])
  have sur4: "surround m4 xs c ?z ?w ys" unfolding m4_def by (rule st [OF sur3]) (use d a in auto)
  have fr: "hdr (stn x v m') a w f t' p' = hdr m' a w f t' p'" if "x \<in> {a + 8, ?z + 4}" for x v m' w f t' p'
    using that d lt by (intro hdr_frame) auto
  have h1: "hdr m1 a ?w True False p"
    using m(1) d lt load_frame [of a "a + 4" "enc ?w True False" ?m] dvd_add [of 4 a 4]
    by (simp add: m1_def hdr_def)
  have h2: "hdr m2 a ?w True False p" and h3: "hdr m3 a ?w True False p"
    and h4: "hdr m4 a ?w True False p"
    using h1 by (simp_all add: m2_def m3_def m4_def fr)
  have b1: "hdr m1 ?b t True False s"
    unfolding m1_def using m(2) d lt by (subst hdr_frame) auto
  note o0 = hdr_ops [OF m(1) ok(3)] and ob = hdr_ops [OF m(2) ok(4)]
  have ht: "heap_tiles m1 ?b s ((t, True) # ys)" using b1 sur1 by (simp add: surround_def)
  have next1: "find_next_free m1 (counter h) (of_nat ?b) = Some (of_nat X)"
    unfolding X_def by (rule find_next_free_nf [OF ht _ d(3) cnt])
      (use ok m(3) ht in \<open>auto simp: surround_def heap_tiles_top\<close>)
  have prev3: "find_prev_free m3 (of_nat a) = Some (of_nat a)"
    by (rule find_prev_free_self [OF h3 d(5) lt(4,2)])
  have "check_merge_with_top (of_nat a) h = Some (h\<lparr>hmem := m4\<rparr>)"
    unfolding check_merge_with_top_def
    by (simp only: Let_def o0 ob step_addr if_False split_conv enc_grow field_nat(4,5,6)
        m1_def [symmetric] hdr_ops(4) [OF b1 ok(4)] next1 Option.bind.bind_lunit m2_def [symmetric]
        hdr_ops(2) [OF h2 d(5)] m3_def [symmetric] prev3 m4_def [symmetric]) simp
  moreover have "changes_only heap_bytes ?m m4" unfolding m4_def m3_def m2_def m1_def
    by (intro heap_store changes_refl) (use lt a in auto)
  moreover have "?z = a + ?w + 8" by simp
  ultimately show ?thesis using sur4 h4 p by (auto simp: add.assoc)
qed

lemma merge_top_end:
  fixes a s t :: nat
  assumes m: "hdr (hmem h) a s True False p" "hdr (hmem h) (a + s + 8) t True True s"
    "below (hmem h) xs c"
    and ok: "sizes_ok xs" "4 dvd s" "4 dvd t" and p: "p = last_size 0 xs"
    and a: "a = hbase + span xs" "a + s + 8 + t = hend"
  shows "\<exists>m'. check_merge_with_top (of_nat a) h = Some (h\<lparr>hmem := m', first_free_block := of_nat a\<rparr>) \<and>
      freed m' xs a [] c \<and> changes_only heap_bytes (hmem h) m'"
proof -
  let ?m = "hmem h" and ?b = "a + s + 8" and ?w = "s + 8 + t"
  let ?z = "?b + t + 8"
  have d: "4 dvd a" "4 dvd a + 4" "4 dvd a + 8" "4 dvd ?b" "4 dvd ?b + 4" "4 dvd ?z + 4" "4 dvd ?w"
    using ok a(1) span_dvd by (auto intro!: dvd_add)
  have lt: "?z + 4 < 4294967296" "a \<le> hend" "hbase \<le> a" using a by (auto simp: hend_def)
  define m0 where "m0 = stn a (enc s True True) ?m"
  define m1 where "m1 = stn a (enc ?w True True) m0"
  define m2 where "m2 = stn ?b (enc t True False) m1"
  define m3 where "m3 = stn (a + 8) 0 m2"
  define m4 where "m4 = stn (?z + 4) (of_nat ?w) m3"
  define m5 where "m5 = stn (a + 8) (of_nat a) m4"
  note st = below_store [OF _ ok(1)]
  have bel: "below m5 xs c"
    unfolding m5_def m4_def m3_def m2_def m1_def m0_def using m(3) d lt a by (intro st) (auto simp: hend_def)
  have fr: "ldn (stn x v m') y = ldn m' y" if "x \<in> {a, a + 8, ?b, ?z + 4}" "y \<in> {a, a + 4, ?b, ?b + 4}" "x \<noteq> y"
    for x y v m' using that d lt by (intro load_frame) auto
  have h0: "hdr m0 a s True True p" using m(1) by (simp add: m0_def hdr_def fr)
  have b0: "hdr m0 ?b t True True s" using m(2) by (simp add: m0_def hdr_def fr)
  have h1: "hdr m1 a ?w True True p" using h0 by (simp add: m1_def hdr_def fr)
  have b1: "hdr m1 ?b t True True s" using b0 by (simp add: m1_def hdr_def fr)
  have h2: "hdr m2 a ?w True True p" using h1 by (simp add: m2_def hdr_def fr)
  have h3: "hdr m3 a ?w True True p" using h2 by (simp add: m3_def hdr_def fr)
  have h4: "hdr m4 a ?w True True p" using h3 by (simp add: m4_def hdr_def fr)
  have h5: "hdr m5 a ?w True True p" using h4 by (simp add: m5_def hdr_def fr)
  have prev4: "find_prev_free m4 (of_nat a) = Some (of_nat a)"
    by (rule find_prev_free_self [OF h4 d(7) lt(3,2)])
  have "check_merge_with_top (of_nat a) h = Some (h\<lparr>hmem := m5, first_free_block := of_nat a\<rparr>)"
    unfolding check_merge_with_top_def
    by (simp only: Let_def hdr_ops [OF m(1) ok(2)] hdr_ops [OF m(2) ok(3)] step_addr if_True split_conv
        enc_plus_flags field_nat(4,5,6) m0_def [symmetric] hdr_ops [OF h0 ok(2)] hdr_ops [OF b0 ok(3)] enc_grow
        m1_def [symmetric] hdr_ops [OF b1 ok(3)] enc_flags(2) [OF ok(3)] m2_def [symmetric]
        m3_def [symmetric] Option.bind.bind_lunit hdr_ops(2) [OF h3 d(7)]
        m4_def [symmetric] prev4 m5_def [symmetric]) simp
  moreover have "changes_only heap_bytes ?m m5" unfolding m5_def m4_def m3_def m2_def m1_def m0_def
    by (intro heap_store changes_refl) (use lt a in auto)
  moreover have "hend - a = ?w" using a(2) by simp
  ultimately show ?thesis using h5 bel p by auto
qed

lemma check_merge_with_top_rep:
  assumes m: "heap_tiles (hmem h) hbase 0 (xs @ (s, True) # ys)"
    "chain (hmem h) hbase xs c" "chain (hmem h) (hbase + span xs + s + 8) ys (hbase + span xs + s + 8 + span ys)"
    and ok: "sizes_ok (xs @ (s, True) # ys)" "hbase + span (xs @ (s, True) # ys) + 4 \<le> hend"
    and a: "a = hbase + span xs" and cnt: "15 < sint (counter h)"
  shows "\<exists>m' f. check_merge_with_top (of_nat a) h = Some (h\<lparr>hmem := m', first_free_block := f\<rparr>) \<and>
      freed m' xs a (merge_up s ys) c \<and> changes_only heap_bytes (hmem h) m'"
proof -
  have ha: "hdr (hmem h) a s True False (last_size 0 xs)" and hb: "heap_tiles (hmem h) (a + s + 8) s ys"
    and bel: "below (hmem h) xs c"
    using m a by (auto simp: heap_tiles_append below_def)
  note o0 = hdr_ops [OF ha]
  show ?thesis
  proof (cases ys)
    case Nil
    define t where "t = hend - (a + s + 8)"
    have "4 dvd a + s + 8" using ok a span_dvd by (auto intro!: dvd_add)
    then have "4 dvd t" unfolding t_def hend_def by (rule dvd_diff_nat [rotated]) simp
    moreover have "a + s + 8 + t = hend" using ok a Nil by (simp add: t_def)
    moreover have "hdr (hmem h) (a + s + 8) t True True s" using hb Nil by (simp add: t_def)
    ultimately obtain m' where "check_merge_with_top (of_nat a) h =
        Some (h\<lparr>hmem := m', first_free_block := of_nat a\<rparr>)" "freed m' xs a [] c"
        "changes_only heap_bytes (hmem h) m'"
      using merge_top_end [OF ha _ bel _ _ _ refl a] ok by auto
    then show ?thesis using Nil by auto
  next
    case (Cons b ys')
    obtain t f where b: "b = (t, f)" by (cases b)
    have hb': "hdr (hmem h) (a + s + 8) t f False s" using hb Cons b by simp
    have sur: "surround (hmem h) xs c (a + s + 8 + t + 8) t ys'"
      using bel hb m(3) Cons b a by (simp add: surround_def below_def add.assoc)
    show ?thesis
    proof (cases f)
      case True
      then obtain m' where "check_merge_with_top (of_nat a) h = Some (h\<lparr>hmem := m'\<rparr>)"
          "freed m' xs a ((s + 8 + t, True) # ys') c" "changes_only heap_bytes (hmem h) m'"
        using merge_top_inner [OF ha _ sur _ _ _ _ _ refl a _ cnt] hb' ok Cons b a by auto
      then have "check_merge_with_top (of_nat a) h =
          Some (h\<lparr>hmem := m', first_free_block := first_free_block h\<rparr>) \<and> freed m' xs a (merge_up s ys) c \<and>
          changes_only heap_bytes (hmem h) m'"
        using Cons b True by simp
      then show ?thesis by blast
    next
      case False
      have "check_merge_with_top (of_nat a) h = Some h"
        unfolding check_merge_with_top_def
        using hdr_ops(3) [OF hb'] ok Cons b False by (simp add: Let_def o0 step_addr del: of_nat_add)
      moreover have "h = h\<lparr>hmem := hmem h, first_free_block := first_free_block h\<rparr>" by simp
      moreover have "freed (hmem h) xs a ((s, True) # (t, f) # ys') c"
        using ha hb m(3) bel Cons b a by (simp add: surround_def below_def add.assoc)
      moreover have "merge_up s ys = (s, True) # (t, f) # ys'" using Cons b False by simp
      ultimately show ?thesis by (metis changes_refl)
    qed
  qed
qed

subsection \<open>Merging with the block below\<close>

lemma merge_bottom_none:
  assumes "tiles (hmem h) hbase 0 xs" "sizes_ok xs" "hbase + span xs \<le> hend"
    and "\<not> (xs \<noteq> [] \<and> snd (last xs))" and a: "a = hbase + span xs"
    and "prev_size (hmem h) (of_nat a) = of_nat (last_size 0 xs)"
  shows "check_merge_with_bottom (of_nat a) h = h"
proof (cases xs rule: rev_cases)
  case Nil
  then show ?thesis using assms
    by (simp add: check_merge_with_bottom_def Let_def heap_consts hbase_def)
next
  case (snoc us b)
  then obtain w where b: "b = (w, False)" using assms(4) by (cases b) auto
  have q: "(of_nat a :: u32) - of_nat (last_size 0 xs) - RB_HEADER_SIZE = of_nat (hbase + span us)"
    by (simp add: a snoc b RB_HEADER_SIZE_def)
  have "hdr (hmem h) (hbase + span us) w False False (last_size 0 us)" "4 dvd w"
    using assms(1,2) snoc b by auto
  from hdr_ops(3) [OF this] show ?thesis
    using assms(6) by (simp add: check_merge_with_bottom_def Let_def q del: of_nat_add)
qed

lemma merge_bottom_inner:
  fixes a b q w :: nat
  assumes m: "freed (hmem h) (us @ [(b, True)]) a ((w, True) # zs) c"
    and ok: "sizes_ok us" "4 dvd b" "4 dvd w" "sizes_ok zs" "4 \<le> w"
    and q: "q = hbase + span us" "a = q + b + 8" and e: "a + w + 8 + span zs + 4 \<le> hend"
  shows "\<exists>m'. check_merge_with_bottom (of_nat a) h = h\<lparr>hmem := m', merge_flag := 2\<rparr> \<and>
      freed m' us q ((b + 8 + w, True) # zs) q \<and> BLOCK_IS_FREE m' (of_nat a) \<and>
      changes_only heap_bytes (hmem h) m'"
proof -
  let ?m = "hmem h" and ?z = "a + w + 8" and ?w = "b + 8 + w"
  have d: "4 dvd q" "4 dvd a" "4 dvd q + 4" "4 dvd a + 4" "4 dvd a + 8" "4 dvd ?z" "4 dvd ?z + 4" "4 dvd ?w"
    using ok q span_dvd by (auto intro!: dvd_add)
  have lt: "?z + 4 < 4294967296" "?z + span zs \<le> hend" "hbase + span us \<le> ?z" "hbase \<le> q" "q \<le> hend"
    using e q by (auto simp: hend_def)
  define m1 where "m1 = stn q (enc ?w True False) ?m"
  define m2 where "m2 = stn (a + 8) 0 m1"
  define m3 where "m3 = stn a (enc w True False) m2"
  define m4 where "m4 = stn (?z + 4) (of_nat ?w) m3"
  have sur0: "surround ?m us q ?z w zs" and hq: "hdr ?m q b True False (last_size 0 us)"
    and ha: "hdr ?m a w True False b"
    using m q by (simp_all add: surround_def add.assoc)
  note st = surround_store [OF _ ok(1,4) d(6) lt(2)]
  have sur1: "surround m1 us q ?z w zs" unfolding m1_def by (rule st [OF sur0]) (use d q in auto)
  have sur2: "surround m2 us q ?z w zs" unfolding m2_def by (rule st [OF sur1]) (use d q ok(5) in auto)
  have sur3: "surround m3 us q ?z w zs" unfolding m3_def by (rule st [OF sur2]) (use d q ok(5) in auto)
  have sur4: "surround m4 us q ?z ?w zs" unfolding m4_def
    by (rule surround_prev [OF sur3 ok(1,4) d(6) lt(2,3)])
  have fr: "ldn (stn x v m') y = ldn m' y" if "x \<in> {q, a, a + 8, ?z + 4}" "y \<in> {q, q + 4, a, a + 4}" "x \<noteq> y"
    for x y v m' using that d lt q by (intro load_frame) auto
  have ne: "a \<noteq> q" "a + 4 \<noteq> q" "a \<noteq> q + 4" "a + 8 \<noteq> q" "a + 8 \<noteq> q + 4" "?z + 4 \<noteq> q" "q \<noteq> a" "?z \<noteq> q"
      "?z + 4 \<noteq> q + 4"
    using q(2) by auto
  have a1: "hdr m1 a w True False b" using ha ne by (simp add: m1_def hdr_def fr)
  have a2: "hdr m2 a w True False b" using a1 ne by (simp add: m2_def hdr_def fr)
  have a3: "hdr m3 a w True False b" using a2 ne by (simp add: m3_def hdr_def fr)
  have q1: "hdr m1 q ?w True False (last_size 0 us)" using hq ne by (simp add: m1_def hdr_def fr)
  have q2: "hdr m2 q ?w True False (last_size 0 us)" using q1 ne by (simp add: m2_def hdr_def fr)
  have q3: "hdr m3 q ?w True False (last_size 0 us)" using q2 ne by (simp add: m3_def hdr_def fr)
  have q4: "hdr m4 q ?w True False (last_size 0 us)" using q3 ne by (simp add: m4_def hdr_def fr)
  have sub: "(of_nat a :: u32) - of_nat b - RB_HEADER_SIZE = of_nat q"
    by (simp add: q(2) RB_HEADER_SIZE_def)
  have cond: "(of_nat q < HEAP_BASE \<or> \<not> BLOCK_IS_FREE ?m (of_nat q)) = False"
    using in_heap(1) [OF lt(4,5)] hdr_ops(3) [OF hq ok(2)] by auto
  have "check_merge_with_bottom (of_nat a) h = h\<lparr>hmem := m4, merge_flag := 2\<rparr>"
    unfolding check_merge_with_bottom_def
    by (simp only: Let_def hdr_ops [OF ha ok(3)] sub cond if_False hdr_ops(1) [OF hq ok(2)] enc_grow
        field_nat(4,5,6) m1_def [symmetric] m2_def [symmetric] hdr_ops(1) [OF a2 ok(3)]
        enc_flags(3) [OF ok(3)] m3_def [symmetric] hdr_ops [OF a3 ok(3)] step_addr
        hdr_ops(2) [OF q3 d(8)] m4_def [symmetric])
  moreover have "changes_only heap_bytes ?m m4" unfolding m4_def m3_def m2_def m1_def
    by (intro heap_store changes_refl) (use lt q e in auto)
  moreover have "q + ?w + 8 = ?z" using q by simp
  moreover have "hdr m4 a w True False b" using a3 q(2) ok(5) by (simp add: m4_def hdr_def fr)
  from hdr_ops(3) [OF this ok(3)] have "BLOCK_IS_FREE m4 (of_nat a)" by simp
  ultimately show ?thesis using sur4 q4 by auto
qed

lemma merge_bottom_end:
  fixes a b q w :: nat
  assumes m: "freed (hmem h) (us @ [(b, True)]) a [] c"
    and ok: "sizes_ok us" "4 dvd b"
    and q: "q = hbase + span us" "a = q + b + 8" and e: "a + 4 \<le> hend"
  shows "\<exists>m'. check_merge_with_bottom (of_nat a) h = h\<lparr>hmem := m', merge_flag := 2\<rparr> \<and>
      freed m' us q [] q \<and> BLOCK_IS_FREE m' (of_nat a) \<and> changes_only heap_bytes (hmem h) m'"
proof -
  define w where "w = hend - a"
  let ?m = "hmem h" and ?w = "b + 8 + w"
  have d0: "4 dvd a" using ok q span_dvd by (auto intro!: dvd_add)
  then have wd: "4 dvd w" unfolding w_def hend_def by (rule dvd_diff_nat [rotated]) simp
  have d: "4 dvd q" "4 dvd q + 4" "4 dvd a + 4" "4 dvd a + 8" "4 dvd ?w"
    using d0 wd ok q span_dvd by (auto intro!: dvd_add)
  have lt: "a + 8 < 4294967296" "hbase \<le> q" "q \<le> hend" and aw: "a + w = hend"
    using e q by (auto simp: hend_def w_def)
  define m1 where "m1 = stn q (enc ?w True False) ?m"
  define m2 where "m2 = stn (a + 8) 0 m1"
  define m3 where "m3 = stn a (enc w True True) m2"
  define m4 where "m4 = stn a (enc w True False) m3"
  define m5 where "m5 = stn q (enc ?w True True) m4"
  have bel0: "below ?m us q" and hq: "hdr ?m q b True False (last_size 0 us)"
    and ha: "hdr ?m a w True True b"
    using m q by (simp_all add: below_def w_def)
  have bel: "below m5 us q"
    unfolding m5_def m4_def m3_def m2_def m1_def using bel0 d0 d lt q by (intro below_store ok) auto
  have fr: "ldn (stn x v m') y = ldn m' y" if "x \<in> {q, a, a + 8}" "y \<in> {q, q + 4, a, a + 4}" "x \<noteq> y"
    for x y v m' using that d0 d lt q by (intro load_frame) auto
  have ne: "a \<noteq> q" "a + 4 \<noteq> q" "a \<noteq> q + 4" "a + 8 \<noteq> q" "a + 8 \<noteq> q + 4" "q \<noteq> a" using q(2) by auto
  have a1: "hdr m1 a w True True b" using ha ne by (simp add: m1_def hdr_def fr)
  have a2: "hdr m2 a w True True b" using a1 ne by (simp add: m2_def hdr_def fr)
  have a3: "hdr m3 a w True True b" using a2 ne by (simp add: m3_def hdr_def fr)
  have q1: "hdr m1 q ?w True False (last_size 0 us)" using hq ne by (simp add: m1_def hdr_def fr)
  have q2: "hdr m2 q ?w True False (last_size 0 us)" using q1 ne by (simp add: m2_def hdr_def fr)
  have q3: "hdr m3 q ?w True False (last_size 0 us)" using q2 ne by (simp add: m3_def hdr_def fr)
  have q4: "hdr m4 q ?w True False (last_size 0 us)" using q3 ne by (simp add: m4_def hdr_def fr)
  have q5: "hdr m5 q ?w True True (last_size 0 us)" using q4 ne by (simp add: m5_def hdr_def fr)
  have sub: "(of_nat a :: u32) - of_nat b - RB_HEADER_SIZE = of_nat q"
    by (simp add: q(2) RB_HEADER_SIZE_def)
  have cond: "(of_nat q < HEAP_BASE \<or> \<not> BLOCK_IS_FREE ?m (of_nat q)) = False"
    using in_heap(1) [OF lt(2,3)] hdr_ops(3) [OF hq ok(2)] by auto
  have "check_merge_with_bottom (of_nat a) h = h\<lparr>hmem := m5, merge_flag := 2\<rparr>"
    unfolding check_merge_with_bottom_def
    by (simp only: Let_def hdr_ops [OF ha wd] sub cond if_False if_True hdr_ops(1) [OF hq ok(2)] enc_grow
        field_nat(4,5,6) m1_def [symmetric] m2_def [symmetric] hdr_ops(1) [OF a2 wd]
        enc_flags [OF wd] m3_def [symmetric] hdr_ops [OF a3 wd] m4_def [symmetric]
        hdr_ops(1) [OF q4 d(5)] enc_flags [OF d(5)] m5_def [symmetric])
  moreover have "changes_only heap_bytes ?m m5" unfolding m5_def m4_def m3_def m2_def m1_def
    by (intro heap_store changes_refl) (use lt q e in auto)
  moreover have "hend - q = ?w" using q aw by simp
  moreover have "hdr m5 a w True False b" using a3 ne by (simp add: m5_def m4_def hdr_def fr)
  from hdr_ops(3) [OF this wd] have "BLOCK_IS_FREE m5 (of_nat a)" by simp
  ultimately show ?thesis using bel q5 by auto
qed

subsection \<open>free refines its specification\<close>

fun link_of :: "nat \<Rightarrow> block list \<Rightarrow> nat" where
  "link_of Q [] = 0"
| "link_of Q ((w, f) # zs) = nf (Q + w + 8) zs (Q + w + 8 + span zs)"

lemma freed_next:
  assumes "freed m xs Q zs c" "sizes_ok (xs @ zs)" "Q = hbase + span xs" "15 < sint cnt"
  shows "find_next_free m cnt (of_nat Q) = Some (of_nat (link_of Q zs))"
proof -
  have d: "4 dvd Q" using assms(2,3) span_dvd by (auto intro!: dvd_add)
  show ?thesis
  proof (cases zs)
    case Nil
    have "4 dvd hend - Q" using d unfolding hend_def by (rule dvd_diff_nat [rotated]) simp
    then show ?thesis using assms(1) Nil find_next_free_top [of m Q] by auto
  next
    case (Cons b zs')
    obtain w f where b: "b = (w, f)" by (cases b)
    have "heap_tiles m Q (last_size 0 xs) ((w, f) # zs')"
      using assms(1) Cons b by (cases f) (simp_all add: surround_def)
    from find_next_free_nf [OF this _ d assms(4)] show ?thesis
      using assms(2) Cons b by simp
  qed
qed

lemma freed_self:
  assumes "freed m xs Q zs c" "sizes_ok (xs @ zs)" "Q = hbase + span xs" "Q + span zs \<le> hend"
  shows "find_prev_free m (of_nat Q) = Some (of_nat Q)"
proof (cases zs)
  case Nil
  have "4 dvd Q" using assms(2,3) span_dvd by (auto intro!: dvd_add)
  then have "4 dvd hend - Q" unfolding hend_def by (rule dvd_diff_nat [rotated]) simp
  then show ?thesis using assms Nil find_prev_free_self [of m Q "hend - Q" True] by auto
next
  case (Cons b zs')
  then show ?thesis using assms find_prev_free_self [of m Q "fst b" False] by (cases b) auto
qed

lemma freed_rep:
  assumes "freed m xs Q zs c" "Q = hbase + span xs"
  shows "heap_tiles m hbase 0 (xs @ zs)" "chain m hbase xs c" "tiles m hbase 0 xs"
    "(zs \<noteq> [] \<Longrightarrow> ldn m (Q + 8) = of_nat (link_of Q zs)) \<Longrightarrow> chain m Q zs (Q + span zs)"
proof -
  have "heap_tiles m hbase 0 (xs @ zs) \<and> chain m hbase xs c \<and> tiles m hbase 0 xs \<and>
      ((zs \<noteq> [] \<longrightarrow> ldn m (Q + 8) = of_nat (link_of Q zs)) \<longrightarrow> chain m Q zs (Q + span zs))"
  proof (cases zs)
    case Nil
    then show ?thesis using assms by (simp add: below_def heap_tiles_top)
  next
    case (Cons b zs')
    obtain w f where b: "b = (w, f)" by (cases b)
    have "span zs = w + 8 + span zs'" using Cons b by simp
    then have e: "Q + span zs = Q + w + 8 + span zs'" by simp
    have "f" using assms(1) Cons b by simp
    then show ?thesis using assms(1) unfolding e
      by (simp add: Cons b surround_def heap_tiles_append assms(2) [symmetric] algebra_simps)
  qed
  then show "heap_tiles m hbase 0 (xs @ zs)" "chain m hbase xs c" "tiles m hbase 0 xs"
    "(zs \<noteq> [] \<Longrightarrow> ldn m (Q + 8) = of_nat (link_of Q zs)) \<Longrightarrow> chain m Q zs (Q + span zs)"
    by blast+
qed

lemma freed_head: "freed m xs Q zs c \<Longrightarrow> nf Q zs (Q + span zs) = Q"
  by (cases zs) auto

lemma update_first_end:
  assumes "heap_rep (h\<lparr>hmem := m, first_free_block := of_nat (nf hbase bs (hbase + span bs)),
      top_block_flag := 1, no_free_space := 1, merge_flag := 1\<rparr>) bs"
  shows "\<exists>h'. (do { h' \<leftarrow> update_first_free_block (h\<lparr>hmem := m\<rparr>);
       Some (h'\<lparr>top_block_flag := 1, no_free_space := 1, merge_flag := 1\<rparr>) }) = Some h' \<and>
     heap_rep h' bs \<and> counter h' = counter h \<and> hmem h' = m"
proof -
  have "heap_tiles m hbase 0 bs" "sizes_ok bs" using assms by (auto simp: heap_rep_def)
  then show ?thesis using assms update_first_rep [of "h\<lparr>hmem := m\<rparr>" bs] by simp
qed

lemma head_is_free:
  assumes "heap_tiles m hbase 0 (xs @ zs)" "sizes_ok (xs @ zs)" "zs \<noteq> [] \<Longrightarrow> snd (hd zs)"
  shows "BLOCK_IS_FREE m (of_nat (hbase + span xs))"
proof (cases zs)
  case Nil
  then show ?thesis using top_is_free(1) [of m hbase 0 xs] assms by simp
next
  case (Cons z zs')
  then obtain w where z: "z = (w, True)" using assms(3) by (cases z) auto
  have "hdr m (hbase + span xs) w True False (last_size 0 xs)" "4 dvd w"
    using assms(1,2) Cons z by (auto simp: heap_tiles_append)
  from hdr_ops(3) [OF this] show ?thesis by simp
qed

text \<open>The end of \<open>free\<close> for a block that was not merged with the one below.\<close>

definition free_end :: "u32 \<Rightarrow> u32 \<Rightarrow> u32 \<Rightarrow> heap \<Rightarrow> heap option" where
  "free_end p q pre h = do {
     nf \<leftarrow> find_next_free (hmem h) (counter h) q;
     let m = set_next_free p nf (hmem h);
     pf \<leftarrow> find_prev_free m pre;
     m \<leftarrow> (if pf \<noteq> 0 then do {
             nf2 \<leftarrow> find_next_free m (counter h) pf;
             Some (set_next_free pf nf2 m) }
           else Some m);
     h \<leftarrow> update_first_free_block (h\<lparr>hmem := m\<rparr>);
     Some (h\<lparr>top_block_flag := 1, no_free_space := 1, merge_flag := 1\<rparr>) }"

lemma free_end_unmerged:
  assumes f: "freed (hmem h) xs a zs c" and ok: "sizes_ok (xs @ zs)" "hbase + span (xs @ zs) + 4 \<le> hend"
    and a: "a = hbase + span xs" and cnt: "15 < sint (counter h)" and init: "heap_initialized h = 2"
  shows "\<exists>h'. free_end (of_nat a) (of_nat a) (of_nat a - of_nat (last_size 0 xs) - RB_HEADER_SIZE) h = Some h' \<and>
    heap_rep h' (xs @ zs) \<and> counter h' = counter h \<and> BLOCK_IS_FREE (hmem h') (of_nat a) \<and>
    changes_only heap_bytes (hmem h) (hmem h')"
proof -
  define m1 where "m1 = stn (a + 8) (of_nat (link_of a zs)) (hmem h)"
  have d: "4 dvd a + 8" using ok(1) a span_dvd by (auto intro!: dvd_add)
  have lt: "a + 8 < 4294967296" "a + span zs \<le> hend" using ok a by (auto simp: hend_def)
  have f1: "freed m1 xs a zs c" unfolding m1_def
    by (rule freed_store [OF f]) (use d lt ok a in \<open>auto simp: neq_Nil_conv\<close>)
  have t1: "heap_tiles m1 hbase 0 (xs @ zs)" "chain m1 hbase xs c" "tiles m1 hbase 0 xs"
    "chain m1 (hbase + span xs) zs (hbase + span (xs @ zs))"
    using freed_rep [OF f1 a] a by (auto simp: m1_def add.assoc)
  have prev: "find_prev_free m1 (of_nat a - of_nat (last_size 0 xs) - RB_HEADER_SIZE) = Some (of_nat (lf hbase xs 0))"
    unfolding a by (rule find_prev_free_lf [OF t1(3)]) (use ok in auto)
  have e: "hbase + span (xs @ zs) \<le> hend" and cnt': "15 < sint (counter h) \<or> lf hbase xs 0 = 0"
    using ok(2) cnt by auto
  note rel = relink_step [OF t1(1) ok(1) e cnt']
  define m2 where "m2 = relink m1 xs (nf (hbase + span xs) zs (hbase + span (xs @ zs)))"
  have "heap_rep (h\<lparr>hmem := m2, first_free_block := of_nat (nf hbase (xs @ zs) (hbase + span (xs @ zs))),
      top_block_flag := 1, no_free_space := 1, merge_flag := 1\<rparr>) (xs @ zs)"
    by (rule heap_repI [OF relink_tiles [OF t1(1) ok(1) e] t1(2,4) refl ok]) (use init in \<open>simp_all add: m2_def\<close>)
  from update_first_end [OF this] have "\<exists>h'. free_end (of_nat a) (of_nat a)
      (of_nat a - of_nat (last_size 0 xs) - RB_HEADER_SIZE) h = Some h' \<and>
      heap_rep h' (xs @ zs) \<and> counter h' = counter h \<and> hmem h' = m2"
    unfolding free_end_def
    by (simp only: freed_next [OF f ok(1) a cnt] Option.bind.bind_lunit Let_def field_nat(6) [of a] m1_def [symmetric]
        prev rel m2_def [symmetric])
  then obtain h' where h': "free_end (of_nat a) (of_nat a)
      (of_nat a - of_nat (last_size 0 xs) - RB_HEADER_SIZE) h = Some h'"
      "heap_rep h' (xs @ zs)" "counter h' = counter h" "hmem h' = m2" by blast
  have "changes_only heap_bytes (hmem h) m1" unfolding m1_def
    by (intro heap_store changes_refl) (use ok a in auto)
  then have ch: "changes_only heap_bytes (hmem h) (hmem h')" unfolding h'(4) m2_def
    by (rule changes_relink) (use ok in \<open>auto simp: heap_bytes_def\<close>)
  have hd: "zs \<noteq> [] \<Longrightarrow> snd (hd zs)" using f by (cases zs) auto
  have "BLOCK_IS_FREE (hmem h') (of_nat a)" unfolding a
    by (rule head_is_free [OF _ ok(1) hd]) (use h'(2) in \<open>simp_all add: heap_rep_def\<close>)
  with h' ch show ?thesis by blast
qed

lemma free_end_merged:
  assumes f: "freed (hmem h) us q zs q" and ok: "sizes_ok (us @ zs)" "hbase + span (us @ zs) + 4 \<le> hend"
    and q: "q = hbase + span us" and a: "4 dvd a" "q + 8 < a" "a + 8 < hend + 8" "zs \<noteq> [] \<Longrightarrow> a < q + fst (hd zs)"
    and cnt: "15 < sint (counter h)" and init: "heap_initialized h = 2"
    and free: "BLOCK_IS_FREE (hmem h) (of_nat a)"
  shows "\<exists>h'. free_end (of_nat a) (of_nat q) (of_nat q) h = Some h' \<and>
    heap_rep h' (us @ zs) \<and> counter h' = counter h \<and> BLOCK_IS_FREE (hmem h') (of_nat a) \<and>
    changes_only heap_bytes (hmem h) (hmem h')"
proof -
  define m1 where "m1 = stn (a + 8) (of_nat (link_of q zs)) (hmem h)"
  define m2 where "m2 = stn (q + 8) (of_nat (link_of q zs)) m1"
  have d: "4 dvd q + 8" "4 dvd a + 8" using ok(1) q a span_dvd by (auto intro!: dvd_add)
  have lt: "a + 8 < 4294967296" "q + 8 < 4294967296" "q + span zs \<le> hend" "hbase \<le> q" "q \<noteq> 0"
    using ok q a by (auto simp: hend_def)
  have f1: "freed m1 us q zs q" unfolding m1_def
    by (rule freed_store [OF f]) (use d lt ok q a in \<open>auto simp: neq_Nil_conv\<close>)
  have f2: "freed m2 us q zs q" unfolding m2_def
    by (rule freed_store [OF f1]) (use d lt ok q a in \<open>auto simp: neq_Nil_conv\<close>)
  have t2: "heap_tiles m2 hbase 0 (us @ zs)" "chain m2 hbase us q" "chain m2 q zs (q + span zs)"
    using freed_rep [OF f2 q] by (auto simp: m2_def)
  have nz: "(of_nat q :: u32) \<noteq> 0" using of_nat_eq_iff_u32 [of q 0] lt by simp
  have "chain m2 hbase (us @ zs) (hbase + span (us @ zs))"
    using t2(2,3) freed_head [OF f] q by (simp add: add.assoc)
  then have "heap_rep (h\<lparr>hmem := m2, first_free_block := of_nat (nf hbase (us @ zs) (hbase + span (us @ zs))),
      top_block_flag := 1, no_free_space := 1, merge_flag := 1\<rparr>) (us @ zs)"
    using t2(1) ok init by (simp add: heap_rep_def)
  moreover have "BLOCK_IS_FREE m2 (of_nat a)"
  proof -
    have "ldn m2 a = ldn (hmem h) a"
      unfolding m2_def m1_def using d a lt by (simp add: load_frame)
    then show ?thesis using free by (simp add: BLOCK_IS_FREE_def field_nat)
  qed
  moreover have "changes_only heap_bytes (hmem h) m2" unfolding m2_def m1_def
    by (intro heap_store changes_refl) (use lt q a in auto)
  ultimately show ?thesis
    using update_first_end [where h = h and m = m2 and bs = "us @ zs"] unfolding free_end_def
    by (simp only: freed_next [OF f ok(1) q cnt] freed_next [OF f1 ok(1) q cnt] Option.bind.bind_lunit Let_def
        field_nat(6) m1_def [symmetric] freed_self [OF f1 ok(1) q lt(3)] nz m2_def [symmetric] if_True not_False_eq_True) blast
qed

lemma merge_up_ok:
  assumes "sizes_ok ((s, f) # ys)"
  shows "sizes_ok (merge_up s ys)" "span (merge_up s ys) \<le> s + 8 + span ys"
    "merge_up s ys \<noteq> [] \<Longrightarrow> s \<le> fst (hd (merge_up s ys))"
  using assms by (cases ys; auto split: prod.splits intro!: dvd_add)+

text \<open>What the two merges and the relinking do, for each of the two cases below the block.\<close>

lemma free_merges:
  assumes f: "freed (hmem h) xs a zs c" and ok: "sizes_ok (xs @ zs)" "hbase + span (xs @ zs) + 4 \<le> hend"
    and a: "a = hbase + span xs" and cnt: "15 < sint (counter h)" and init: "heap_initialized h = 2"
    and flag: "merge_flag h = 1"
  defines "pre \<equiv> of_nat a - of_nat (last_size 0 xs) - RB_HEADER_SIZE"
  shows "\<exists>h'. (let h2 = check_merge_with_bottom (of_nat a) h
      in free_end (of_nat a) (if merge_flag h2 = 2 then pre else of_nat a) pre h2) = Some h' \<and>
    heap_rep h' (join_below xs zs) \<and> counter h' = counter h \<and> BLOCK_IS_FREE (hmem h') (of_nat a) \<and>
    changes_only heap_bytes (hmem h) (hmem h')"
proof (cases "xs \<noteq> [] \<and> snd (last xs)")
  case False
  have d: "4 dvd a" using ok a span_dvd by (auto intro!: dvd_add)
  have "prev_size (hmem h) (of_nat a) = of_nat (last_size 0 xs)"
    using f by (cases zs) (auto simp: hdr_def field_nat)
  then have "check_merge_with_bottom (of_nat a) h = h"
    using merge_bottom_none [OF freed_rep(3) [OF f a] _ _ False a] ok by auto
  then show ?thesis
    using free_end_unmerged [OF f ok a cnt init] flag False by (auto simp: join_below_def pre_def)
next
  case True
  then have "xs = butlast xs @ [(fst (last xs), True)]" by (metis append_butlast_last_id prod.collapse)
  then obtain us b where xs: "xs = us @ [(b, True)]" by blast
  define q where "q = hbase + span us"
  have aq: "a = q + b + 8" by (simp add: a q_def xs)
  have pre: "pre = of_nat q" by (simp add: pre_def xs aq RB_HEADER_SIZE_def)
  have d: "4 dvd a" using ok a span_dvd by (auto intro!: dvd_add)
  have fin: ?thesis if m: "check_merge_with_bottom (of_nat a) h = h\<lparr>hmem := m', merge_flag := 2\<rparr>"
      "freed m' us q zs' q" and ok': "sizes_ok (us @ zs')" "hbase + span (us @ zs') + 4 \<le> hend"
      and fr: "BLOCK_IS_FREE m' (of_nat a)" "changes_only heap_bytes (hmem h) m'" and z: "zs' \<noteq> [] \<Longrightarrow> a < q + fst (hd zs')" "us @ zs' = join_below xs zs" for m' zs'
  proof -
    have "\<exists>h'. free_end (of_nat a) (of_nat q) (of_nat q) (h\<lparr>hmem := m', merge_flag := 2\<rparr>) = Some h' \<and>
        heap_rep h' (us @ zs') \<and> counter h' = counter (h\<lparr>hmem := m', merge_flag := 2\<rparr>) \<and>
        BLOCK_IS_FREE (hmem h') (of_nat a) \<and> changes_only heap_bytes (hmem (h\<lparr>hmem := m', merge_flag := 2\<rparr>)) (hmem h')"
      by (rule free_end_merged [OF _ ok' q_def d]) (use m fr ok z(1) a aq xs cnt init in \<open>auto simp: algebra_simps\<close>)
    then show ?thesis using m z(2) changes_trans [OF fr(2)] by (auto simp: Let_def pre)
  qed
  show ?thesis
  proof (cases zs)
    case Nil
    obtain m' where "check_merge_with_bottom (of_nat a) h = h\<lparr>hmem := m', merge_flag := 2\<rparr>" "freed m' us q [] q"
        "BLOCK_IS_FREE m' (of_nat a)" "changes_only heap_bytes (hmem h) m'"
      using merge_bottom_end [of h us b a c q] f Nil xs ok aq q_def a by auto
    then show ?thesis using ok Nil xs by (intro fin [of m' "[]"]) (auto simp: join_below_def)
  next
    case (Cons z zs')
    obtain w g where z: "z = (w, g)" by (cases z)
    then have "g" using f Cons by auto
    then obtain m' where "check_merge_with_bottom (of_nat a) h = h\<lparr>hmem := m', merge_flag := 2\<rparr>"
        "freed m' us q ((b + 8 + w, True) # zs') q" "BLOCK_IS_FREE m' (of_nat a)"
        "changes_only heap_bytes (hmem h) m'"
      using merge_bottom_inner [of h us b a w zs' c q] f Cons z xs ok aq q_def a by auto
    then show ?thesis using ok Cons z xs aq
      by (intro fin [of m' "(b + 8 + w, True) # zs'"]) (auto simp: join_below_def intro!: dvd_add)
  qed
qed

lemma free_at_rep:
  assumes rep: "heap_rep h (xs @ (s, False) # ys)" and cnt: "15 < sint (counter h)"
    and a: "a = hbase + span xs"
  shows "\<exists>h'. free (of_nat a) h = Some h' \<and> heap_rep h' (join_below xs (merge_up s ys)) \<and>
    counter h' = counter h \<and> BLOCK_IS_FREE (hmem h') (of_nat a) \<and> changes_only heap_bytes (hmem h) (hmem h')"
proof -
  let ?m = "hmem h"
  have m: "heap_tiles ?m hbase 0 (xs @ (s, False) # ys)"
      "chain ?m hbase (xs @ (s, False) # ys) (hbase + span (xs @ (s, False) # ys))"
    and ok: "sizes_ok (xs @ (s, False) # ys)" "hbase + span (xs @ (s, False) # ys) + 4 \<le> hend"
    and flags: "heap_initialized h = 2" "merge_flag h = 1"
    using rep by (auto simp: heap_rep_def)
  have d: "4 dvd a" "4 dvd s" using ok a span_dvd by (auto intro!: dvd_add)
  have lt: "a + 4 < 4294967296" "a \<noteq> 0" using ok a by (auto simp: hend_def)
  have ha: "hdr ?m a s False False (last_size 0 xs)" using m a by (simp add: heap_tiles_append)
  define c where "c = nf a ((s, False) # ys) (hbase + span (xs @ (s, False) # ys))"
  define m1 where "m1 = stn a (enc s True False) ?m"
  have h1: "hdr m1 a s True False (last_size 0 xs)"
    using ha d lt load_frame [of a "a + 4" "enc s True False" ?m] dvd_add [of 4 a 4] by (simp add: m1_def hdr_def)
  have sur: "surround ?m xs c (a + s + 8) s ys"
    using m a by (simp add: surround_def heap_tiles_append c_def add.assoc)
  have "surround m1 xs c (a + s + 8) s ys" unfolding m1_def
    by (rule surround_store [OF sur]) (use ok d a in \<open>auto intro!: dvd_add\<close>)
  then have "heap_tiles (hmem (h\<lparr>hmem := m1\<rparr>)) hbase 0 (xs @ (s, True) # ys)"
      "chain (hmem (h\<lparr>hmem := m1\<rparr>)) hbase xs c"
      "chain (hmem (h\<lparr>hmem := m1\<rparr>)) (hbase + span xs + s + 8) ys (hbase + span xs + s + 8 + span ys)"
    using h1 a by (auto simp: surround_def heap_tiles_append)
  from check_merge_with_top_rep [OF this _ _ a] ok cnt obtain m2 g where
    top: "check_merge_with_top (of_nat a) (h\<lparr>hmem := m1\<rparr>) = Some (h\<lparr>hmem := m2, first_free_block := g\<rparr>)"
      "freed m2 xs a (merge_up s ys) c" "changes_only heap_bytes m1 m2"
    by auto
  have "changes_only heap_bytes ?m m1"
    unfolding m1_def by (intro heap_store changes_refl) (use ok a in auto)
  from changes_trans [OF this top(3)] have ch: "changes_only heap_bytes ?m m2" .
  note mo = merge_up_ok [of s False ys]
  define h2 where "h2 = h\<lparr>hmem := m2, first_free_block := g\<rparr>"
  have ok2: "sizes_ok (xs @ merge_up s ys)" "hbase + span (xs @ merge_up s ys) + 4 \<le> hend"
    using mo ok by auto
  have f2: "freed (hmem h2) xs a (merge_up s ys) c" using top(2) by (simp add: h2_def)
  from free_merges [OF f2 ok2 a] cnt flags obtain h' where
    fin: "(let h3 = check_merge_with_bottom (of_nat a) h2
      in free_end (of_nat a) (if merge_flag h3 = 2 then of_nat a - of_nat (last_size 0 xs) - RB_HEADER_SIZE
           else of_nat a) (of_nat a - of_nat (last_size 0 xs) - RB_HEADER_SIZE) h3) = Some h'"
      "heap_rep h' (join_below xs (merge_up s ys))" "counter h' = counter h"
      "BLOCK_IS_FREE (hmem h') (of_nat a)" "changes_only heap_bytes m2 (hmem h')"
    by (auto simp: h2_def)
  have nz: "(of_nat a :: u32) \<noteq> 0" using of_nat_eq_iff_u32 [of a 0] lt by simp
  have "free (of_nat a) h = Some h'"
    using fin(1) top(1) nz
    by (simp add: free_def Let_def hdr_ops [OF ha d(2)] enc_plus_flags field_nat(4) m1_def [symmetric]
        hdr_ops(4) [OF h1 d(2)] h2_def [symmetric] free_end_def del: of_nat_add)
  with fin changes_trans [OF ch fin(5)] show ?thesis by blast
qed

lemma free_rep:
  assumes "heap_rep h bs" "15 < sint (counter h)" "spec_free a bs = Some bs'"
  shows "\<exists>h'. free (of_nat a) h = Some h' \<and> heap_rep h' bs' \<and> counter h' = counter h \<and>
    BLOCK_IS_FREE (hmem h') (of_nat a) \<and> changes_only heap_bytes (hmem h) (hmem h')"
proof -
  obtain xs s ys where sp: "split_at a hbase bs = Some (xs, s, ys)" "bs' = join_below xs (merge_up s ys)"
    using assms(3) by (auto simp: spec_free_def split: option.splits)
  from split_at_Some [OF sp(1)] free_at_rep [of h xs s ys a] assms sp(2) show ?thesis by blast
qed

end
