(* ===== verification/Block_List.thy ===== *)
theory Block_List imports Heap_Free begin

text \<open>
  The block lists on their own: which blocks are handed out, that no two of them overlap, that
  merging keeps free blocks apart, and how long a list without neighbouring free blocks can be.
  The specifications of \<^verbatim>\<open>malloc\<close> and \<^verbatim>\<open>free\<close> are read as updates of the map of live blocks.
\<close>

subsection \<open>Live blocks\<close>

fun live_from :: "nat \<Rightarrow> block list \<Rightarrow> nat \<rightharpoonup> nat" where
  "live_from a [] = (\<lambda>_. None)"
| "live_from a ((s, f) # bs) = (if f then live_from (a + s + 8) bs else (live_from (a + s + 8) bs)(a \<mapsto> s))"

lemma live_from_range: "live_from a bs p = Some n \<Longrightarrow> a \<le> p \<and> p + n + 8 \<le> a + span bs"
  by (induction a bs rule: live_from.induct) (fastforce split: if_splits)+

lemma live_from_below: "p < a \<Longrightarrow> live_from a bs p = None"
  using live_from_range [of a bs p] by (cases "live_from a bs p") auto

lemma live_from_above: "a + span bs \<le> p \<Longrightarrow> live_from a bs p = None"
  using live_from_range [of a bs p] by (cases "live_from a bs p") auto

lemma live_from_append [simp]:
  "live_from a (xs @ ys) p = (if p < a + span xs then live_from a xs p else live_from (a + span xs) ys p)"
proof (induction a xs rule: live_from.induct)
  case (1 a)
  then show ?case by (simp add: live_from_below)
next
  case (2 a s f bs)
  have "a + span ((s, f) # bs) = a + s + 8 + span bs" by simp
  then show ?case using 2 by (cases f) (simp_all add: algebra_simps)
qed

lemma live_from_apart:
  "live_from a bs p = Some n \<Longrightarrow> live_from a bs q = Some m \<Longrightarrow> p < q \<Longrightarrow> p + n + 8 \<le> q"
proof (induction a bs rule: live_from.induct)
  case (2 a s f bs)
  then show ?case
    using live_from_range [of "a + s + 8" bs q] live_from_range [of "a + s + 8" bs p]
    by (auto split: if_splits)
qed simp

lemma live_from_finite: "finite (dom (live_from a bs))"
  by (rule finite_subset [of _ "{a..a + span bs}"]) (use live_from_range in fastforce, simp)


lemma live_from_split_at: "live_from c bs a = Some s \<Longrightarrow> \<exists>xs ys. split_at a c bs = Some (xs, s, ys)"
proof (induction c bs rule: live_from.induct)
  case (2 c t f bs)
  show ?case
  proof (cases "a = c")
    case True
    then show ?thesis using 2 live_from_below [of a "c + t + 8" bs] by (auto split: if_splits)
  next
    case False
    then obtain xs ys where "split_at a (c + t + 8) bs = Some (xs, s, ys)"
      using 2 by (auto split: if_splits)
    then show ?thesis using False by auto
  qed
qed simp

lemma live_alloc:
  assumes "spec_malloc n bs = Some (x, bs')" "sizes_ok bs" "4 dvd n"
  shows "live_from hbase bs x = None"
    "\<exists>n'. n \<le> n' \<and> n' \<le> n + 8 \<and> live_from hbase bs' = (live_from hbase bs)(x \<mapsto> n')"
proof -
  have "live_from hbase bs x = None \<and>
    (\<exists>n'. n \<le> n' \<and> n' \<le> n + 8 \<and> live_from hbase bs' = (live_from hbase bs)(x \<mapsto> n'))"
  proof (cases "first_fit n hbase bs")
    case None
    then have x: "x = hbase + span bs" "bs' = bs @ [(n, False)]"
      using assms(1) alloc_in_append [OF None] by (auto simp: spec_malloc_def split: if_splits)
    then have "live_from hbase bs' = (live_from hbase bs)(x \<mapsto> n)"
      by (intro ext) (auto simp: live_from_above)
    then show ?thesis using x live_from_above [of hbase bs x] by auto
  next
    case (Some y)
    then obtain xs s ys where bs: "bs = xs @ (s, True) # ys" "n \<le> s" "y = hbase + span xs"
        "first_fit n hbase xs = None"
      using first_fit_Some by blast
    then have x: "x = y" "bs' = xs @ take_block n (s, True) @ ys"
      using assms(1) Some alloc_in_split [OF bs(4,2)] by (auto simp: spec_malloc_def)
    define n' where "n' = (if n + 12 \<le> s then n else s)"
    have s4: "4 dvd s" using assms(2) bs(1) by simp
    have n': "n \<le> n'" "n' \<le> n + 8" using bs(2) s4 assms(3) by (auto simp: n'_def) presburger
    have none: "live_from hbase bs x = None" using bs x by (simp add: live_from_below)
    have "live_from hbase bs' p = ((live_from hbase bs)(x \<mapsto> n')) p" for p
      using bs x live_from_below [of p "x + s + 8" ys]
      by (auto simp: n'_def live_from_below algebra_simps)
    then show ?thesis using n' none by blast
  qed
  then show "live_from hbase bs x = None"
    "\<exists>n'. n \<le> n' \<and> n' \<le> n + 8 \<and> live_from hbase bs' = (live_from hbase bs)(x \<mapsto> n')" by blast+
qed

lemma live_merge_up: "live_from c (merge_up s ys) = live_from (c + s + 8) ys"
  by (cases ys) (auto simp: algebra_simps fun_eq_iff)

lemma merge_up_head: "merge_up s ys = [] \<or> snd (hd (merge_up s ys))"
  by (cases ys) (auto split: if_splits)

lemma live_join_below:
  assumes "zs = [] \<or> snd (hd zs)"
  shows "live_from c (join_below xs zs) p = live_from c (xs @ zs) p"
proof (cases "xs \<noteq> [] \<and> snd (last xs)")
  case True
  then have "xs = butlast xs @ [(fst (last xs), True)]" by (metis append_butlast_last_id prod.collapse)
  then obtain us b where xs: "xs = us @ [(b, True)]" by blast
  show ?thesis
  proof (cases zs)
    case Nil
    then show ?thesis by (simp add: join_below_def xs live_from_above)
  next
    case (Cons z zs')
    then obtain w where "z = (w, True)" using assms by (cases z) auto
    then show ?thesis using Cons
      by (auto simp: join_below_def xs algebra_simps live_from_below)
  qed
qed (auto simp: join_below_def)

lemma live_free:
  assumes "spec_free a bs = Some bs'"
  shows "live_from hbase bs' = (live_from hbase bs)(a := None)"
proof -
  obtain xs s ys where sp: "split_at a hbase bs = Some (xs, s, ys)" "bs' = join_below xs (merge_up s ys)"
    using assms by (auto simp: spec_free_def split: option.splits)
  note bs = split_at_Some [OF sp(1)]
  have "live_from hbase bs' p = ((live_from hbase bs)(a := None)) p" for p
    using bs live_from_below [of p "a + s + 8" ys] live_from_above [of hbase xs p] sp(2)
    by (auto simp: live_join_below merge_up_head live_merge_up)
  then show ?thesis by blast
qed

subsection \<open>No two neighbouring free blocks\<close>

text \<open>\<open>apart p bs\<close>: \<open>bs\<close> follows a free block iff \<open>p\<close>, no two free blocks meet, the last is live.\<close>

fun apart :: "bool \<Rightarrow> block list \<Rightarrow> bool" where
  "apart p [] = (\<not> p)"
| "apart p ((s, f) # bs) = (\<not> (p \<and> f) \<and> apart f bs)"

fun apart_open :: "bool \<Rightarrow> block list \<Rightarrow> bool" where
  "apart_open p [] = True"
| "apart_open p ((s, f) # bs) = (\<not> (p \<and> f) \<and> apart_open f bs)"

definition ends_free :: "bool \<Rightarrow> block list \<Rightarrow> bool" where
  "ends_free p xs = (if xs = [] then p else snd (last xs))"

lemma ends_free_simps [simp]: "ends_free p [] = p" "ends_free p ((s, f) # xs) = ends_free f xs"
  by (auto simp: ends_free_def)

lemma apart_append: "apart p (xs @ ys) \<longleftrightarrow> apart_open p xs \<and> apart (ends_free p xs) ys"
  by (induction p xs rule: apart_open.induct) auto

lemma apart_open_append: "apart_open p (xs @ ys) \<longleftrightarrow> apart_open p xs \<and> apart_open (ends_free p xs) ys"
  by (induction p xs rule: apart_open.induct) auto

lemma ends_free_append [simp]: "ends_free p (xs @ ys) = ends_free (ends_free p xs) ys"
  by (auto simp: ends_free_def)

lemma apart_weaken: "apart True ys \<Longrightarrow> apart False ys"
  by (cases ys) auto

lemma apart_alloc:
  assumes "spec_malloc n bs = Some (x, bs')" "apart False bs"
  shows "apart False bs'"
proof (cases "first_fit n hbase bs")
  case None
  then have "bs' = bs @ [(n, False)]"
    using assms(1) alloc_in_append [OF None] by (auto simp: spec_malloc_def split: if_splits)
  then show ?thesis using assms(2) apart_append [of False bs "[]"] by (simp add: apart_append)
next
  case (Some y)
  then obtain xs s ys where bs: "bs = xs @ (s, True) # ys" "n \<le> s" "first_fit n hbase xs = None"
    using first_fit_Some by blast
  then have "bs' = xs @ take_block n (s, True) @ ys"
    using assms(1) Some alloc_in_split [OF bs(3,2)] by (auto simp: spec_malloc_def)
  then show ?thesis using assms(2) bs(1) by (auto simp: apart_append intro: apart_weaken)
qed

lemma apart_free:
  assumes "spec_free a bs = Some bs'" "apart False bs"
  shows "apart False bs'"
proof -
  obtain xs s ys where sp: "split_at a hbase bs = Some (xs, s, ys)" "bs' = join_below xs (merge_up s ys)"
    using assms(1) by (auto simp: spec_free_def split: option.splits)
  have bs: "bs = xs @ (s, False) # ys" using split_at_Some [OF sp(1)] by simp
  have a: "apart_open False xs" "apart False ys" using assms(2) bs by (auto simp: apart_append)
  show ?thesis
  proof (cases "xs \<noteq> [] \<and> snd (last xs)")
    case True
    then have "xs = butlast xs @ [(fst (last xs), True)]" by (metis append_butlast_last_id prod.collapse)
    then obtain us b where xs: "xs = us @ [(b, True)]" by blast
    then show ?thesis using a apart_append [of False us "[]"]
      by (cases ys) (auto simp: sp(2) join_below_def apart_append apart_open_append)
  next
    case False
    then have "\<not> ends_free False xs" by (auto simp: ends_free_def)
    then show ?thesis using a False apart_append [of False xs "[]"]
      by (cases ys) (auto simp: sp(2) join_below_def apart_append)
  qed
qed

subsection \<open>How long the list can be\<close>

definition live_count :: "block list \<Rightarrow> nat" where
  "live_count bs = length (filter (\<lambda>b. \<not> snd b) bs)"

lemma live_count_card: "live_count bs = card (dom (live_from a bs))"
proof (induction a bs rule: live_from.induct)
  case (2 a s f bs)
  have "a \<notin> dom (live_from (a + s + 8) bs)" by (auto simp: live_from_below)
  then have "card (insert a (dom (live_from (a + s + 8) bs))) = Suc (card (dom (live_from (a + s + 8) bs)))"
    by (rule card_insert_disjoint [OF live_from_finite])
  then show ?case using 2 by (cases f) (simp_all add: live_count_def del: fun_upd_apply)
qed (simp add: live_count_def)

lemma live_from_sizes: "(s, False) \<in> set bs \<Longrightarrow> s \<in> ran (live_from a bs)"
proof (induction a bs rule: live_from.induct)
  case (2 a t f bs)
  show ?case
  proof (cases "(s, False) = (t, f)")
    case True
    then show ?thesis by (auto simp: ran_def)
  next
    case False
    then have "s \<in> ran (live_from (a + t + 8) bs)" using 2 by (auto split: if_splits)
    moreover have "a \<notin> dom (live_from (a + t + 8) bs)" by (auto simp: live_from_below)
    ultimately show ?thesis by (auto simp: ran_def)
  qed
qed simp

lemma apart_span:
  "apart p bs \<Longrightarrow> \<forall>(s, f) \<in> set bs. (f \<longrightarrow> s < n) \<and> (\<not> f \<longrightarrow> s \<le> k) \<Longrightarrow>
     span bs + (if p then n + 8 else 0) \<le> live_count bs * (k + n + 16)"
  by (induction p bs rule: apart.induct) (fastforce simp: live_count_def split: if_splits)+

text \<open>
  With at most 63 live blocks of at most 4104 bytes, a request of at most 4096 bytes is served:
  the gaps are too small for it only if the whole list is shorter than the heap.
\<close>

lemma spec_malloc_total:
  assumes "apart False bs" "\<forall>(s, f) \<in> set bs. \<not> f \<longrightarrow> s \<le> 4104" "live_count bs < 64" "n \<le> 4096"
  shows "spec_malloc n bs \<noteq> None"
proof (cases "first_fit n hbase bs")
  case None
  then have "\<forall>(s, f) \<in> set bs. f \<longrightarrow> s < n" by (simp add: first_fit_None_iff)
  then have "span bs + 0 \<le> live_count bs * (4104 + n + 16)"
    using apart_span [of False bs n 4104] assms(1,2) by auto
  also have "\<dots> \<le> 63 * 8216" using assms(3,4) by (intro mult_mono) auto
  finally show ?thesis using None assms(4) by (simp add: spec_malloc_def hbase_def hend_def)
qed (simp add: spec_malloc_def)

subsection \<open>Freeing undoes allocating\<close>

lemma join_below_apart:
  assumes "apart_open False xs" "\<not> ends_free False xs"
  shows "join_below xs zs = xs @ zs"
  using assms(2) by (auto simp: join_below_def ends_free_def)

lemma spec_free_malloc:
  assumes "spec_malloc n bs = Some (a, bs')" "apart False bs"
  shows "spec_free a bs' = Some bs"
proof (cases "first_fit n hbase bs")
  case None
  then have a: "a = hbase + span bs" "bs' = bs @ [(n, False)]"
    using assms(1) alloc_in_append [OF None] by (auto simp: spec_malloc_def split: if_splits)
  have "\<not> ends_free False bs" "apart_open False bs"
    using assms(2) apart_append [of False bs "[]"] by auto
  then show ?thesis using split_at_append [OF a(1), of n "[]"] by (simp add: spec_free_def a(2) join_below_apart)
next
  case (Some y)
  then obtain xs s ys where bs: "bs = xs @ (s, True) # ys" "n \<le> s" "y = hbase + span xs"
      "first_fit n hbase xs = None"
    using first_fit_Some by blast
  then have a: "a = hbase + span xs" "bs' = xs @ take_block n (s, True) @ ys"
    using assms(1) Some alloc_in_split [OF bs(4,2)] by (auto simp: spec_malloc_def)
  have x: "apart_open False xs" "\<not> ends_free False xs" "apart True ys"
    using assms(2) bs(1) by (auto simp: apart_append)
  show ?thesis
  proof (cases "n + 12 \<le> s")
    case True
    then have "n + 8 + (s - n - 8) = s" by simp
    then show ?thesis using split_at_append [OF a(1), of n "(s - n - 8, True) # ys"] True
      by (simp add: spec_free_def a(2) join_below_apart [OF x(1,2)] bs(1))
  next
    case False
    obtain t zs where "ys = (t, False) # zs" using x(3) by (cases ys) auto
    then show ?thesis using split_at_append [OF a(1), of s ys] False
      by (simp add: spec_free_def a(2) join_below_apart [OF x(1,2)] bs(1))
  qed
qed

end
