(* ===== verification/Heap_Interface.thy ===== *)
theory Heap_Interface imports Block_List begin

text \<open>
  The allocator as its clients see it: a locale with the map of live blocks, an allocation that
  adds a fresh block, a release that removes one, the part of the memory (\<open>rest\<close>) that neither of
  them changes, and the client lemmas that need no more. The
  interpretation is on \<^verbatim>\<open>malloc\<close> and \<^verbatim>\<open>free\<close> of \<^verbatim>\<open>user/heap.c\<close>; the map of live blocks is read off
  the headers in memory by the walk that \<open>draw_heap\<close> makes.
\<close>

subsection \<open>The contract\<close>

text \<open>
  \<open>credit\<close> is the number of allocations left: \<^verbatim>\<open>heap.c\<close> counts them in a signed \<open>int\<close>, and its
  searches stop working when that counter wraps.
\<close>

locale allocator =
  fixes valid :: "'s \<Rightarrow> bool"
    and live :: "'s \<Rightarrow> u32 \<Rightarrow> nat option"
    and credit :: "'s \<Rightarrow> nat"
    and rest :: "'s \<Rightarrow> 'r"
    and alloc :: "u32 \<Rightarrow> 's \<Rightarrow> (u32 \<times> 's) option"
    and release :: "u32 \<Rightarrow> 's \<Rightarrow> 's option"
  assumes live_apart: "valid s \<Longrightarrow> live s p = Some n \<Longrightarrow> live s q = Some m \<Longrightarrow> p < q \<Longrightarrow>
      unat p + n + 8 \<le> unat q"
    and alloc_live: "valid s \<Longrightarrow> 0 < credit s \<Longrightarrow> 0 < k \<Longrightarrow> k \<le> 4096 \<Longrightarrow> card (dom (live s)) < 64 \<Longrightarrow>
      \<forall>n \<in> ran (live s). n \<le> 4104 \<Longrightarrow>
      \<exists>p s' n. alloc k s = Some (p, s') \<and> valid s' \<and> credit s = credit s' + 1 \<and> p \<noteq> 0 \<and>
        live s p = None \<and> unat k \<le> n \<and> n \<le> 4104 \<and> live s' = (live s)(p \<mapsto> n) \<and> rest s' = rest s"
    and release_live: "valid s \<Longrightarrow> live s p = Some n \<Longrightarrow>
      \<exists>s'. release p s = Some s' \<and> valid s' \<and> credit s' = credit s \<and> live s' = (live s)(p := None) \<and>
        rest s' = rest s \<and> release p s' = Some s'"
begin

text \<open>A client that keeps its blocks in an array of 64 pointers, and nothing else.\<close>

definition owns :: "'s \<Rightarrow> u32 list \<Rightarrow> bool" where
  "owns s ps \<longleftrightarrow> valid s \<and> length ps = 64 \<and> distinct ps \<and> 0 \<notin> set ps \<and> dom (live s) = set ps \<and>
     (\<forall>n \<in> ran (live s). n \<le> 4104)"

lemma owns_apart:
  assumes "owns s ps" "i < 64" "j < 64" "i \<noteq> j"
  obtains n m where "live s (ps ! i) = Some n" "live s (ps ! j) = Some m"
    "unat (ps ! i) + n + 8 \<le> unat (ps ! j) \<or> unat (ps ! j) + m + 8 \<le> unat (ps ! i)"
proof -
  have "ps ! i \<in> dom (live s)" "ps ! j \<in> dom (live s)" using assms by (auto simp: owns_def)
  then obtain n m where l: "live s (ps ! i) = Some n" "live s (ps ! j) = Some m" by auto
  have "ps ! i \<noteq> ps ! j" using assms by (simp add: owns_def nth_eq_iff_index_eq)
  then have "ps ! i < ps ! j \<or> ps ! j < ps ! i" by auto
  then show ?thesis using live_apart [of s] l assms(1) that by (auto simp: owns_def)
qed

text \<open>Release the block in one slot, maybe twice, and allocate another for it.\<close>

lemma swap_slot:
  assumes "owns s ps" "i < 64" "0 < credit s" "0 < k" "k \<le> 4096"
  shows "\<exists>s1 s2 p. release (ps ! i) s = Some s1 \<and> release (ps ! i) s1 = Some s1 \<and>
    alloc k s1 = Some (p, s2) \<and> owns s2 (ps[i := p]) \<and> credit s = credit s2 + 1 \<and> rest s2 = rest s"
proof -
  let ?p = "ps ! i"
  have o: "valid s" "length ps = 64" "distinct ps" "dom (live s) = set ps" "\<forall>n \<in> ran (live s). n \<le> 4104"
    "0 \<notin> set ps"
    using assms(1) by (auto simp: owns_def)
  have pin: "?p \<in> set ps" using o(2) assms(2) by simp
  then obtain n where "live s ?p = Some n" using o(4) by blast
  from release_live [OF o(1) this] obtain s1 where s1: "release ?p s = Some s1" "valid s1"
      "credit s1 = credit s" "live s1 = (live s)(?p := None)" "release ?p s1 = Some s1"
      "rest s1 = rest s"
    by blast
  have d1: "dom (live s1) = set ps - {?p}" using s1(4) o(4) by auto
  have "card (dom (live s1)) < 64"
    using d1 pin o(2,3) by (simp add: distinct_card)
  moreover have r1: "\<forall>n \<in> ran (live s1). n \<le> 4104" using o(5) s1(4) by (auto simp: ran_def)
  ultimately obtain q s2 m where s2: "alloc k s1 = Some (q, s2)" "valid s2" "credit s1 = credit s2 + 1"
      "q \<noteq> 0" "live s1 q = None" "m \<le> 4104" "live s2 = (live s1)(q \<mapsto> m)" "rest s2 = rest s1"
    using alloc_live [OF s1(2) _ assms(4,5)] assms(3) s1(3) by auto
  have "q \<notin> set ps - {?p}" using s2(5) d1 by auto
  moreover have "set (ps[i := q]) = insert q (set ps - {?p})"
    using o(2,3) assms(2) by (simp add: set_update_distinct)
  moreover from calculation have "distinct (ps[i := q])"
    using o(2,3) assms(2) by (intro distinct_list_update) auto
  moreover have "dom (live s2) = insert q (set ps - {?p})" using s2(7) d1 by auto
  moreover have "\<forall>n \<in> ran (live s2). n \<le> 4104"
    using s2(5,6,7) r1 by (auto simp: ran_def)
  ultimately have "owns s2 (ps[i := q])" using s2(2,4) o(2,6) by (auto simp: owns_def)
  then show ?thesis using s1 s2 by auto
qed

end

subsection \<open>The block list in memory\<close>

text \<open>
  The walk over the headers, from the heap's base to the top block. Every block takes at least
  eight bytes of the megabyte, so \<open>131072\<close> steps reach the top block of any heap.
\<close>

fun read_blocks :: "nat \<Rightarrow> mem \<Rightarrow> u32 \<Rightarrow> block list" where
  "read_blocks 0 m p = []"
| "read_blocks (Suc k) m p = (if BLOCK_IS_TOP m p then []
     else (unat (bsize m p), BLOCK_IS_FREE m p) # read_blocks k m (p + bsize m p + RB_HEADER_SIZE))"

definition heap_live :: "heap \<Rightarrow> u32 \<Rightarrow> nat option" where
  "heap_live h p = live_from hbase (read_blocks 131072 (hmem h) HEAP_BASE) (unat p)"

lemma read_blocks_tiles:
  assumes "heap_tiles m a p bs" "sizes_ok bs" "4 dvd a" "length bs < k" "a + span bs \<le> hend"
  shows "read_blocks k m (of_nat a) = bs"
  using assms
proof (induction bs arbitrary: a p k)
  case Nil
  then obtain k' where "k = Suc k'" by (cases k) auto
  then show ?case using top_is_free(2) [OF Nil(1,2,3)] by simp
next
  case (Cons b bs)
  obtain s f where b: "b = (s, f)" by (cases b)
  with Cons.prems have h: "hdr m a s f False p" "4 dvd s" and d: "4 dvd a + s + 8"
    by (auto intro!: dvd_add)
  obtain k' where k: "k = Suc k'" using Cons.prems(4) by (cases k) auto
  have "read_blocks k' m (of_nat (a + s + 8)) = bs"
    using Cons.prems b d k by (intro Cons.IH [of _ s]) auto
  moreover have "unat (of_nat s :: u32) = s" using Cons.prems b by (intro unat_of_nat_u32) (auto simp: hend_def)
  ultimately show ?case by (simp add: k b hdr_ops [OF h] step_addr del: of_nat_add)
qed

lemma length_span: "8 * length bs \<le> span bs"
  by (induction bs) auto

lemma heap_live_rep:
  assumes "heap_rep h bs"
  shows "heap_live h p = live_from hbase bs (unat p)"
proof -
  have "8 * length bs < 8 * 131072"
    using assms length_span [of bs] by (simp add: heap_rep_def hbase_def hend_def)
  then have "read_blocks 131072 (hmem h) (of_nat hbase) = bs"
    using assms by (intro read_blocks_tiles [of _ _ 0]) (auto simp: heap_rep_def)
  then show ?thesis unfolding heap_live_def heap_bounds_nat(1) by simp
qed

subsection \<open>malloc and free meet the contract\<close>

definition heap_valid :: "heap \<Rightarrow> bool" where
  "heap_valid h \<longleftrightarrow> (\<exists>bs. heap_rep h bs \<and> apart False bs) \<and> 15 < sint (counter h)"

definition heap_credit :: "heap \<Rightarrow> nat" where
  "heap_credit h = nat (2147483647 - sint (counter h))"

definition heap_rest :: "heap \<Rightarrow> mem" where
  "heap_rest h = (\<lambda>x. if unat x \<in> malloc_bytes then 0 else hmem h x)"

lemma heap_rest_eq: "heap_rest h' = heap_rest h \<longleftrightarrow> changes_only malloc_bytes (hmem h) (hmem h')"
  by (auto simp: heap_rest_def changes_only_def fun_eq_iff)

lemma sint_less_u32: "sint (c :: u32) \<le> 2147483647"
  using sint_lt [of c] by simp

lemma sint_Suc:
  assumes "0 \<le> sint (c :: u32)" "sint c < 2147483647"
  shows "sint (c + 1) = sint c + 1"
proof -
  define k where "k = nat (sint c)"
  have "c = of_int (sint c)" by simp
  then have c: "c = of_nat k" using assms(1) unfolding k_def by (metis of_nat_nat)
  have "sint (of_nat (k + 1) :: u32) = int (k + 1)"
    using assms by (intro sint_of_nat_u32) (auto simp: k_def)
  moreover have "of_nat (k + 1) = c + 1" by (simp add: c add.commute)
  moreover have "sint c = int k" using assms(1) by (simp add: k_def)
  ultimately show ?thesis by (simp add: add.commute)
qed

lemma unat_upd:
  assumes "x < 4294967296"
  shows "(\<lambda>p :: u32. (g(x := v)) (unat p)) = (\<lambda>p. g (unat p))(of_nat x := v)"
proof
  fix p :: u32
  have "unat p = x \<longleftrightarrow> p = of_nat x"
    using unat_of_nat_u32 [OF assms] by auto
  then show "(g(x := v)) (unat p) = ((\<lambda>p. g (unat p))(of_nat x := v)) p" by simp
qed

lemma rounded_mono: "k \<le> 4096 \<Longrightarrow> rounded k \<le> 4096"
  by (simp add: rounded_def)

lemma live_dom_unat:
  assumes "heap_rep h bs"
  shows "card (dom (heap_live h)) = live_count bs" "ran (heap_live h) = ran (live_from hbase bs)"
proof -
  let ?f = "live_from hbase bs"
  have lt: "p < 4294967296" if "?f p = Some n" for p n
    using live_from_range [OF that] assms by (auto simp: heap_rep_def hend_def)
  have e: "heap_live h = (\<lambda>p. ?f (unat p))" using heap_live_rep [OF assms] by auto
  have "unat ` dom (heap_live h) = dom ?f"
  proof (intro equalityI subsetI)
    fix x assume "x \<in> dom ?f"
    then have "x < 4294967296" using lt by auto
    then have "unat (of_nat x :: u32) = x" by (rule unat_of_nat_u32)
    with \<open>x \<in> dom ?f\<close> show "x \<in> unat ` dom (heap_live h)"
      unfolding e by (intro image_eqI [of _ _ "of_nat x"]) (auto simp: dom_def)
  qed (auto simp: e)
  moreover have "inj_on unat (dom (heap_live h))"
    by (rule inj_onI) (simp add: word_unat_eq_iff)
  ultimately show "card (dom (heap_live h)) = live_count bs"
    using card_image live_count_card [of bs hbase] by fastforce
  have "n \<in> ran (heap_live h)" if "?f p = Some n" for p n
    using that unat_of_nat_u32 [OF lt [OF that]] unfolding e ran_def by (auto intro!: exI [of _ "of_nat p"])
  then show "ran (heap_live h) = ran ?f" by (auto simp: e ran_def)
qed

lemma heap_alloc_live:
  assumes v: "heap_valid h" and c: "0 < heap_credit h" and k: "0 < k" "k \<le> 4096"
    and n: "card (dom (heap_live h)) < 64" "\<forall>n \<in> ran (heap_live h). n \<le> 4104"
  shows "\<exists>p h' n. malloc k h = Some (p, h') \<and> heap_valid h' \<and> heap_credit h = heap_credit h' + 1 \<and>
    p \<noteq> 0 \<and> heap_live h p = None \<and> unat k \<le> n \<and> n \<le> 4104 \<and> heap_live h' = (heap_live h)(p \<mapsto> n) \<and>
    heap_rest h' = heap_rest h"
proof -
  obtain bs where rep: "heap_rep h bs" and ap: "apart False bs" and cnt: "15 < sint (counter h)"
    using v by (auto simp: heap_valid_def)
  define m where "m = unat k"
  have m: "0 < m" "m \<le> 4096" "k = of_nat m"
    using k by (auto simp: m_def word_le_nat_alt unat_gt_0)
  let ?n = "rounded m"
  have "\<forall>(s, f) \<in> set bs. \<not> f \<longrightarrow> s \<le> 4104"
    using live_from_sizes [of _ bs hbase] n(2) live_dom_unat(2) [OF rep] by auto
  then obtain a bs' where sp: "spec_malloc ?n bs = Some (a, bs')"
    using spec_malloc_total [OF ap] n(1) live_dom_unat(1) [OF rep] rounded_mono [OF m(2)] by fastforce
  have ok: "sizes_ok bs" using rep by (simp add: heap_rep_def)
  obtain h' where h': "malloc k h = Some (of_nat a, h')" "heap_rep h' bs'" "counter h' = counter h + 1"
      "heap_rest h' = heap_rest h"
    using malloc_rep [OF rep _ _ _ sp] cnt m by (auto simp: counter_ok_def heap_rest_eq)
  obtain n' where live: "live_from hbase bs a = None" "?n \<le> n'" "n' \<le> ?n + 8"
      "live_from hbase bs' = (live_from hbase bs)(a \<mapsto> n')"
    using live_alloc [OF sp ok rounded_facts(1)] by blast
  have "live_from hbase bs' a = Some n'" by (simp add: live(4))
  from live_from_range [OF this] h'(2) have a: "hbase \<le> a" "a < 4294967296"
    by (auto simp: heap_rep_def hend_def)
  have cs: "sint (counter h') = sint (counter h) + 1"
    unfolding h'(3) using cnt c by (intro sint_Suc) (auto simp: heap_credit_def)
  have e: "heap_live h = (\<lambda>p. live_from hbase bs (unat p))" "heap_live h' = (\<lambda>p. live_from hbase bs' (unat p))"
    using heap_live_rep [OF rep] heap_live_rep [OF h'(2)] by auto
  have "(of_nat a :: u32) \<noteq> 0" using of_nat_eq_iff_u32 [of a 0] a by (auto simp: hbase_def)
  moreover have "heap_valid h'"
    using h'(2) apart_alloc [OF sp ap] cs cnt by (auto simp: heap_valid_def)
  moreover have "heap_credit h = heap_credit h' + 1" using cs c by (simp add: heap_credit_def)
  moreover have "heap_live h (of_nat a) = None" using live(1) a by (simp add: e unat_of_nat_u32)
  moreover have "heap_live h' = (heap_live h)(of_nat a \<mapsto> n')"
    unfolding e live(4) by (rule unat_upd [OF a(2)])
  moreover have "unat k \<le> n'" "n' \<le> 4104"
    using live(2,3) rounded_facts(2) [of m] rounded_mono [OF m(2)] by (auto simp: m_def)
  ultimately show ?thesis using h'(1,4) by blast
qed

lemma heap_release_live:
  assumes v: "heap_valid h" and l: "heap_live h p = Some n"
  shows "\<exists>h'. free p h = Some h' \<and> heap_valid h' \<and> heap_credit h' = heap_credit h \<and>
    heap_live h' = (heap_live h)(p := None) \<and> heap_rest h' = heap_rest h \<and> free p h' = Some h'"
proof -
  obtain bs where rep: "heap_rep h bs" and ap: "apart False bs" and cnt: "15 < sint (counter h)"
    using v by (auto simp: heap_valid_def)
  define a where "a = unat p"
  have a: "p = of_nat a" "a < 4294967296"
    using unsigned_less [of p] by (simp_all add: a_def)
  have la: "live_from hbase bs a = Some n" using l heap_live_rep [OF rep] by (simp add: a_def)
  then obtain bs' where sp: "spec_free a bs = Some bs'"
    using live_from_split_at by (fastforce simp: spec_free_def)
  obtain h' where h': "free p h = Some h'" "heap_rep h' bs'" "counter h' = counter h" "BLOCK_IS_FREE (hmem h') p"
      "changes_only heap_bytes (hmem h) (hmem h')"
    using free_rep [OF rep cnt sp] a(1) by auto
  have "heap_rest h' = heap_rest h"
    unfolding heap_rest_eq using h'(5) by (rule changes_mono) (simp add: malloc_bytes_def)
  moreover
  have "heap_live h' = (heap_live h)(p := None)"
  proof -
    have "heap_live h = (\<lambda>p. live_from hbase bs (unat p))" "heap_live h' = (\<lambda>p. live_from hbase bs' (unat p))"
      using heap_live_rep [OF rep] heap_live_rep [OF h'(2)] by auto
    then show ?thesis using unat_upd [OF a(2)] by (simp only: live_free [OF sp] a(1))
  qed
  moreover have "heap_valid h'" using h' apart_free [OF sp ap] cnt by (auto simp: heap_valid_def)
  moreover have "free p h' = Some h'" using h'(4) by (simp add: free_def)
  ultimately show ?thesis using h' by (auto simp: heap_credit_def)
qed

lemma heap_live_apart:
  assumes "heap_valid h" "heap_live h p = Some n" "heap_live h q = Some m" "p < q"
  shows "unat p + n + 8 \<le> unat q"
proof -
  obtain bs where rep: "heap_rep h bs" using assms(1) by (auto simp: heap_valid_def)
  then show ?thesis
    using assms live_from_apart [of hbase bs "unat p" n "unat q" m]
    by (simp add: heap_live_rep word_less_nat_alt)
qed

interpretation heap_alloc: allocator heap_valid heap_live heap_credit heap_rest malloc free
proof unfold_locales
  show "unat p + n + 8 \<le> unat q"
    if "heap_valid h" "heap_live h p = Some n" "heap_live h q = Some m" "p < q" for h p q n m
    using heap_live_apart [OF that] .
qed (use heap_alloc_live heap_release_live in blast)+

end
