(* ===== verification/User_Malloc.thy ===== *)
theory User_Malloc imports Heap_Interface begin

text \<open>
  The malloc process of \<^verbatim>\<open>user/user_thread.c\<close>: 64 blocks of 32 bytes, then an endless loop that
  frees one of them (sometimes twice) and asks for another of a size computed from its address.
  The loop is the client of the allocator's contract: every one of its turns returns, no call
  of \<open>malloc\<close> in it fails, and the 64 blocks never overlap.
\<close>

definition PTRS_ARRAY_LENGTH :: nat where "PTRS_ARRAY_LENGTH = 64"

definition reduce_to_4_bit :: "u32 \<Rightarrow> u32" where
  "reduce_to_4_bit ptr = fold (\<lambda>i res. res XOR (drop_bit (i * 4) ptr AND 0xf)) [0..<8] 0"

fun init_ptrs_from :: "nat list \<Rightarrow> u32 list \<Rightarrow> heap \<Rightarrow> (u32 list \<times> heap) option" where
  "init_ptrs_from [] ps h = Some (ps, h)"
| "init_ptrs_from (i # is) ps h = do {
     (p, h) \<leftarrow> malloc 0x20 h;
     init_ptrs_from is (ps[i := p]) h }"

definition init_ptrs_array :: "u32 list \<Rightarrow> heap \<Rightarrow> (u32 list \<times> heap) option" where
  "init_ptrs_array ps h = init_ptrs_from [0..<PTRS_ARRAY_LENGTH] ps h"

text \<open>The variables of \<open>malloc_loop\<close>, the global array and the heap; one turn of \<open>while(1)\<close>.\<close>

record malloc_vars =
  var_i :: u32
  var_X :: u32
  ptrs :: "u32 list"
  uheap :: heap

definition malloc_loop_turn :: "malloc_vars \<Rightarrow> malloc_vars option" where
  "malloc_loop_turn v = do {
     let slot = unat (var_i v mod 64);
     let ptr = ptrs v ! slot;
     h \<leftarrow> free ptr (uheap v);
     let X = reduce_to_4_bit ptr;
     (X, h) \<leftarrow> (if X = 0 then Some (0x1, h)
                else if X = 0xf then do { h \<leftarrow> free ptr h; Some (X, h) }
                else Some (X, h));
     (ptr2, h) \<leftarrow> malloc (X * 256 + X * 16 + X) h;
     Some \<lparr>var_i = var_i v + 1, var_X = X, ptrs = (ptrs v)[slot := ptr2], uheap = h\<rparr> }"

fun malloc_loop_turns :: "nat \<Rightarrow> malloc_vars \<Rightarrow> malloc_vars option" where
  "malloc_loop_turns 0 v = Some v"
| "malloc_loop_turns (Suc n) v = do { v \<leftarrow> malloc_loop_turn v; malloc_loop_turns n v }"

text \<open>\<open>malloc_loop\<close> after \<open>n\<close> turns, from a heap nobody has used yet.\<close>

definition malloc_loop :: "nat \<Rightarrow> mem \<Rightarrow> malloc_vars option" where
  "malloc_loop n m = do {
     (ps, h) \<leftarrow> init_ptrs_array (replicate PTRS_ARRAY_LENGTH 0) (heap_boot m);
     malloc_loop_turns n \<lparr>var_i = 0, var_X = 0, ptrs = ps, uheap = h\<rparr> }"

subsection \<open>The size computed from an address\<close>

lemma reduce_fold_less:
  "res < 16 \<Longrightarrow> fold (\<lambda>i res. res XOR (drop_bit (i * 4) ptr AND 0xf)) is res < (16 :: u32)"
proof (induction "is" arbitrary: res)
  case (Cons i "is")
  have m: "(x :: u32) < 16 \<longleftrightarrow> take_bit 4 x = x" for x
    by (simp add: word_less_nat_alt word_unat_eq_iff unsigned_take_bit_eq take_bit_nat_eq_self_iff)
  have f: "(x :: u32) AND 0xf = take_bit 4 x" for x by (simp add: take_bit_eq_mask mask_eq_exp_minus_1)
  have "take_bit 4 (res XOR (drop_bit (i * 4) ptr AND 0xf)) = res XOR (drop_bit (i * 4) ptr AND 0xf)"
    using Cons.prems by (simp only: f m take_bit_xor take_bit_take_bit) simp
  then show ?case using Cons.IH by (simp add: m)
qed simp

lemma reduce_to_4_bit_le: "reduce_to_4_bit ptr \<le> 15"
  using reduce_fold_less [of 0 ptr "[0..<8]"] by (simp add: reduce_to_4_bit_def word_le_nat_alt word_less_nat_alt)

lemma request_bounds:
  assumes "0 < X" "(X :: u32) \<le> 15"
  shows "0 < X * 256 + X * 16 + X" "X * 256 + X * 16 + X \<le> 4096" "unat (X * 256 + X * 16 + X) = 273 * unat X"
proof -
  have "unat X \<le> 15" "0 < unat X" using assms by (simp_all add: word_le_nat_alt unat_gt_0)
  then have u: "unat (X * 256 + X * 16 + X) = 273 * unat X" by (simp add: unat_word_ariths)
  then show "unat (X * 256 + X * 16 + X) = 273 * unat X" .
  show "0 < X * 256 + X * 16 + X" "X * 256 + X * 16 + X \<le> 4096"
    using u \<open>unat X \<le> 15\<close> \<open>0 < unat X\<close> by (simp_all add: word_less_nat_alt word_le_nat_alt)
qed

subsection \<open>The first 64 blocks\<close>

definition init_blocks :: "nat \<Rightarrow> block list" where
  "init_blocks j = replicate j (32, False)"

lemma span_init: "span (init_blocks j) = 40 * j"
  by (induction j) (auto simp: init_blocks_def)

lemma init_blocks_Suc: "init_blocks (Suc j) = init_blocks j @ [(32, False)]"
  by (simp add: init_blocks_def replicate_append_same)

lemma live_init: "live_from a (init_blocks j) p = (if \<exists>i < j. p = a + 40 * i then Some 32 else None)"
proof (induction j)
  case (Suc j)
  show ?case
  proof (cases "p < a + 40 * j")
    case True
    then show ?thesis using Suc by (auto simp: init_blocks_Suc span_init less_Suc_eq)
  next
    case False
    then show ?thesis by (auto simp: init_blocks_Suc span_init less_Suc_eq)
  qed
qed (simp add: init_blocks_def)

lemma init_blocks_facts: "apart False (init_blocks j)" "\<forall>b \<in> set (init_blocks j). \<not> snd b"
  by (induction j) (auto simp: init_blocks_def)

lemma init_malloc_step:
  assumes rep: "heap_rep h (init_blocks j)" and j: "j < 64"
  shows "\<exists>h'. malloc 0x20 h = Some (of_nat (hbase + 40 * j), h') \<and> heap_rep h' (init_blocks (Suc j)) \<and>
    counter h' = counter h + 1 \<and> heap_rest h' = heap_rest h"
proof -
  have none: "first_fit 32 hbase (init_blocks j) = None"
    using init_blocks_facts(2) [of j] by (fastforce simp: first_fit_None_iff)
  have r: "rounded 32 = 32" by (simp add: rounded_def)
  have "spec_malloc (rounded 32) (init_blocks j) = Some (hbase + 40 * j, init_blocks (Suc j))"
    unfolding r using none j
    by (simp add: spec_malloc_def alloc_in_append [OF none] init_blocks_Suc span_init hbase_def hend_def)
  from malloc_rep [OF rep _ _ _ this] init_blocks_facts(2) show ?thesis
    by (auto simp: counter_ok_def heap_rest_eq)
qed

lemma init_loop_rep:
  assumes "j \<le> 64" "heap_rep h (init_blocks j)" "counter h = of_nat j" "length ps = 64"
    "\<forall>i < j. ps ! i = of_nat (hbase + 40 * i)"
  shows "\<exists>ps' h'. init_ptrs_from [j..<64] ps h = Some (ps', h') \<and> heap_rep h' (init_blocks 64) \<and>
    counter h' = 64 \<and> length ps' = 64 \<and> (\<forall>i < 64. ps' ! i = of_nat (hbase + 40 * i)) \<and>
    heap_rest h' = heap_rest h"
  using assms
proof (induction "64 - j" arbitrary: j ps h)
  case 0
  then have "j = 64" by simp
  then show ?case using 0 by simp
next
  case (Suc k)
  then have j: "j < 64" "[j..<64] = j # [Suc j..<64]" by (auto simp: upt_conv_Cons)
  obtain h1 where h1: "malloc 0x20 h = Some (of_nat (hbase + 40 * j), h1)"
      "heap_rep h1 (init_blocks (Suc j))" "counter h1 = of_nat (Suc j)"
      "heap_rest h1 = heap_rest h"
    using init_malloc_step [OF Suc.prems(2) j(1)] Suc.prems(3) by (auto simp: add.commute)
  have "\<exists>ps' h'. init_ptrs_from [Suc j..<64] (ps[j := of_nat (hbase + 40 * j)]) h1 = Some (ps', h') \<and>
    heap_rep h' (init_blocks 64) \<and> counter h' = 64 \<and> length ps' = 64 \<and>
    (\<forall>i < 64. ps' ! i = of_nat (hbase + 40 * i)) \<and> heap_rest h' = heap_rest h1"
    using Suc h1 j by (intro Suc.hyps(1)) (auto simp: nth_list_update less_Suc_eq)
  then show ?case unfolding j(2) using h1(1,4) by simp
qed

lemma init_ptrs_array_rep:
  "\<exists>ps h. init_ptrs_array (replicate PTRS_ARRAY_LENGTH 0) (heap_boot m) = Some (ps, h) \<and>
     heap_rep h (init_blocks 64) \<and> counter h = 64 \<and> length ps = 64 \<and>
     (\<forall>i < 64. ps ! i = of_nat (hbase + 40 * i)) \<and> heap_rest h = heap_rest (heap_boot m)"
proof -
  have r: "rounded 32 = 32" by (simp add: rounded_def)
  obtain h1 where h1: "malloc 0x20 (heap_boot m) = Some (HEAP_BASE, h1)" "heap_rep h1 [(32, False)]" "counter h1 = 1"
      "heap_rest h1 = heap_rest (heap_boot m)"
    using malloc_first_rep [of 32 m] by (auto simp: r heap_rest_eq heap_boot_def)
  have "\<exists>ps h. init_ptrs_from [1..<64] ((replicate 64 0)[0 := HEAP_BASE]) h1 = Some (ps, h) \<and>
     heap_rep h (init_blocks 64) \<and> counter h = 64 \<and> length ps = 64 \<and>
     (\<forall>i < 64. ps ! i = of_nat (hbase + 40 * i)) \<and> heap_rest h = heap_rest h1"
    using h1 by (intro init_loop_rep) (auto simp: init_blocks_def heap_bounds_nat(1))
  moreover have "[0..<64] = 0 # [1..<64]" by (simp add: upt_conv_Cons)
  ultimately show ?thesis unfolding init_ptrs_array_def PTRS_ARRAY_LENGTH_def using h1(1,4) by simp
qed

lemma init_owns:
  assumes "heap_rep h (init_blocks 64)" "counter h = 64" "length ps = 64"
    "\<forall>i < 64. ps ! i = of_nat (hbase + 40 * i)"
  shows "heap_alloc.owns h ps" "heap_credit h = 2147483583"
proof -
  have lt: "hbase + 40 * i < 4294967296" if "i < 64" for i using that by (simp add: hbase_def)
  have live: "heap_live h p = (if \<exists>i < 64. unat p = hbase + 40 * i then Some 32 else None)" for p
    using heap_live_rep [OF assms(1)] by (simp add: live_init)
  have at: "unat p = hbase + 40 * i \<longleftrightarrow> p = ps ! i" if "i < 64" for p i
    using that assms(4) unat_of_nat_u32 [OF lt [OF that]] by (auto simp: word_unat_eq_iff)
  have dom: "dom (heap_live h) = set ps"
    using assms(3) by (auto simp: live at in_set_conv_nth split: if_splits)
  have ran: "\<forall>n \<in> ran (heap_live h). n \<le> 4104" by (auto simp: ran_def live split: if_splits)
  have nz: "0 \<notin> set ps"
  proof
    assume "0 \<in> set ps"
    then obtain i where "i < 64" "ps ! i = 0" using assms(3) by (auto simp: in_set_conv_nth)
    then show False using at [of i 0] by simp
  qed
  have "distinct ps"
  proof -
    have "ps ! i \<noteq> ps ! j" if "i < 64" "j < 64" "i \<noteq> j" for i j
      using at [OF that(1), of "ps ! i"] at [OF that(2), of "ps ! j"] that(3) by auto
    then show ?thesis using assms(3) by (simp add: distinct_conv_nth)
  qed
  moreover have "heap_valid h" using assms(1,2) init_blocks_facts by (auto simp: heap_valid_def)
  ultimately show "heap_alloc.owns h ps" using dom ran nz assms(3) by (simp add: heap_alloc.owns_def)
  show "heap_credit h = 2147483583" using assms(2) by (simp add: heap_credit_def)
qed

subsection \<open>Every turn of the loop\<close>

lemma malloc_loop_turn_owns:
  assumes "heap_alloc.owns (uheap v) (ptrs v)" "0 < heap_credit (uheap v)"
  shows "\<exists>v'. malloc_loop_turn v = Some v' \<and> heap_alloc.owns (uheap v') (ptrs v') \<and>
    heap_credit (uheap v) = heap_credit (uheap v') + 1 \<and> var_i v' = var_i v + 1 \<and>
    heap_rest (uheap v') = heap_rest (uheap v)"
proof -
  define slot where "slot = unat (var_i v mod 64)"
  have slot: "slot < 64" by (simp add: slot_def unat_mod)
  let ?ptr = "ptrs v ! slot"
  define X where "X = (if reduce_to_4_bit ?ptr = 0 then 1 else reduce_to_4_bit ?ptr)"
  have X: "0 < X" "X \<le> 15" using reduce_to_4_bit_le [of ?ptr] by (auto simp: X_def word_gt_0)
  obtain h1 h2 p where h: "free ?ptr (uheap v) = Some h1" "free ?ptr h1 = Some h1"
      "malloc (X * 256 + X * 16 + X) h1 = Some (p, h2)" "heap_alloc.owns h2 ((ptrs v)[slot := p])"
      "heap_credit (uheap v) = heap_credit h2 + 1" "heap_rest h2 = heap_rest (uheap v)"
    using heap_alloc.swap_slot [OF assms(1) slot assms(2) request_bounds(1,2) [OF X]] by blast
  have "malloc_loop_turn v = Some \<lparr>var_i = var_i v + 1, var_X = X, ptrs = (ptrs v)[slot := p], uheap = h2\<rparr>"
    unfolding malloc_loop_turn_def Let_def slot_def [symmetric] using h(1,2,3)
    by (auto simp: X_def)
  then show ?thesis using h(4,5,6) by simp
qed

lemma malloc_loop_turns_owns:
  assumes "heap_alloc.owns (uheap v) (ptrs v)" "n \<le> heap_credit (uheap v)"
  shows "\<exists>v'. malloc_loop_turns n v = Some v' \<and> heap_alloc.owns (uheap v') (ptrs v') \<and>
    var_i v' = var_i v + of_nat n \<and> heap_rest (uheap v') = heap_rest (uheap v)"
  using assms
proof (induction n arbitrary: v)
  case (Suc n)
  obtain v1 where v1: "malloc_loop_turn v = Some v1" "heap_alloc.owns (uheap v1) (ptrs v1)"
      "heap_credit (uheap v) = heap_credit (uheap v1) + 1" "var_i v1 = var_i v + 1"
      "heap_rest (uheap v1) = heap_rest (uheap v)"
    using malloc_loop_turn_owns [OF Suc.prems(1)] Suc.prems(2) by auto
  then obtain v' where "malloc_loop_turns n v1 = Some v'" "heap_alloc.owns (uheap v') (ptrs v')"
      "var_i v' = var_i v1 + of_nat n" "heap_rest (uheap v') = heap_rest (uheap v1)"
    using Suc.IH [of v1] Suc.prems(2) by auto
  then show ?case using v1 by (auto simp: algebra_simps)
qed simp

lemma malloc_loop_owns:
  assumes "n \<le> 2147483583"
  shows "\<exists>v. malloc_loop n m = Some v \<and> heap_alloc.owns (uheap v) (ptrs v) \<and> var_i v = of_nat n \<and>
    changes_only malloc_bytes m (hmem (uheap v))"
proof -
  obtain ps h where i: "init_ptrs_array (replicate PTRS_ARRAY_LENGTH 0) (heap_boot m) = Some (ps, h)"
      "heap_alloc.owns h ps" "heap_credit h = 2147483583" "heap_rest h = heap_rest (heap_boot m)"
    using init_ptrs_array_rep [of m] init_owns by blast
  have rest: "changes_only malloc_bytes m (hmem h') \<longleftrightarrow> heap_rest h' = heap_rest (heap_boot m)" for h'
    by (simp add: heap_rest_eq heap_boot_def)
  show ?thesis
    using malloc_loop_turns_owns [of "\<lparr>var_i = 0, var_X = 0, ptrs = ps, uheap = h\<rparr>" n] assms i
    by (simp add: malloc_loop_def rest)
qed

end
