(* ===== verification/Heap_Full.thy ===== *)
theory Heap_Full imports Heap_Malloc begin

text \<open>
  What \<^verbatim>\<open>malloc\<close> does when a request takes exactly what is left: the top block becomes reserved but
  stays the first free block, and the next call hands it out again. The refinement of
  \<^verbatim>\<open>Heap_Malloc\<close> excludes this case (it asks for twelve bytes more than the request).
\<close>

text \<open>A heap of one reserved block and the top block, free or not, which is where the search begins.\<close>

definition two_blocks :: "heap \<Rightarrow> nat \<Rightarrow> bool \<Rightarrow> bool" where
  "two_blocks h s f \<longleftrightarrow> heap_initialized h = 2 \<and> no_free_space h = 1 \<and>
     first_free_block h = of_nat (hbase + s + 8) \<and> hdr (hmem h) hbase s False False 0 \<and>
     hdr (hmem h) (hbase + s + 8) (hend - (hbase + s + 8)) f True s"

lemma heap_rep_two_blocks:
  assumes "heap_rep h [(s, False)]"
  shows "two_blocks h s True"
  using assms by (simp add: heap_rep_def two_blocks_def)

lemma find_prev_free_none:
  assumes "hdr m hbase s False False 0" "hdr m (hbase + s + 8) n False g s" "4 dvd s" "4 dvd n" "hbase + s + 12 \<le> hend"
  shows "find_prev_free m (of_nat (hbase + s + 8)) = Some 0"
proof -
  note b = hdr_ops [OF assms(1,3)] and t = hdr_ops [OF assms(2,4)]
  have in1: "HEAP_BASE \<le> of_nat (hbase + s + 8)" by (rule in_heap) (use assms(5) in auto)
  have in2: "HEAP_BASE \<le> of_nat hbase" "\<not> HEAP_BASE + MB_HEXA < of_nat hbase" "\<not> of_nat hbase < HEAP_BASE"
    using in_heap [of hbase] assms(5) by (auto simp: not_less hend_def hbase_def)
  have below: "of_nat hbase - (0 :: u32) - RB_HEADER_SIZE < HEAP_BASE"
    by (simp add: hbase_def RB_HEADER_SIZE_def HEAP_BASE_def)
  have "find_prev_free m (of_nat hbase) = Some 0"
    using in2(1) below b by (subst find_prev_free.simps) (simp add: Let_def)
  moreover have "of_nat (hbase + s + 8) - of_nat s - RB_HEADER_SIZE = (of_nat hbase :: u32)" by (rule step_addr)
  ultimately show ?thesis
    using in1 in2 t by (subst find_prev_free.simps) (simp add: Let_def del: of_nat_add)
qed

lemma first_free_walk_top:
  assumes "hdr m hbase s False False 0" "hdr m (hbase + s + 8) n False True s" "4 dvd s" "4 dvd n"
  shows "first_free_walk m HEAP_BASE = Some (Some (of_nat (hbase + s + 8)))"
proof -
  note b = hdr_ops [OF assms(1,3)] and t = hdr_ops [OF assms(2,4)]
  have "first_free_walk m (of_nat (hbase + s + 8)) = Some (Some (of_nat (hbase + s + 8)))"
    using t by (subst first_free_walk.simps) simp
  then show ?thesis unfolding heap_bounds_nat(1)
    using b by (subst first_free_walk.simps) (simp add: Let_def step_addr del: of_nat_add)
qed

text \<open>One call for exactly the top block: it returns that block and leaves it first in the list.\<close>

lemma malloc_exact_top:
  assumes h: "two_blocks h s f" and s: "4 dvd s" "4 \<le> s" "hbase + s + 12 \<le> hend"
    and n: "n = hend - (hbase + s + 8)"
  shows "\<exists>h'. malloc (of_nat n) h = Some (of_nat (hbase + s + 8), h') \<and> two_blocks h' s False"
proof -
  define t where "t = hbase + s + 8"
  define m where "m = hmem h"
  have d: "4 dvd t" "4 dvd t + 4" "4 dvd n" "4 dvd hbase" "4 dvd hbase + 4"
    using s(1) by (auto simp: t_def n hbase_def hend_def intro!: dvd_add dvd_diff_nat)
  have lt: "t + 4 \<le> hend" "hbase + 12 \<le> t" using s by (auto simp: t_def)
  have b: "hdr m hbase s False False 0" and tt: "hdr m t n f True s"
    using h by (simp_all add: two_blocks_def m_def t_def n)
  note bo = hdr_ops [OF b s(1)] and to = hdr_ops [OF tt d(3)]
  have fr: "ldn (stn x v m') y = ldn m' y" if "x \<noteq> y" "x \<in> {t, t + 4}" "y \<in> {hbase, hbase + 4, t, t + 4}" for x y v m'
    using that d lt by (intro load_frame) (auto simp: hend_def)
  define m1 where "m1 = stn t (enc n False False) m"
  define m2 where "m2 = stn (t + 4) (of_nat s) m1"
  define m3 where "m3 = stn t (enc n False True) m2"
  have h1: "hdr m1 hbase s False False 0" "hdr m2 hbase s False False 0" "hdr m3 hbase s False False 0"
    using b lt by (auto simp: hdr_def m1_def m2_def m3_def fr)
  have h2: "hdr m2 t n False False s" using lt by (simp add: hdr_def m2_def fr) (simp add: m1_def)
  have h3: "hdr m3 t n False True s" using lt by (simp add: hdr_def m3_def fr) (simp add: m2_def)
  have fp: "find_prev_free m2 (of_nat t) = Some 0"
    unfolding t_def by (rule find_prev_free_none [OF h1(2), of n False]) (use h2 s d in \<open>auto simp: t_def\<close>)
  have fw: "first_free_walk m3 HEAP_BASE = Some (Some (of_nat t))"
    unfolding t_def by (rule first_free_walk_top [OF h1(3), of n]) (use h3 s d in \<open>auto simp: t_def\<close>)
  have ne: "(of_nat t :: u32) \<noteq> HEAP_BASE"
    unfolding heap_bounds_nat(1) using lt by (subst of_nat_eq_iff_u32) (auto simp: hend_def hbase_def)
  have ptr: "of_nat t - of_nat s - RB_HEADER_SIZE = (of_nat hbase :: u32)" unfolding t_def by (rule step_addr)
  have w: "(of_nat n :: u32) AND BLOCK_SIZE_BITS = enc n False False"
    using of_nat_and_size [OF d(3)] by (simp add: enc_def)
  have plus: "enc n False False + TOP_BLOCK = enc n False True" by (simp add: enc_def TOP_BLOCK_def)
  define h' where "h' = h\<lparr>top_block_flag := 2, hmem := m3, first_free_block := of_nat t, counter := counter h + 1\<rparr>"
  have l2: "ldn m2 t = enc n False False" using h2 by (simp add: hdr_def)
  have fin: "malloc_finish (of_nat n) (of_nat t) (of_nat hbase) 0 h = Some (of_nat t, h')"
  proof -
    have e1: "set_ctrl (of_nat t) (of_nat n AND BLOCK_SIZE_BITS) (hmem h) = m1" by (simp add: field_nat m1_def m_def w)
    have e2: "set_prev_size (of_nat t) (bsize m1 (of_nat hbase)) m1 = m2"
      by (simp add: field_nat m2_def hdr_ops(2) [OF h1(1) s(1)])
    have e3: "set_ctrl (of_nat t) (ctrl m2 (of_nat t) + 0) m2 = stn t (enc n False False) m2" by (simp add: field_nat l2)
    have e4: "set_ctrl (of_nat t) (ctrl (stn t (enc n False False) m2) (of_nat t) + TOP_BLOCK) (stn t (enc n False False) m2) = m3"
      by (simp add: field_nat plus stn_twice m3_def)
    have up: "update_first_free_block (h\<lparr>top_block_flag := 2, hmem := m3\<rparr>) =
        Some (h\<lparr>top_block_flag := 2, hmem := m3, first_free_block := of_nat t\<rparr>)"
      by (simp add: update_first_free_block_def fw)
    show ?thesis
      unfolding malloc_finish_def
      using to ne fp up e1 e2 e3 e4 by (simp add: m_def [symmetric] Let_def h'_def del: of_nat_add)
  qed
  have nk: "n \<le> 4294967292" "rounded n = n" using d(3) by (auto simp: n hend_def rounded_def elim!: dvdE)
  have "malloc_search m (of_nat n) (of_nat t) = Some (Some (of_nat t))"
    using to by (subst malloc_search.simps) simp
  then have "malloc (of_nat n) h = malloc_take (of_nat n) (of_nat t) h"
    using h nk round_up_rounded [of n] by (simp add: malloc_def Let_def two_blocks_def m_def t_def)
  also have "\<dots> = malloc_finish (of_nat n) (of_nat t) (of_nat hbase) 0 h"
    using to ptr by (simp add: malloc_take_def m_def Let_def del: of_nat_add)
  finally have "malloc (of_nat n) h = Some (of_nat t, h')" using fin by simp
  moreover have "two_blocks h' s False"
    using h h1(3) h3 by (simp add: two_blocks_def h'_def t_def n)
  ultimately show ?thesis by (auto simp: t_def)
qed

end
