(* ===== verification/Heap_Early.thy ===== *)
theory Heap_Early imports Heap_Malloc begin

text \<open>
  The allocator before its sixteenth call: \<open>find_next_free\<close> then takes the block above for the next
  free one without looking at it. Here this is followed through one release and one request, in a
  heap of two blocks: the free list leads into a live block, and \<open>malloc\<close> hands it out again. The
  refinement of \<^verbatim>\<open>Heap_Malloc\<close> and \<^verbatim>\<open>Heap_Free\<close> excludes this by its hypothesis on the counter.
\<close>

lemma find_next_free_early:
  assumes "hdr m a s f False p" "4 dvd s" "sint cnt \<le> 15"
  shows "find_next_free m cnt (of_nat a) = Some (of_nat (a + s + 8))"
  using assms(3) by (simp add: find_next_free_def hdr_ops [OF assms(1,2)] step_addr Let_def del: of_nat_add)

text \<open>A free block at the base of the heap, linked to the reserved block above it.\<close>

definition leads_into_reserved :: "heap \<Rightarrow> nat \<Rightarrow> nat \<Rightarrow> bool" where
  "leads_into_reserved h s t \<longleftrightarrow> heap_initialized h = 2 \<and> no_free_space h = 1 \<and> top_block_flag h = 1 \<and>
     first_free_block h = of_nat hbase \<and> sint (counter h) \<le> 15 \<and> hdr (hmem h) hbase s True False 0 \<and>
     ldn (hmem h) (hbase + 8) = of_nat (hbase + s + 8) \<and> hdr (hmem h) (hbase + s + 8) t False False s"

lemma below_base: "(of_nat hbase :: u32) - 0 - RB_HEADER_SIZE < HEAP_BASE"
  by (simp add: hbase_def RB_HEADER_SIZE_def HEAP_BASE_def)

lemma free_early:
  assumes rep: "heap_rep h [(s, False), (t, False)]" and cnt: "sint (counter h) \<le> 15"
  shows "\<exists>h'. free (of_nat hbase) h = Some h' \<and> leads_into_reserved h' s t"
proof -
  let ?m = "hmem h" and ?b = "hbase + s + 8"
  have ha: "hdr ?m hbase s False False 0" and hb: "hdr ?m ?b t False False s"
    and s: "4 dvd s" "4 \<le> s" "4 dvd t" "?b + t + 8 + 4 \<le> hend"
    and flags: "heap_initialized h = 2" "merge_flag h = 1"
    using rep by (auto simp: heap_rep_def)
  have d: "4 dvd ?b" "4 dvd ?b + 4" "4 dvd hbase + 4" "4 dvd hbase + 8"
    using s by (auto intro!: dvd_add)
  have fr: "ldn (stn x v m') y = ldn m' y" if "x \<noteq> y" "x \<in> {hbase, hbase + 8}" "y \<in> {hbase, hbase + 4, ?b, ?b + 4}"
    for x y v m' using that d s by (intro load_frame) (auto simp: hend_def)
  define m1 where "m1 = stn hbase (enc s True False) ?m"
  define m2 where "m2 = stn (hbase + 8) (of_nat ?b) m1"
  have a1: "hdr m1 hbase s True False 0" and b1: "hdr m1 ?b t False False s"
    using ha hb s(2) by (simp_all add: hdr_def m1_def fr)
  have a2: "hdr m2 hbase s True False 0" and b2: "hdr m2 ?b t False False s"
    using a1 b1 s(2) by (simp_all add: hdr_def m2_def fr)
  have top: "check_merge_with_top (of_nat hbase) (h\<lparr>hmem := m1\<rparr>) = Some (h\<lparr>hmem := m1\<rparr>)"
    using hdr_ops [OF a1 s(1)] hdr_ops(3) [OF b1 s(3)]
    by (simp add: check_merge_with_top_def Let_def step_addr del: of_nat_add)
  have bot: "check_merge_with_bottom (of_nat hbase) (h\<lparr>hmem := m1\<rparr>) = h\<lparr>hmem := m1\<rparr>"
    using hdr_ops [OF a1 s(1)] below_base by (simp add: check_merge_with_bottom_def Let_def)
  have prev: "find_prev_free m2 (of_nat hbase - 0 - RB_HEADER_SIZE) = Some 0"
    using below_base by (subst find_prev_free.simps) auto
  have walk: "first_free_walk m2 HEAP_BASE = Some (Some (of_nat hbase))"
    unfolding heap_bounds_nat(1) using hdr_ops [OF a2 s(1)] by (subst first_free_walk.simps) simp
  have nz: "(of_nat hbase :: u32) \<noteq> 0" by (simp add: hbase_def)
  define h' where "h' = h\<lparr>hmem := m2, first_free_block := of_nat hbase, top_block_flag := 1, no_free_space := 1, merge_flag := 1\<rparr>"
  have "free (of_nat hbase) h = Some h'"
    using nz top bot prev walk flags hdr_ops [OF ha s(1)] hdr_ops(4) [OF a1 s(1)]
      find_next_free_early [OF a1 s(1) cnt]
    by (simp add: free_def Let_def enc_plus_flags field_nat(4,6) m1_def [symmetric] m2_def [symmetric]
        update_first_free_block_def h'_def del: of_nat_add)
  moreover have "leads_into_reserved h' s t"
    using a2 b2 flags cnt by (simp add: leads_into_reserved_def h'_def m2_def)
  ultimately show ?thesis by blast
qed

lemma malloc_early:
  assumes h: "leads_into_reserved h s t" and s: "4 dvd s" "4 dvd t" "s < t" "hbase + s + 8 + t + 12 \<le> hend"
    and k: "rounded k = t" "k \<le> 4294967292"
  shows "\<exists>h'. malloc (of_nat k) h = Some (of_nat (hbase + s + 8), h')"
proof -
  let ?b = "hbase + s + 8"
  define m where "m = hmem h"
  have a: "hdr m hbase s True False 0" and b: "hdr m ?b t False False s" and link: "ldn m (hbase + 8) = of_nat ?b"
    and cnt: "sint (counter h) \<le> 15"
    and flags: "heap_initialized h = 2" "no_free_space h = 1" "top_block_flag h = 1" "first_free_block h = of_nat hbase"
    using h by (auto simp: leads_into_reserved_def m_def)
  have d: "4 dvd ?b" "4 dvd ?b + 4" "4 dvd hbase + 4" "4 dvd hbase + 8"
    using s by (auto intro!: dvd_add)
  have lt: "s < 4294967296" "t < 4294967296" "?b < 4294967296" using s(4) by (auto simp: hend_def)
  note ao = hdr_ops [OF a s(1)] and bo = hdr_ops [OF b s(2)]
  have fr: "ldn (stn x v m') y = ldn m' y" if "x \<noteq> y" "x \<in> {?b, ?b + 4, hbase + 8}" "y \<in> {hbase, hbase + 4, ?b, ?b + 4}"
    for x y v m' using that d s by (intro load_frame) (auto simp: hend_def)
  define m1 where "m1 = stn ?b (enc t False False) m"
  define m2 where "m2 = stn (?b + 4) (of_nat s) m1"
  define m3 where "m3 = stn ?b (enc t False False) m2"
  define m4 where "m4 = stn (hbase + 8) (of_nat ?b) m3"
  have a1: "hdr m1 hbase s True False 0" using a by (simp add: hdr_def m1_def fr)
  have a2: "hdr m2 hbase s True False 0" using a1 by (simp add: hdr_def m2_def fr)
  have b2: "hdr m2 ?b t False False s" using fr [of "?b + 4" ?b] by (simp add: hdr_def m2_def) (simp add: m1_def)
  have a3: "hdr m3 hbase s True False 0" using a2 by (simp add: hdr_def m3_def fr)
  have a4: "hdr m4 hbase s True False 0" using a3 s(3) by (simp add: hdr_def m4_def fr)
  have in1: "HEAP_BASE \<le> of_nat hbase" "\<not> HEAP_BASE + MB_HEXA < of_nat hbase" "\<not> of_nat hbase < HEAP_BASE"
    "HEAP_BASE \<le> of_nat ?b"
    using in_heap [of hbase] in_heap [of ?b] s(4) by (auto simp: not_less hend_def hbase_def)
  have "find_prev_free m2 (of_nat hbase) = Some (of_nat hbase)"
    using in1 hdr_ops [OF a2 s(1)] by (subst find_prev_free.simps) simp
  then have prev: "find_prev_free m2 (of_nat ?b) = Some (of_nat hbase)"
    using in1 hdr_ops [OF b2 s(2)] step_addr(2) [of hbase s]
    by (subst find_prev_free.simps) (simp add: Let_def del: of_nat_add)
  have walk: "first_free_walk m4 HEAP_BASE = Some (Some (of_nat hbase))"
    unfolding heap_bounds_nat(1) using hdr_ops [OF a4 s(1)] by (subst first_free_walk.simps) simp
  have ne: "(of_nat ?b :: u32) \<noteq> HEAP_BASE" "(of_nat hbase :: u32) \<noteq> 0"
    unfolding heap_bounds_nat(1) using lt(3) of_nat_eq_iff_u32 [of ?b hbase] by (auto simp: hbase_def)
  have w: "(of_nat t :: u32) AND BLOCK_SIZE_BITS = enc t False False"
    using of_nat_and_size [OF s(2)] by (simp add: enc_def)
  have search: "malloc_search m (of_nat t) (of_nat hbase) = Some (Some (of_nat ?b))"
  proof -
    have "malloc_search m (of_nat t) (of_nat ?b) = Some (Some (of_nat ?b))"
      using bo by (subst malloc_search.simps) simp
    then show ?thesis using ao s(3) lt link of_nat_less_u32 [OF lt(1,2)]
      by (subst malloc_search.simps) (simp add: field_nat(3) del: of_nat_add)
  qed
  have "\<exists>h'. malloc_finish (of_nat t) (of_nat ?b) (of_nat hbase) 0 h = Some (of_nat ?b, h')"
  proof -
    have e1: "set_ctrl (of_nat ?b) (of_nat t AND BLOCK_SIZE_BITS) (hmem h) = m1" by (simp add: field_nat(4) m1_def m_def w del: of_nat_add)
    have e2: "set_prev_size (of_nat ?b) (bsize m1 (of_nat hbase)) m1 = m2"
      by (simp add: field_nat(5) m2_def hdr_ops(2) [OF a1 s(1)] del: of_nat_add)
    have e3: "set_ctrl (of_nat ?b) (ctrl m2 (of_nat ?b) + 0) m2 = m3"
      by (simp add: field_nat(4) m3_def hdr_ops(1) [OF b2 s(2)] del: of_nat_add)
    have e4: "set_next_free (of_nat hbase) (of_nat ?b) m3 = m4" by (simp add: field_nat(6) m4_def)
    show ?thesis
      unfolding malloc_finish_def
      using bo ne prev walk flags e1 e2 e3 e4 find_next_free_early [OF a3 s(1) cnt]
      by (simp add: m_def [symmetric] Let_def update_first_free_block_def del: of_nat_add)
  qed
  moreover have "malloc (of_nat k) h = malloc_take (of_nat t) (of_nat ?b) h"
    using flags search round_up_rounded [OF k(2)] k(1)
    by (simp add: malloc_def Let_def m_def [symmetric] del: of_nat_add)
  moreover have "malloc_take (of_nat t) (of_nat ?b) h = malloc_finish (of_nat t) (of_nat ?b) (of_nat hbase) 0 h"
    using bo step_addr(2) [of hbase s] by (simp add: malloc_take_def m_def [symmetric] Let_def del: of_nat_add)
  ultimately show ?thesis by simp
qed

end
