(* ===== verification/Heap_Properties.thy ===== *)
theory Heap_Properties imports User_Malloc Heap_Full Heap_Early begin

text \<open>
  The properties of the user heap and of the process that exercises it, each with an instance at
  a concrete heap. The lemmas behind them are in \<^verbatim>\<open>Heap_Malloc\<close>, \<^verbatim>\<open>Heap_Free\<close>, \<^verbatim>\<open>Block_List\<close>,
  \<^verbatim>\<open>Heap_Interface\<close> and \<^verbatim>\<open>User_Malloc\<close>.
\<close>

subsection \<open>Heaps for the instances\<close>

lemma small_heap: "\<exists>h. malloc 16 (heap_boot (\<lambda>_. 0)) = Some (HEAP_BASE, h) \<and> heap_rep h [(16, False)] \<and> counter h = 1"
  using malloc_first_rep [of 16 "\<lambda>_. 0"] by (auto simp: rounded_def)

lemma full_array_heap:
  "\<exists>h. heap_rep h (init_blocks 64) \<and> apart False (init_blocks 64) \<and> counter h = 64 \<and> heap_valid h \<and>
     heap_credit h = 2147483583 \<and> heap_live h HEAP_BASE = Some 32 \<and> heap_live h (HEAP_BASE + 40) = Some 32"
proof -
  obtain h and ps :: "u32 list" where h: "heap_rep h (init_blocks 64)" "counter h = 64" "length ps = 64"
      "\<forall>i < 64. ps ! i = of_nat (hbase + 40 * i)"
    using init_ptrs_array_rep [of "\<lambda>_. 0"] by blast
  have ok: "heap_valid h" "heap_credit h = 2147483583"
    using init_owns [OF h] h(2) by (auto simp: heap_alloc.owns_def)
  have l: "heap_live h p = (if \<exists>i < 64. unat p = hbase + 40 * i then Some 32 else None)" for p
    using heap_live_rep [OF h(1)] by (simp add: live_init)
  have "heap_live h HEAP_BASE = Some 32" "heap_live h (HEAP_BASE + 40) = Some 32"
    unfolding l by (auto simp: HEAP_BASE_def hbase_def intro: exI [of _ 0] exI [of _ 1])
  then show ?thesis using h(1,2) ok init_blocks_facts(1) by blast
qed

lemma sub_heap: "\<exists>h h'. heap_rep h (init_blocks 64) \<and> counter h = 64 \<and> free HEAP_BASE h = Some h' \<and>
    heap_rep h' ((32, True) # init_blocks 63) \<and> counter h' = 64 \<and> heap_valid h'"
proof -
  obtain h where h: "heap_rep h (init_blocks 64)" "counter h = 64" "heap_valid h"
    using full_array_heap by blast
  have "init_blocks 64 = (32, False) # init_blocks 63" "init_blocks 63 = (32, False) # init_blocks 62"
    by (simp_all add: init_blocks_def numeral_eq_Suc)
  then have "spec_free hbase (init_blocks 64) = Some ((32, True) # init_blocks 63)"
    "apart False ((32, True) # init_blocks 63)"
    using init_blocks_facts(1) [of 62] by (simp_all add: spec_free_def join_below_def)
  moreover from this obtain h' where "free HEAP_BASE h = Some h'" "heap_rep h' ((32, True) # init_blocks 63)"
      "counter h' = 64"
    using free_rep [OF h(1), of hbase] h(2) by (auto simp: heap_bounds_nat(1))
  ultimately have "heap_valid h'" by (auto simp: heap_valid_def)
  then show ?thesis using h \<open>free HEAP_BASE h = Some h'\<close> \<open>heap_rep h' _\<close> \<open>counter h' = 64\<close> by blast
qed

subsection \<open>The malloc process\<close>

text \<open>C3. The endless loop of the malloc process is safe: after any number of turns (up to the
  2147483583 after which the allocator's signed counter would overflow) it has returned from every
  call, no \<open>malloc\<close> in it has failed, and the 64 pointers of the array are live blocks of the heap
  no two of which overlap, headers included. Of the memory it has changed nothing but the
  megabyte of the heap, the sixteen bytes behind it and the word at address 8.\<close>

theorem malloc_process_safe:
  assumes "n \<le> 2147483583"
  shows "\<exists>v. malloc_loop n m = Some v \<and> var_i v = of_nat n \<and> length (ptrs v) = 64 \<and> 0 \<notin> set (ptrs v) \<and>
    (\<forall>i < 64. \<forall>j < 64. i \<noteq> j \<longrightarrow> (\<exists>a b. heap_live (uheap v) (ptrs v ! i) = Some a \<and>
       heap_live (uheap v) (ptrs v ! j) = Some b \<and>
       (unat (ptrs v ! i) + a + 8 \<le> unat (ptrs v ! j) \<or> unat (ptrs v ! j) + b + 8 \<le> unat (ptrs v ! i)))) \<and>
    changes_only malloc_bytes m (hmem (uheap v))"
proof -
  obtain v where v: "malloc_loop n m = Some v" "heap_alloc.owns (uheap v) (ptrs v)" "var_i v = of_nat n"
      "changes_only malloc_bytes m (hmem (uheap v))"
    using malloc_loop_owns [OF assms] by blast
  have "\<exists>a b. heap_live (uheap v) (ptrs v ! i) = Some a \<and> heap_live (uheap v) (ptrs v ! j) = Some b \<and>
      (unat (ptrs v ! i) + a + 8 \<le> unat (ptrs v ! j) \<or> unat (ptrs v ! j) + b + 8 \<le> unat (ptrs v ! i))"
    if "i < 64" "j < 64" "i \<noteq> j" for i j
    using heap_alloc.owns_apart [OF v(2) that] by metis
  then show ?thesis using v by (auto simp: heap_alloc.owns_def)
qed

theorem malloc_process_safe_witness:
  "\<exists>v. malloc_loop 2147483583 (\<lambda>_. 0) = Some v \<and> length (ptrs v) = 64 \<and> 0 \<notin> set (ptrs v)"
  using malloc_process_safe [of 2147483583 "\<lambda>_. 0"] by auto

subsection \<open>malloc\<close>

text \<open>C1. \<open>malloc\<close> refines first fit on block lists. From a heap that represents the list \<open>bs\<close>,
  a request the specification serves returns the address the specification gives, and the new heap
  represents the new list: the first free block that is large enough, split when twelve bytes or
  more remain, or else a piece of the top block. No byte changes outside the megabyte of the heap,
  the sixteen bytes behind it and the word at address 8.\<close>

theorem malloc_refines_first_fit:
  assumes "heap_rep h bs" "counter_ok h bs" "0 < k" "k \<le> 4294967292"
    and "spec_malloc (rounded k) bs = Some (a, bs')"
  shows "\<exists>h'. malloc (of_nat k) h = Some (of_nat a, h') \<and> heap_rep h' bs' \<and> counter h' = counter h + 1 \<and>
    changes_only malloc_bytes (hmem h) (hmem h')"
  using malloc_rep [OF assms] by blast

theorem malloc_refines_first_fit_witness:
  "\<exists>h h'. heap_rep h [(16, False)] \<and> malloc 10 h = Some (0x700018, h') \<and> heap_rep h' [(16, False), (12, False)]"
proof -
  obtain h where h: "heap_rep h [(16, False)]" "counter h = 1" using small_heap by blast
  have "spec_malloc (rounded 10) [(16, False)] = Some (0x700018, [(16, False), (12, False)])"
    by (simp add: spec_malloc_def rounded_def hbase_def hend_def)
  from malloc_refines_first_fit [OF h(1) _ _ _ this] h show ?thesis by (auto simp: counter_ok_def)
qed

text \<open>C35. A request that fits neither a free block nor the top block is refused: \<open>malloc\<close> returns
  the null pointer and leaves the heap as it was.\<close>

theorem malloc_refuses:
  assumes "heap_rep h bs" "k \<le> 4294967292"
    and "first_fit (rounded k) hbase bs = None" "hend < hbase + span bs + rounded k"
  shows "malloc (of_nat k) h = Some (0, h)"
  using malloc_null_rep [OF assms] .

theorem malloc_refuses_witness: "\<exists>h. heap_rep h [(16, False)] \<and> malloc 0x100000 h = Some (0, h)"
proof -
  obtain h where h: "heap_rep h [(16, False)]" using small_heap by blast
  show ?thesis using malloc_refuses [OF h, of "0x100000"] h by (auto simp: rounded_def hbase_def hend_def)
qed

text \<open>The first call sets the heap up: it returns the heap's base, and the rest of the
  megabyte is the free top block, whatever the memory held.\<close>

theorem malloc_first_sets_up:
  assumes "0 < k" "rounded k + 12 \<le> 0x100000"
  shows "\<exists>h'. malloc (of_nat k) (heap_boot m) = Some (HEAP_BASE, h') \<and>
    heap_rep h' [(rounded k, False)] \<and> counter h' = 1"
  using malloc_first_rep [OF assms] by blast

theorem malloc_first_sets_up_witness:
  "\<exists>h. malloc 30 (heap_boot (\<lambda>_. 7)) = Some (HEAP_BASE, h) \<and> heap_rep h [(32, False)]"
  using malloc_first_sets_up [of 30 "\<lambda>_. 7"] by (auto simp: rounded_def)

text \<open>C9. For a client with fewer than 64 blocks of at most 4104 bytes, \<open>malloc\<close> of up to 4096 bytes
  never fails: the block it returns was not live, is large enough, and is the only change to the
  map of live blocks.\<close>

theorem malloc_gives_fresh_block:
  assumes "heap_valid h" "0 < heap_credit h" "0 < k" "k \<le> 4096"
    and "card (dom (heap_live h)) < 64" "\<forall>n \<in> ran (heap_live h). n \<le> 4104"
  shows "\<exists>p h' n. malloc k h = Some (p, h') \<and> heap_valid h' \<and> heap_credit h = heap_credit h' + 1 \<and>
    p \<noteq> 0 \<and> heap_live h p = None \<and> unat k \<le> n \<and> n \<le> 4104 \<and> heap_live h' = (heap_live h)(p \<mapsto> n)"
  using heap_alloc.alloc_live [OF assms] by blast

theorem malloc_gives_fresh_block_witness:
  "\<exists>h p h' n. heap_valid h \<and> malloc 100 h = Some (p, h') \<and> p \<noteq> 0 \<and> 100 \<le> n \<and> heap_live h' = (heap_live h)(p \<mapsto> n)"
proof -
  obtain h where h: "heap_rep h ((32, True) # init_blocks 63)" "counter h = 64" "heap_valid h"
    using sub_heap by blast
  have "live_count ((32, True) # init_blocks 63) = 63" by (simp add: live_count_def init_blocks_def)
  then have "card (dom (heap_live h)) < 64" using live_dom_unat(1) [OF h(1)] by simp
  moreover have "\<forall>n \<in> ran (heap_live h). n \<le> 4104"
    unfolding live_dom_unat(2) [OF h(1)] by (auto simp: ran_def live_init split: if_splits)
  moreover have "0 < heap_credit h" using h(2) by (simp add: heap_credit_def)
  ultimately show ?thesis using malloc_gives_fresh_block [of h 100] h(3) by auto
qed

subsection \<open>free\<close>

text \<open>C2. \<open>free\<close> of a reserved block refines its specification: the block becomes free and is joined
  with a free block, or the top block, above it and with a free block below it; the free list and
  the first free block are again right. No byte changes outside the megabyte of the heap and the
  sixteen bytes behind it.\<close>

theorem free_refines_join:
  assumes "heap_rep h bs" "15 < sint (counter h)" "spec_free a bs = Some bs'"
  shows "\<exists>h'. free (of_nat a) h = Some h' \<and> heap_rep h' bs' \<and> counter h' = counter h \<and>
    BLOCK_IS_FREE (hmem h') (of_nat a) \<and> changes_only heap_bytes (hmem h) (hmem h')"
  using free_rep [OF assms] .

theorem free_refines_join_witness:
  "\<exists>h h'. heap_rep h (init_blocks 64) \<and> free 0x700000 h = Some h' \<and> heap_rep h' ((32, True) # init_blocks 63)"
proof -
  obtain h where h: "heap_rep h (init_blocks 64)" "counter h = 64" using full_array_heap by blast
  have "init_blocks 64 = (32, False) # init_blocks 63" "init_blocks 63 = (32, False) # init_blocks 62"
    by (simp_all add: init_blocks_def numeral_eq_Suc)
  then have "spec_free 0x700000 (init_blocks 64) = Some ((32, True) # init_blocks 63)"
    by (simp add: spec_free_def join_below_def hbase_def)
  from free_refines_join [OF h(1) _ this] h show ?thesis by auto
qed

text \<open>C10. \<open>free\<close> of a live block removes it from the map of live blocks and nothing else, and freeing
  the same pointer again right away changes nothing.\<close>

theorem free_and_double_free:
  assumes "heap_valid h" "heap_live h p = Some n"
  shows "\<exists>h'. free p h = Some h' \<and> heap_valid h' \<and> heap_credit h' = heap_credit h \<and>
    heap_live h' = (heap_live h)(p := None) \<and> free p h' = Some h'"
  using heap_alloc.release_live [OF assms] by blast

theorem free_and_double_free_witness:
  "\<exists>h h'. heap_live h (HEAP_BASE + 40) = Some 32 \<and> free (HEAP_BASE + 40) h = Some h' \<and>
     heap_live h' (HEAP_BASE + 40) = None \<and> free (HEAP_BASE + 40) h' = Some h'"
proof -
  obtain h where h: "heap_valid h" "heap_live h (HEAP_BASE + 40) = Some 32" using full_array_heap by blast
  from free_and_double_free [OF this] h(2) show ?thesis by auto
qed

text \<open>C14. Freeing what \<open>malloc\<close> has just returned gives back the very list of blocks there was
  before: the split is undone, and a piece of the top block goes back to it.\<close>

theorem free_undoes_malloc:
  assumes "heap_rep h bs" "apart False bs" "15 < sint (counter h)" "sint (counter h) < 2147483647"
    and "0 < k" "k \<le> 4294967292" "spec_malloc (rounded k) bs = Some (a, bs')"
  shows "\<exists>h1 h2. malloc (of_nat k) h = Some (of_nat a, h1) \<and> free (of_nat a) h1 = Some h2 \<and> heap_rep h2 bs"
proof -
  obtain h1 where h1: "malloc (of_nat k) h = Some (of_nat a, h1)" "heap_rep h1 bs'" "counter h1 = counter h + 1"
    using malloc_rep [OF assms(1) _ assms(5,6,7)] assms(3) by (auto simp: counter_ok_def)
  have "15 < sint (counter h1)" unfolding h1(3) using sint_Suc [of "counter h"] assms(3,4) by simp
  from free_rep [OF h1(2) this spec_free_malloc [OF assms(7,2)]] h1(1) show ?thesis by blast
qed

theorem free_undoes_malloc_witness:
  "\<exists>h h1 h2. malloc 5 h = Some (0x700A00, h1) \<and> free 0x700A00 h1 = Some h2 \<and> heap_rep h2 (init_blocks 64)"
proof -
  obtain h where h: "heap_rep h (init_blocks 64)" "counter h = 64" "apart False (init_blocks 64)"
    using full_array_heap by blast
  have none: "first_fit 8 hbase (init_blocks 64) = None"
    using init_blocks_facts(2) [of 64] by (fastforce simp: first_fit_None_iff)
  have "spec_malloc (rounded 5) (init_blocks 64) = Some (0x700A00, init_blocks 64 @ [(8, False)])"
    using none alloc_in_append [OF none] by (simp add: spec_malloc_def rounded_def span_init hbase_def hend_def)
  from free_undoes_malloc [OF h(1,3) _ _ _ _ this] h(2) show ?thesis by auto
qed

text \<open>C23. When a request takes exactly what the top block has left, the heap is broken: the block is
  handed out, stays the first free block, and the same request gets it a second time, although
  nobody has freed it.\<close>

theorem full_heap_hands_out_twice:
  assumes "0 < k" "rounded k + 12 \<le> 0x100000" "n = 0x100000 - rounded k - 8"
  shows "\<exists>h1 h2 h3. malloc (of_nat k) (heap_boot m) = Some (HEAP_BASE, h1) \<and>
    malloc (of_nat n) h1 = Some (HEAP_BASE + of_nat (rounded k) + 8, h2) \<and>
    malloc (of_nat n) h2 = Some (HEAP_BASE + of_nat (rounded k) + 8, h3)"
proof -
  obtain h1 where h1: "malloc (of_nat k) (heap_boot m) = Some (HEAP_BASE, h1)" "heap_rep h1 [(rounded k, False)]"
    using malloc_first_rep [OF assms(1,2)] by blast
  have s: "4 dvd rounded k" "4 \<le> rounded k" "hbase + rounded k + 12 \<le> hend"
    using rounded_facts [of k] assms(1,2) by (auto simp: hbase_def hend_def)
  have n: "n = hend - (hbase + rounded k + 8)" using assms(3) by (simp add: hbase_def hend_def)
  have a: "(of_nat (hbase + rounded k + 8) :: u32) = HEAP_BASE + of_nat (rounded k) + 8"
    unfolding heap_bounds_nat(1) by simp
  obtain h2 where h2: "malloc (of_nat n) h1 = Some (of_nat (hbase + rounded k + 8), h2)" "two_blocks h2 (rounded k) False"
    using malloc_exact_top [OF heap_rep_two_blocks [OF h1(2)] s n] by blast
  obtain h3 where "malloc (of_nat n) h2 = Some (of_nat (hbase + rounded k + 8), h3)"
    using malloc_exact_top [OF h2(2) s n] by blast
  then show ?thesis using h1(1) h2(1) unfolding a by blast
qed

theorem full_heap_hands_out_twice_witness:
  "\<exists>h1 h2 h3. malloc 16 (heap_boot (\<lambda>_. 0)) = Some (0x700000, h1) \<and> malloc 0xFFFE8 h1 = Some (0x700018, h2) \<and>
     malloc 0xFFFE8 h2 = Some (0x700018, h3)"
  using full_heap_hands_out_twice [of 16 "0xFFFE8" "\<lambda>_. 0"] by (simp add: rounded_def HEAP_BASE_def)

text \<open>C24. Before its sixteenth call the allocator hands out a live block twice. The first two blocks
  are allocated, the second larger than the first; the first is released; a request of the size of
  the second then gets the second block again, which nobody has released.\<close>

theorem early_heap_hands_out_twice:
  assumes "0 < j" "rounded j < rounded k" "rounded j + rounded k + 28 \<le> 0x100000"
  shows "\<exists>h1 h2 h3 h4. malloc (of_nat j) (heap_boot m) = Some (HEAP_BASE, h1) \<and>
    malloc (of_nat k) h1 = Some (HEAP_BASE + of_nat (rounded j) + 8, h2) \<and>
    free HEAP_BASE h2 = Some h3 \<and>
    malloc (of_nat k) h3 = Some (HEAP_BASE + of_nat (rounded j) + 8, h4)"
proof -
  let ?s = "rounded j" and ?t = "rounded k"
  have a: "(of_nat (hbase + ?s + 8) :: u32) = HEAP_BASE + of_nat ?s + 8" unfolding heap_bounds_nat(1) by simp
  have k: "0 < k" "k \<le> 4294967292" using rounded_facts(2) [of k] assms by (auto simp: rounded_def)
  have fits: "hbase + ?s + 8 + ?t + 12 \<le> hend" using assms(3) by (simp add: hbase_def hend_def)
  have one: "?s + 12 \<le> 0x100000" using assms(3) by simp
  obtain h1 where h1: "malloc (of_nat j) (heap_boot m) = Some (HEAP_BASE, h1)" "heap_rep h1 [(?s, False)]" "counter h1 = 1"
    using malloc_first_rep [OF assms(1) one] by blast
  have "spec_malloc ?t [(?s, False)] = Some (hbase + ?s + 8, [(?s, False), (?t, False)])"
    using fits by (simp add: spec_malloc_def)
  from malloc_rep [OF h1(2) _ k this] h1(3) obtain h2 where
    h2: "malloc (of_nat k) h1 = Some (of_nat (hbase + ?s + 8), h2)" "heap_rep h2 [(?s, False), (?t, False)]" "counter h2 = 2"
    by (auto simp: counter_ok_def)
  obtain h3 where h3: "free (of_nat hbase) h2 = Some h3" "leads_into_reserved h3 ?s ?t"
    using free_early [OF h2(2)] h2(3) by auto
  obtain h4 where "malloc (of_nat k) h3 = Some (of_nat (hbase + ?s + 8), h4)"
    using malloc_early [OF h3(2) rounded_facts(1) rounded_facts(1) assms(2) fits refl k(2)] by blast
  with h1(1) h2(1) h3(1) show ?thesis unfolding a heap_bounds_nat(1) [symmetric] by blast
qed

theorem early_heap_hands_out_twice_witness:
  "\<exists>h1 h2 h3 h4. malloc 16 (heap_boot (\<lambda>_. 0)) = Some (0x700000, h1) \<and> malloc 32 h1 = Some (0x700018, h2) \<and>
     free 0x700000 h2 = Some h3 \<and> malloc 32 h3 = Some (0x700018, h4)"
  using early_heap_hands_out_twice [of 16 32 "\<lambda>_. 0"] by (simp add: rounded_def HEAP_BASE_def)

end
