(* ===== verification/Mmu.thy ===== *)
theory Mmu imports OS_Prelude begin

text \<open>
  The memory management unit set up by \<^verbatim>\<open>memory/mmu.c\<close>: the first-level table of 4096 section
  entries, the loops that fill it, the two entries that are changed when the process changes,
  and the copy of the user data template. The coprocessor registers are fields of the state;
  physical memory is separate from the table, and the kernel's accesses go through it.
\<close>

subsection \<open>Constants\<close>

definition BASE_ADDRESS_SECTION :: u32 where "BASE_ADDRESS_SECTION = 0xFFF00000"
definition AP_ACTIVATE_FULL_ACCESS :: u32 where "AP_ACTIVATE_FULL_ACCESS = 0x0C00"
definition AP_ACTIVATE_SYS_ACCESS :: u32 where "AP_ACTIVATE_SYS_ACCESS = 0x0400"
definition AP_ACTIVATE_BOTH_READ_ONLY :: u32 where "AP_ACTIVATE_BOTH_READ_ONLY = 0x8C00"
definition AP_NO_ACCESS :: u32 where "AP_NO_ACCESS = 0"
definition AP_SYS_ACCESS :: u32 where "AP_SYS_ACCESS = 1"
definition AP_SYS_READ_ONLY :: u32 where "AP_SYS_READ_ONLY = 5"
definition AP_BOTH_READ_ONLY :: u32 where "AP_BOTH_READ_ONLY = 7"
definition AP_READ_ONLY :: u32 where "AP_READ_ONLY = 2"
definition AP_FULL_ACCESS :: u32 where "AP_FULL_ACCESS = 3"
definition PHYSICAL_ADDRESS_BITS :: u32 where "PHYSICAL_ADDRESS_BITS = 0xFFF00000"
definition L1_TABLE_SIZE :: nat where "L1_TABLE_SIZE = 4096"
definition L1_TABLE_Entry :: u32 where "L1_TABLE_Entry = 2"
definition MB :: nat where "MB = 10000"
definition MAX_PROCESSES :: nat where "MAX_PROCESSES = 8"
definition MAX_THREADS :: nat where "MAX_THREADS = 32"
definition KERNEL_INIT :: nat where "KERNEL_INIT = 1"
definition KERNEL_TEXT :: nat where "KERNEL_TEXT = 2"
definition KERNEL_RODATA :: nat where "KERNEL_RODATA = 3"
definition USER_TEXT :: nat where "USER_TEXT = 4"
definition USER_RODATA :: nat where "USER_RODATA = 5"
definition USER_DATA :: nat where "USER_DATA = 6"
definition USER_HEAP :: nat where "USER_HEAP = 7"
definition UART_TIMER :: nat where "UART_TIMER = 0x3F0"
definition UART_LED :: nat where "UART_LED = 0x3F2"
definition UART_PERI :: nat where "UART_PERI = 0x400"

lemmas ap_consts = AP_ACTIVATE_FULL_ACCESS_def AP_ACTIVATE_SYS_ACCESS_def AP_ACTIVATE_BOTH_READ_ONLY_def
lemmas AP_consts = AP_NO_ACCESS_def AP_SYS_ACCESS_def AP_SYS_READ_ONLY_def AP_BOTH_READ_ONLY_def
  AP_READ_ONLY_def AP_FULL_ACCESS_def
lemmas section_consts = KERNEL_INIT_def KERNEL_TEXT_def KERNEL_RODATA_def USER_TEXT_def USER_RODATA_def
  USER_DATA_def USER_HEAP_def UART_TIMER_def UART_LED_def UART_PERI_def L1_TABLE_SIZE_def
  MAX_PROCESSES_def MAX_THREADS_def

subsection \<open>State\<close>

record mmu =
  L1_TABLE :: "u32 list"
  mmu_template :: u32
  SCTLR :: u32
  TTBR0 :: u32
  TTBCR :: u32
  DACR :: u32
  pmem :: mem
  klog :: "kmsg list"

definition kprintf :: "string \<Rightarrow> karg list \<Rightarrow> 'a mmu_scheme \<Rightarrow> 'a mmu_scheme" where
  "kprintf fmt args k = k\<lparr>klog := klog k @ [(fmt, args)]\<rparr>"

subsection \<open>The table\<close>

definition init_process_sections :: "u32 list \<Rightarrow> u32 list" where
  "init_process_sections t = (let
     t = each_entry (\<lambda>_ e. e OR AP_ACTIVATE_FULL_ACCESS) 8 (8 + MAX_PROCESSES) t
     in each_entry (\<lambda>_ e. e OR AP_ACTIVATE_FULL_ACCESS) 16 (16 + MAX_THREADS) t)"

definition init_heap_sections :: "u32 list \<Rightarrow> u32 list" where
  "init_heap_sections t =
     each_entry (\<lambda>_ e. e OR AP_ACTIVATE_FULL_ACCESS) (16 + MAX_THREADS) (24 + MAX_THREADS) t"

definition or_entry :: "nat \<Rightarrow> u32 \<Rightarrow> u32 list \<Rightarrow> u32 list" where
  "or_entry i v t = t[i := t ! i OR v]"

definition L1_TABLE_init :: "'a mmu_scheme \<Rightarrow> 'a mmu_scheme" where
  "L1_TABLE_init k = (let
     t = each_entry (\<lambda>i _. (push_bit 20 (of_nat i) AND BASE_ADDRESS_SECTION) OR L1_TABLE_Entry)
           0 L1_TABLE_SIZE (L1_TABLE k);
     t = or_entry 0 AP_ACTIVATE_FULL_ACCESS t;
     t = or_entry KERNEL_INIT AP_ACTIVATE_SYS_ACCESS t;
     t = or_entry KERNEL_TEXT AP_ACTIVATE_SYS_ACCESS t;
     t = or_entry KERNEL_RODATA AP_ACTIVATE_SYS_ACCESS t;
     t = t[UART_TIMER := 0x3F000000 OR AP_ACTIVATE_FULL_ACCESS OR L1_TABLE_Entry];
     t = t[UART_LED := 0x3F200000 OR AP_ACTIVATE_FULL_ACCESS OR L1_TABLE_Entry];
     t = t[UART_PERI := 0x40000000 OR AP_ACTIVATE_FULL_ACCESS OR L1_TABLE_Entry];
     t = or_entry USER_TEXT AP_ACTIVATE_FULL_ACCESS t;
     t = or_entry USER_RODATA AP_ACTIVATE_FULL_ACCESS t;
     t = or_entry USER_DATA AP_ACTIVATE_BOTH_READ_ONLY t;
     t = or_entry USER_HEAP AP_ACTIVATE_FULL_ACCESS t;
     k = k\<lparr>mmu_template := t ! USER_DATA\<rparr>;
     t = each_entry (\<lambda>_ e. e OR AP_ACTIVATE_FULL_ACCESS) 128 4096 t;
     t = init_process_sections t;
     t = init_heap_sections t
     in k\<lparr>L1_TABLE := t\<rparr>)"

text \<open>The names of the access classes, from bits 15, 11 and 10 of an entry.\<close>

definition AP_of :: "u32 \<Rightarrow> u32" where
  "AP_of e = push_bit 2 (drop_bit 15 e AND 1) OR (drop_bit 10 e AND 3)"

definition translate_AP :: "'a mmu_scheme \<Rightarrow> nat \<Rightarrow> string" where
  "translate_AP k i = (let AP = AP_of (L1_TABLE k ! i) in
     if AP = AP_NO_ACCESS then ''AP_NO_ACCESS''
     else if AP = AP_SYS_ACCESS then ''AP_SYS_ACCESS''
     else if AP = AP_SYS_READ_ONLY then ''AP_SYS_READ_ONLY''
     else if AP = AP_BOTH_READ_ONLY then ''AP_BOTH_READ_ONLY''
     else if AP = AP_READ_ONLY then ''AP_READ_ONLY''
     else if AP = AP_FULL_ACCESS then ''AP_FULL_ACCESS''
     else ''UNKNOWN'')"

definition debug_L1_Table :: "'a mmu_scheme \<Rightarrow> 'a mmu_scheme" where
  "debug_L1_Table k = fold (\<lambda>i k. kprintf
     (esc @ ''[1;36m Eintrag %i:'' @ esc @ ''[0m %x'' @ tab @ esc @ ''[1;35m AP[2:0]:'' @ esc @ ''[0m %s '' @ nl)
     [KInt (of_nat i), KInt (L1_TABLE k ! i AND PHYSICAL_ADDRESS_BITS), KStr (translate_AP k i)] k) [0..<140] k"

subsection \<open>Switching the two sections of a process\<close>

definition map_userdata_to :: "int \<Rightarrow> 'a mmu_scheme \<Rightarrow> 'a mmu_scheme option" where
  "map_userdata_to new k = do {
     d \<leftarrow> idx (L1_TABLE k) new;
     let t = (L1_TABLE k)[USER_DATA := d];
     e \<leftarrow> idx t (new + 16);
     Some (k\<lparr>L1_TABLE := t[USER_HEAP := e]\<rparr>) }"

definition return_heap_address :: "'a mmu_scheme \<Rightarrow> u32" where
  "return_heap_address k = L1_TABLE k ! USER_HEAP"

subsection \<open>Copying the user data\<close>

text \<open>The section translation of the kernel's accesses: the entry's base and the 20-bit offset.\<close>

definition phys :: "u32 list \<Rightarrow> u32 \<Rightarrow> u32" where
  "phys t va = (t ! unat (drop_bit 20 va) AND PHYSICAL_ADDRESS_BITS) OR take_bit 20 va"

definition kmemcpy :: "u32 list \<Rightarrow> u32 \<Rightarrow> u32 \<Rightarrow> nat \<Rightarrow> mem \<Rightarrow> mem" where
  "kmemcpy t dest src n m =
     fold (\<lambda>i m. m(phys t (dest + of_nat i) := m (phys t (src + of_nat i)))) [0..<n] m"

definition copy_userdata_template :: "int \<Rightarrow> 'a mmu_scheme \<Rightarrow> 'a mmu_scheme option" where
  "copy_userdata_template new_address k = do {
     e \<leftarrow> idx (L1_TABLE k) new_address;
     Some (k\<lparr>pmem := kmemcpy (L1_TABLE k) (e AND PHYSICAL_ADDRESS_BITS)
       (mmu_template k AND PHYSICAL_ADDRESS_BITS) MB (pmem k)\<rparr>) }"

subsection \<open>Enabling the unit\<close>

text \<open>The accesses to the registers of the coprocessor, \<^verbatim>\<open>memory/mmu_assembly_funcs.S\<close>.\<close>

definition read_SCTLR :: "'a mmu_scheme \<Rightarrow> u32" where "read_SCTLR k = SCTLR k"
definition write_SCTLR :: "u32 \<Rightarrow> 'a mmu_scheme \<Rightarrow> 'a mmu_scheme" where "write_SCTLR x k = k\<lparr>SCTLR := x\<rparr>"
definition read_TTBR0 :: "'a mmu_scheme \<Rightarrow> u32" where "read_TTBR0 k = TTBR0 k"
definition write_TTBR0 :: "u32 \<Rightarrow> 'a mmu_scheme \<Rightarrow> 'a mmu_scheme" where "write_TTBR0 x k = k\<lparr>TTBR0 := x\<rparr>"
definition read_TTBCR :: "'a mmu_scheme \<Rightarrow> u32" where "read_TTBCR k = TTBCR k"
definition write_TTBCR :: "u32 \<Rightarrow> 'a mmu_scheme \<Rightarrow> 'a mmu_scheme" where "write_TTBCR x k = k\<lparr>TTBCR := x\<rparr>"
definition read_DACR :: "'a mmu_scheme \<Rightarrow> u32" where "read_DACR k = DACR k"
definition write_DACR :: "u32 \<Rightarrow> 'a mmu_scheme \<Rightarrow> 'a mmu_scheme" where "write_DACR x k = k\<lparr>DACR := x\<rparr>"

lemmas coprocessor [simp] = read_SCTLR_def write_SCTLR_def read_TTBR0_def write_TTBR0_def
  read_TTBCR_def write_TTBCR_def read_DACR_def write_DACR_def

definition set_SCTLR :: "'a mmu_scheme \<Rightarrow> 'a mmu_scheme" where
  "set_SCTLR k = (let
     s = read_SCTLR k;
     s = s AND NOT (push_bit 2 1);
     s = s AND NOT (push_bit 12 1);
     s = s OR 3
     in write_SCTLR s k)"

text \<open>The address of the table itself is the linker's.\<close>

definition mmu_init :: "u32 \<Rightarrow> 'a mmu_scheme \<Rightarrow> 'a mmu_scheme" where
  "mmu_init table_address k = (let
     k = kprintf (''.'' @ tab @ ''.'' @ tab @ ''initialize MMU'' @ tab @ ''.'' @ tab @ ''.'' @ nl) [] k;
     k = L1_TABLE_init k;
     k = write_TTBR0 table_address k;
     k = write_DACR 1 k;
     k = write_TTBCR 0 k
     in set_SCTLR k)"

subsection \<open>The table after initialisation\<close>

definition access_bits :: "nat \<Rightarrow> u32" where
  "access_bits i = (if i \<in> {1, 2, 3} then AP_ACTIVATE_SYS_ACCESS
     else if i = 6 then AP_ACTIVATE_BOTH_READ_ONLY
     else if 56 \<le> i \<and> i < 128 then 0
     else AP_ACTIVATE_FULL_ACCESS)"

lemma or_entry_length [simp]: "length (or_entry j v t) = length t"
  by (simp add: or_entry_def)

lemma or_entry_nth: "i < length t \<Longrightarrow> or_entry j v t ! i = (if i = j then t ! i OR v else t ! i)"
  by (simp add: or_entry_def nth_list_update)

lemmas init_step = L1_TABLE_init_def Let_def init_heap_sections_def init_process_sections_def each_entry_nth
  or_entry_nth nth_list_update section_consts access_bits_def ap_consts BASE_ADDRESS_SECTION_def L1_TABLE_Entry_def

lemma init_entries:
  assumes "length (L1_TABLE k) = 4096" "i < 4096"
  shows "L1_TABLE (L1_TABLE_init k) ! i =
    (push_bit 20 (of_nat i) AND BASE_ADDRESS_SECTION) OR L1_TABLE_Entry OR access_bits i"
proof -
  consider "i < 8" | "i = 0x3F0" | "i = 0x3F2" | "i = 0x400" | "8 \<le> i" "i < 16" | "16 \<le> i" "i < 48"
    | "48 \<le> i" "i < 56" | "56 \<le> i" "i < 128" | "128 \<le> i" "i \<noteq> 0x3F0" "i \<noteq> 0x3F2" "i \<noteq> 0x400"
    by linarith
  then show ?thesis
  proof cases
    case 1
    then have "i \<in> {0, 1, 2, 3, 4, 5, 6, 7}" by auto
    then show ?thesis using assms(1) by (elim insertE emptyE; simp add: init_step)
  qed (use assms in \<open>simp_all add: init_step or.assoc\<close>)
qed

subsection \<open>Reading entries\<close>

lemma bit_3: "bit (3 :: u32) i \<longleftrightarrow> i < 2"
proof -
  have m: "(3 :: u32) = mask 2" by (simp add: mask_eq_exp_minus_1)
  show ?thesis unfolding m bit_mask_iff by auto
qed

lemma entry_fields:
  assumes "b AND 0x000FFFFF = 0" "a < 0x100000"
  shows "(b OR a) AND PHYSICAL_ADDRESS_BITS = b" "AP_of (b OR a) = AP_of a"
proof -
  have m: "0xFFF00000 = NOT (mask 20 :: u32)" "0x000FFFFF = (mask 20 :: u32)"
    by (simp_all add: mask_eq_exp_minus_1)
  have bb: "\<not> bit b i" if "i < 20" for i
  proof
    assume "bit b i"
    then have "bit (b AND 0x000FFFFF) i" unfolding m using that by (simp add: bit_simps)
    then show False using assms(1) by simp
  qed
  have bb2: "20 \<le> i" if "bit b i" for i using bb that by (meson not_less)
  have am: "a AND mask 20 = a" using assms(2) by (intro less_mask_eq) simp
  have ba: "\<not> bit a i" if "20 \<le> i" for i
  proof -
    have "\<not> bit (a AND mask 20) i" using that by (simp add: bit_simps)
    then show ?thesis unfolding am .
  qed
  show "(b OR a) AND PHYSICAL_ADDRESS_BITS = b"
    unfolding PHYSICAL_ADDRESS_BITS_def m
    by (rule bit_word_eqI) (use ba bb2 in \<open>auto simp: bit_simps not_less\<close>)
  have d: "drop_bit j (b OR a) AND c = drop_bit j a AND c"
    if "j < 20" "\<forall>i. bit c i \<longrightarrow> i + j < 20" for j and c :: u32
    by (rule bit_word_eqI) (use ba bb that in \<open>auto simp: bit_simps add.commute\<close>)
  have c: "\<forall>i. bit (1 :: u32) i \<longrightarrow> i + 15 < 20" "\<forall>i. bit (3 :: u32) i \<longrightarrow> i + 10 < 20"
    unfolding bit_3 by (simp_all add: bit_1_iff)
  have "drop_bit 15 (b OR a) AND 1 = drop_bit 15 a AND 1" "drop_bit 10 (b OR a) AND 3 = drop_bit 10 a AND 3"
    by (rule d [OF _ c(1)], simp, rule d [OF _ c(2)], simp)
  then show "AP_of (b OR a) = AP_of a" by (simp only: AP_of_def)
qed

text \<open>An entry of the initialised table maps its section to itself.\<close>

lemma section_aligned: "(push_bit 20 x AND BASE_ADDRESS_SECTION) AND 0x000FFFFF = 0"
  "i < 4096 \<Longrightarrow> push_bit 20 (of_nat i) AND BASE_ADDRESS_SECTION = push_bit 20 (of_nat i :: u32)"
proof -
  have m: "BASE_ADDRESS_SECTION = NOT (mask 20)" "0x000FFFFF = (mask 20 :: u32)"
    by (simp_all add: mask_eq_exp_minus_1 BASE_ADDRESS_SECTION_def)
  show "(push_bit 20 x AND BASE_ADDRESS_SECTION) AND 0x000FFFFF = 0"
    unfolding m by (rule bit_word_eqI) (simp add: bit_simps)
  show "push_bit 20 (of_nat i) AND BASE_ADDRESS_SECTION = push_bit 20 (of_nat i :: u32)"
    unfolding m by (rule bit_word_eqI) (auto simp: bit_simps)
qed

lemma init_base:
  assumes "length (L1_TABLE k) = 4096" "i < 4096"
  shows "L1_TABLE (L1_TABLE_init k) ! i AND PHYSICAL_ADDRESS_BITS = push_bit 20 (of_nat i)"
    "AP_of (L1_TABLE (L1_TABLE_init k) ! i) = AP_of (access_bits i)"
    "L1_TABLE (L1_TABLE_init k) ! i AND 3 = 2"
proof -
  let ?a = "L1_TABLE_Entry OR access_bits i"
  have a: "?a < 0x100000" by (simp add: L1_TABLE_Entry_def access_bits_def ap_consts)
  note f = entry_fields [OF section_aligned(1) a, of "of_nat i"]
  show "L1_TABLE (L1_TABLE_init k) ! i AND PHYSICAL_ADDRESS_BITS = push_bit 20 (of_nat i)"
    using f(1) init_entries [OF assms] section_aligned(2) [OF assms(2)] by simp
  show "AP_of (L1_TABLE (L1_TABLE_init k) ! i) = AP_of (access_bits i)"
    using f(2) init_entries [OF assms]
    by (simp add: AP_of_def L1_TABLE_Entry_def access_bits_def ap_consts)
  have "(push_bit 20 (of_nat i) AND BASE_ADDRESS_SECTION) AND 3 = (0 :: u32)"
    by (rule bit_word_eqI, unfold bit_and_iff bit_3 bit_push_bit_iff) auto
  moreover have "?a AND 3 = 2" by (simp add: L1_TABLE_Entry_def access_bits_def ap_consts)
  ultimately show "L1_TABLE (L1_TABLE_init k) ! i AND 3 = 2"
    unfolding init_entries [OF assms] or.assoc by (simp add: bit.conj_disj_distrib2)
qed

lemma init_length [simp]: "length (L1_TABLE (L1_TABLE_init k)) = length (L1_TABLE k)"
  by (simp add: L1_TABLE_init_def Let_def init_heap_sections_def init_process_sections_def)

lemma init_template:
  assumes "length (L1_TABLE k) = 4096"
  shows "mmu_template (L1_TABLE_init k) = 0x608C02"
  using assms by (simp add: init_step)

subsection \<open>What the switch changes\<close>

lemma map_userdata_to_eq:
  assumes "length (L1_TABLE k) = 4096" "0 \<le> new" "new \<le> 4079"
  shows "map_userdata_to new k =
    Some (k\<lparr>L1_TABLE := (L1_TABLE k)[USER_DATA := L1_TABLE k ! nat new,
      USER_HEAP := (L1_TABLE k)[USER_DATA := L1_TABLE k ! nat new] ! (nat new + 16)]\<rparr>)"
proof -
  have "nat (new + 16) = nat new + 16" using assms by linarith
  then show ?thesis using assms by (simp add: map_userdata_to_def idx_def Let_def)
qed

lemma map_userdata_to_entries:
  assumes "length (L1_TABLE k) = 4096" "8 \<le> new" "new < 16" "map_userdata_to new k = Some k'"
  shows "L1_TABLE k' ! USER_DATA = L1_TABLE k ! nat new"
    "L1_TABLE k' ! USER_HEAP = L1_TABLE k ! (nat new + 16)"
    "i < 4096 \<Longrightarrow> i \<noteq> USER_DATA \<Longrightarrow> i \<noteq> USER_HEAP \<Longrightarrow> L1_TABLE k' ! i = L1_TABLE k ! i"
    "length (L1_TABLE k') = 4096" "pmem k' = pmem k" "mmu_template k' = mmu_template k"
  using assms map_userdata_to_eq [OF assms(1), of new] by (auto simp: section_consts nth_list_update)

subsection \<open>The copy\<close>

lemma phys_section:
  assumes "s < 4096" "r < 4096" "i < 1048576" "t ! s AND PHYSICAL_ADDRESS_BITS = push_bit 20 (of_nat r)"
  shows "phys t (of_nat (s * 1048576 + i)) = of_nat (r * 1048576 + i)"
proof -
  have e: "of_nat (x * 1048576 + i) = (push_bit 20 (of_nat x) OR of_nat i :: u32)" if "x < 4096" for x
  proof -
    have z: "(push_bit 20 (of_nat x) :: u32) AND of_nat i = 0"
    proof -
      have "of_nat i AND mask 20 = (of_nat i :: u32)"
        using assms(3) by (intro less_mask_eq) (simp add: word_less_nat_alt unat_of_nat_u32)
      then have "(push_bit 20 (of_nat x) :: u32) AND of_nat i = push_bit 20 (of_nat x) AND (of_nat i AND mask 20)"
        by simp
      also have "\<dots> = 0" by (rule bit_word_eqI, unfold bit_and_iff bit_push_bit_iff bit_mask_iff) auto
      finally show ?thesis .
    qed
    have "(push_bit 20 (of_nat x) OR of_nat i :: u32) = push_bit 20 (of_nat x) + of_nat i"
      using z by (simp add: disjunctive_add_eq_or)
    then show ?thesis by (simp add: push_bit_eq_mult mult.commute)
  qed
  have lt: "s * 1048576 + i < 4294967296" using assms(1,3) by simp
  have "unat (drop_bit 20 (of_nat (s * 1048576 + i) :: u32)) = (s * 1048576 + i) div 1048576"
    unfolding unat_drop_bit_eq unat_of_nat_u32 [OF lt] by (simp add: drop_bit_eq_div)
  then have d: "unat (drop_bit 20 (of_nat (s * 1048576 + i) :: u32)) = s"
    using assms(3) by simp
  have "unat (take_bit 20 (of_nat (s * 1048576 + i) :: u32)) = i"
    unfolding unsigned_take_bit_eq unat_of_nat_u32 [OF lt] using assms(3) by (simp add: take_bit_eq_mod)
  then have tk: "take_bit 20 (of_nat (s * 1048576 + i) :: u32) = of_nat i"
    using assms(3) by (simp add: word_unat_eq_iff unat_of_nat_u32 del: of_nat_add of_nat_mult)
  show ?thesis unfolding phys_def d tk assms(4) using e [OF assms(2)] by simp
qed

lemma kmemcpy_Suc:
  "kmemcpy t dest src (Suc n) m = (kmemcpy t dest src n m)(phys t (dest + of_nat n) :=
     kmemcpy t dest src n m (phys t (src + of_nat n)))"
  by (simp add: kmemcpy_def)

text \<open>Without overlap the copy moves every byte, and nothing else changes.\<close>

lemma kmemcpy_copies:
  assumes inj: "\<And>i j. i < n \<Longrightarrow> j < n \<Longrightarrow> i \<noteq> j \<Longrightarrow> phys t (dest + of_nat i) \<noteq> phys t (dest + of_nat j)"
    and sep: "\<And>i j. i < n \<Longrightarrow> j < n \<Longrightarrow> phys t (dest + of_nat i) \<noteq> phys t (src + of_nat j)"
  shows "\<forall>i < n. kmemcpy t dest src n m (phys t (dest + of_nat i)) = m (phys t (src + of_nat i))"
    "(\<And>i. i < n \<Longrightarrow> x \<noteq> phys t (dest + of_nat i)) \<Longrightarrow> kmemcpy t dest src n m x = m x"
proof -
  have "(\<forall>i < n. kmemcpy t dest src n m (phys t (dest + of_nat i)) = m (phys t (src + of_nat i))) \<and>
    (\<forall>x. (\<forall>i < n. x \<noteq> phys t (dest + of_nat i)) \<longrightarrow> kmemcpy t dest src n m x = m x)"
    using assms
  proof (induction n)
    case (Suc n)
    have IH: "\<forall>i < n. kmemcpy t dest src n m (phys t (dest + of_nat i)) = m (phys t (src + of_nat i))"
      "\<forall>x. (\<forall>i < n. x \<noteq> phys t (dest + of_nat i)) \<longrightarrow> kmemcpy t dest src n m x = m x"
      using Suc.IH Suc.prems by auto
    have "kmemcpy t dest src n m (phys t (src + of_nat n)) = m (phys t (src + of_nat n))"
      using IH(2) Suc.prems(2) by (metis lessI less_SucI)
    then show ?case using IH Suc.prems(1) by (auto simp: kmemcpy_Suc less_Suc_eq)
  qed (simp add: kmemcpy_def)
  then show "\<forall>i < n. kmemcpy t dest src n m (phys t (dest + of_nat i)) = m (phys t (src + of_nat i))"
    "(\<And>i. i < n \<Longrightarrow> x \<noteq> phys t (dest + of_nat i)) \<Longrightarrow> kmemcpy t dest src n m x = m x"
    by blast+
qed

text \<open>Wherever the source is, only the destination changes.\<close>

lemma kmemcpy_frame: "(\<And>i. i < n \<Longrightarrow> x \<noteq> phys t (dest + of_nat i)) \<Longrightarrow> kmemcpy t dest src n m x = m x"
  by (induction n) (simp_all add: kmemcpy_Suc, simp add: kmemcpy_def)

text \<open>The copy between two sections, whatever the table maps them to.\<close>

lemma kmemcpy_sections:
  fixes m :: mem
  assumes s: "s < 4096" "r < 4096" "t ! s AND PHYSICAL_ADDRESS_BITS = push_bit 20 (of_nat r)"
    and s': "s' < 4096" "r' < 4096" "t ! s' AND PHYSICAL_ADDRESS_BITS = push_bit 20 (of_nat r')"
    and ne: "r \<noteq> r'" and n: "n \<le> 1048576"
  defines "m' \<equiv> kmemcpy t (of_nat (s * 1048576)) (of_nat (s' * 1048576)) n m"
  shows "\<forall>i < n. m' (of_nat (r * 1048576 + i)) = m (of_nat (r' * 1048576 + i))"
    "a < 4294967296 \<Longrightarrow> \<not> (r * 1048576 \<le> a \<and> a < r * 1048576 + n) \<Longrightarrow> m' (of_nat a) = m (of_nat a)"
proof -
  have p: "phys t (of_nat (s * 1048576) + of_nat i) = of_nat (r * 1048576 + i)"
    "phys t (of_nat (s' * 1048576) + of_nat i) = of_nat (r' * 1048576 + i)" if "i < n" for i
    using phys_section [OF s(1,2) _ s(3), of i] phys_section [OF s'(1,2) _ s'(3), of i] that n by simp_all
  have lt: "r * 1048576 + i < 4294967296" "r' * 1048576 + i < 4294967296" if "i < n" for i
    using that n s(2) s'(2) by auto
  have inj: "(of_nat (r * 1048576 + i) :: u32) \<noteq> of_nat (r * 1048576 + j)" if "i < n" "j < n" "i \<noteq> j" for i j
    using of_nat_eq_iff_u32 [OF lt(1) [OF that(1)] lt(1) [OF that(2)]] that(3) by simp
  have sep: "(of_nat (r * 1048576 + i) :: u32) \<noteq> of_nat (r' * 1048576 + j)" if "i < n" "j < n" for i j
  proof -
    have "(r * 1048576 + i) div 1048576 = r" "(r' * 1048576 + j) div 1048576 = r'" using that n by simp_all
    then have "r * 1048576 + i \<noteq> r' * 1048576 + j" using ne by metis
    then show ?thesis using of_nat_eq_iff_u32 [OF lt(1) [OF that(1)] lt(2) [OF that(2)]] by blast
  qed
  have inj': "phys t (of_nat (s * 1048576) + of_nat i) \<noteq> phys t (of_nat (s * 1048576) + of_nat j)"
    if "i < n" "j < n" "i \<noteq> j" for i j
    unfolding p(1) [OF that(1)] p(1) [OF that(2)] by (rule inj [OF that])
  have sep': "phys t (of_nat (s * 1048576) + of_nat i) \<noteq> phys t (of_nat (s' * 1048576) + of_nat j)"
    if "i < n" "j < n" for i j
    unfolding p(1) [OF that(1)] p(2) [OF that(2)] by (rule sep [OF that])
  show "\<forall>i < n. m' (of_nat (r * 1048576 + i)) = m (of_nat (r' * 1048576 + i))"
  proof (intro allI impI)
    fix i assume i: "i < n"
    have "\<forall>i < n. m' (phys t (of_nat (s * 1048576) + of_nat i)) = m (phys t (of_nat (s' * 1048576) + of_nat i))"
      unfolding m'_def by (rule kmemcpy_copies(1) [OF inj' sep'])
    then show "m' (of_nat (r * 1048576 + i)) = m (of_nat (r' * 1048576 + i))"
      unfolding p(1) [OF i, symmetric] p(2) [OF i, symmetric] using i by blast
  qed
  show "m' (of_nat a) = m (of_nat a)" if a: "a < 4294967296" "\<not> (r * 1048576 \<le> a \<and> a < r * 1048576 + n)"
  proof -
    have ne: "(of_nat a :: u32) \<noteq> phys t (of_nat (s * 1048576) + of_nat i)" if "i < n" for i
      unfolding p(1) [OF that] using of_nat_eq_iff_u32 [OF a(1) lt(1) [OF that]] a(2) that by auto
    show ?thesis unfolding m'_def by (rule kmemcpy_copies(2) [OF inj' sep' ne])
  qed
qed

end
