(* ===== verification/Process.thy ===== *)
theory Process imports Mmu begin

text \<open>
  Processes and the scheduler's hooks: \<^verbatim>\<open>system/process.c\<close> and \<^verbatim>\<open>scheduler/scheduler.c\<close>. A process is
  a slot of \<open>process_array\<close> with its own data and heap section; \<open>thread_process_arr\<close> says which
  process a thread runs in. The scheduler itself is in the library \<^verbatim>\<open>out/e4.o\<close>: it calls the three
  hooks when a thread is created, ends, or is switched to. The system is a step relation that
  lets it call them in every order its interface allows.

  The code reads and writes \<open>process_array[-1]\<close> for threads without a process. What lies in front of
  the array is not said anywhere in the source, so that access is undefined like every other index
  outside an array of the kernel: the hook is \<open>None\<close> from there on.
\<close>

subsection \<open>State\<close>

record process =
  proc_id :: int
  reserved :: int
  data_address :: int
  threads_active :: int

record kernel = mmu +
  thread_process_arr :: "int list"
  process_array :: "process list"
  thread_stack_array :: "int list"
  scheduler_pid :: int

definition proc_at :: "int \<Rightarrow> kernel \<Rightarrow> process option" where
  "proc_at i k = idx (process_array k) i"

definition upd_proc :: "int \<Rightarrow> (process \<Rightarrow> process) \<Rightarrow> kernel \<Rightarrow> kernel option" where
  "upd_proc i f k = do {
     p \<leftarrow> idx (process_array k) i;
     ps \<leftarrow> upd (process_array k) i (f p);
     Some (k\<lparr>process_array := ps\<rparr>) }"

definition set_thread_process :: "int \<Rightarrow> int \<Rightarrow> kernel \<Rightarrow> kernel option" where
  "set_thread_process t p k = do {
     ts \<leftarrow> upd (thread_process_arr k) t p;
     Some (k\<lparr>thread_process_arr := ts\<rparr>) }"

subsection \<open>process.c\<close>

definition process_switch :: "int \<Rightarrow> kernel \<Rightarrow> kernel option" where
  "process_switch new k = do {
     p \<leftarrow> proc_at new k;
     map_userdata_to (data_address p) k }"

definition free_process :: "int \<Rightarrow> kernel \<Rightarrow> kernel option" where
  "free_process i k = upd_proc i (\<lambda>p. p\<lparr>reserved := 0\<rparr>) k"

fun find_free_from :: "nat list \<Rightarrow> kernel \<Rightarrow> int" where
  "find_free_from [] k = -1"
| "find_free_from (i # is) k =
     (if reserved (process_array k ! i) = 0 then int i else find_free_from is k)"

definition find_free_process_address :: "kernel \<Rightarrow> int" where
  "find_free_process_address k = find_free_from [0..<MAX_PROCESSES] k"

definition process_create :: "int \<Rightarrow> kernel \<Rightarrow> (int \<times> kernel) option" where
  "process_create parent_tid k = (let new_pid = find_free_process_address k in
     if new_pid = -1 then Some (-1, k)
     else do {
       k \<leftarrow> set_thread_process parent_tid new_pid k;
       k \<leftarrow> upd_proc new_pid (\<lambda>p. p\<lparr>reserved := 1\<rparr>) k;
       p \<leftarrow> proc_at new_pid k;
       k \<leftarrow> copy_userdata_template (data_address p) k;
       Some (new_pid, k) })"

definition get_process_id :: "int \<Rightarrow> kernel \<Rightarrow> int" where
  "get_process_id thread_id k =
     (if thread_id < 0 \<or> thread_id > 31 then -1 else thread_process_arr k ! nat thread_id)"

definition reset_thread_process_relation :: "int \<Rightarrow> kernel \<Rightarrow> kernel option" where
  "reset_thread_process_relation i k = set_thread_process i (-1) k"

definition init_thread_process_arr :: "kernel \<Rightarrow> kernel" where
  "init_thread_process_arr k = k\<lparr>thread_process_arr :=
     each_entry (\<lambda>_ _. -1) 0 MAX_THREADS (thread_process_arr k)\<rparr>"

definition init_processes_array :: "kernel \<Rightarrow> kernel" where
  "init_processes_array k = k\<lparr>process_array :=
     each_entry (\<lambda>i p. p\<lparr>proc_id := int i, reserved := 0, threads_active := 0, data_address := 8 + int i\<rparr>)
       0 MAX_PROCESSES (process_array k)\<rparr>"

definition init_thread_stack_arrays :: "kernel \<Rightarrow> kernel" where
  "init_thread_stack_arrays k = k\<lparr>thread_stack_array :=
     each_entry (\<lambda>i _. 8 + int i) 0 MAX_THREADS (thread_stack_array k)\<rparr>"

definition process_init :: "kernel \<Rightarrow> kernel" where
  "process_init k = (let
     k = kprintf (esc @ ''[1;30m ..... process init ....'' @ esc @ ''[0m'' @ nl) [] k;
     k = init_thread_process_arr k;
     k = init_processes_array k
     in init_thread_stack_arrays k)"

subsection \<open>scheduler.c\<close>

definition PARENT :: u32 where "PARENT = 0"
definition CHILD :: u32 where "CHILD = 1"

definition scheduler_on_exit :: "int \<Rightarrow> kernel \<Rightarrow> kernel option" where
  "scheduler_on_exit i k =
     (if i \<noteq> -1 \<and> i \<noteq> 1 then do {
        let pid = get_process_id i k;
        k \<leftarrow> upd_proc pid (\<lambda>p. p\<lparr>threads_active := threads_active p - 1\<rparr>) k;
        p \<leftarrow> proc_at pid k;
        k \<leftarrow> (if threads_active p \<le> 0 then free_process (get_process_id i k) k else Some k);
        reset_thread_process_relation i k }
      else Some k)"

definition scheduler_on_create :: "int \<Rightarrow> u32 \<Rightarrow> kernel \<Rightarrow> (int \<times> kernel) option" where
  "scheduler_on_create i flags k =
     (if i = -1 then Some (0, k)
      else if flags = PARENT then do {
        (pid, k) \<leftarrow> process_create i k;
        k \<leftarrow> upd_proc pid (\<lambda>p. p\<lparr>threads_active := threads_active p + 1\<rparr>) k;
        if pid = -1 then Some (-1, k) else Some (0, k\<lparr>scheduler_pid := pid\<rparr>) }
      else if flags = CHILD \<and> scheduler_pid k \<noteq> -1 then do {
        k \<leftarrow> set_thread_process i (scheduler_pid k) k;
        k \<leftarrow> upd_proc (scheduler_pid k) (\<lambda>p. p\<lparr>threads_active := threads_active p + 1\<rparr>) k;
        Some (0, k) }
      else Some (0, k))"

definition scheduler_on_schedule :: "int \<Rightarrow> int \<Rightarrow> kernel \<Rightarrow> kernel option" where
  "scheduler_on_schedule old next k =
     (if next = -1 then Some k
      else let old_pid = get_process_id old k; next_pid = get_process_id next k in
        if old_pid = next_pid then Some k else process_switch next_pid k)"

subsection \<open>The interface of an address-space switch\<close>

text \<open>
  What the scheduler relies on: switching to a process makes its sections the mapped ones and
  keeps the state well-formed. A scheduler that skips the switch between two threads of the same
  process is then right as long as it was right before.
\<close>

locale address_space =
  fixes ok :: "'s \<Rightarrow> bool"
    and pid_of :: "'s \<Rightarrow> int \<Rightarrow> int"
    and mapped :: "'s \<Rightarrow> int \<Rightarrow> bool"
    and switch :: "int \<Rightarrow> 's \<Rightarrow> 's option"
  assumes switch_maps: "ok s \<Longrightarrow> switch p s = Some s' \<Longrightarrow>
      ok s' \<and> pid_of s' = pid_of s \<and> (0 \<le> p \<longrightarrow> mapped s' p)"
begin

lemma lazy_switch:
  assumes "ok s" "0 \<le> pid_of s old \<Longrightarrow> mapped s (pid_of s old)"
    and "(if pid_of s old = pid_of s next then Some s else switch (pid_of s next) s) = Some s'"
  shows "ok s'" "pid_of s' = pid_of s" "0 \<le> pid_of s' next \<Longrightarrow> mapped s' (pid_of s' next)"
  using assms switch_maps [of s "pid_of s next" s'] by (auto split: if_splits)

end

subsection \<open>Well-formed kernels\<close>

definition section_entry :: "u32 \<Rightarrow> nat \<Rightarrow> bool" where
  "section_entry e s \<longleftrightarrow> e AND PHYSICAL_ADDRESS_BITS = push_bit 20 (of_nat s) \<and> AP_of e = 3"

definition kernel_ok :: "kernel \<Rightarrow> bool" where
  "kernel_ok k \<longleftrightarrow> length (L1_TABLE k) = 4096 \<and> length (thread_process_arr k) = 32 \<and>
     length (process_array k) = 8 \<and> 0 \<le> scheduler_pid k \<and> scheduler_pid k < 8 \<and>
     (\<forall>p < 8. data_address (process_array k ! p) = 8 + int p) \<and>
     (\<forall>t < 32. -1 \<le> thread_process_arr k ! t \<and> thread_process_arr k ! t < 8) \<and>
     (\<forall>i. 8 \<le> i \<and> i < 56 \<longrightarrow> section_entry (L1_TABLE k ! i) i)"

definition maps_process :: "kernel \<Rightarrow> int \<Rightarrow> bool" where
  "maps_process k p \<longleftrightarrow> section_entry (L1_TABLE k ! USER_DATA) (nat (8 + p)) \<and>
     section_entry (L1_TABLE k ! USER_HEAP) (nat (24 + p))"

lemma get_process_id_range:
  assumes "kernel_ok k"
  shows "-1 \<le> get_process_id t k \<and> get_process_id t k < 8"
proof (cases "t < 0 \<or> 31 < t")
  case False
  then have "nat t < 32" by linarith
  then show ?thesis using assms by (auto simp: kernel_ok_def get_process_id_def)
qed (simp add: get_process_id_def)

lemma kernel_ok_section: "kernel_ok k \<Longrightarrow> 8 \<le> i \<Longrightarrow> i < 56 \<Longrightarrow> section_entry (L1_TABLE k ! i) i"
  by (simp add: kernel_ok_def)

lemma map_userdata_to_Some:
  assumes "map_userdata_to new k = Some k'"
  obtains d e where "k' = k\<lparr>L1_TABLE := (L1_TABLE k)[USER_DATA := d, USER_HEAP := e]\<rparr>"
  using assms by (auto simp: map_userdata_to_def Let_def split: bind_splits)

lemma process_switch_maps:
  assumes ok: "kernel_ok k" and sw: "process_switch p k = Some k'"
  shows "kernel_ok k' \<and> (\<lambda>t. get_process_id t k') = (\<lambda>t. get_process_id t k) \<and> (0 \<le> p \<longrightarrow> maps_process k' p)"
proof -
  obtain q where q: "proc_at p k = Some q" "map_userdata_to (data_address q) k = Some k'"
    using sw by (auto simp: process_switch_def split: bind_splits)
  obtain d e where k': "k' = k\<lparr>L1_TABLE := (L1_TABLE k)[USER_DATA := d, USER_HEAP := e]\<rparr>"
    using map_userdata_to_Some [OF q(2)] .
  have "kernel_ok k'" using ok by (auto simp: kernel_ok_def k' section_consts)
  moreover have "maps_process k' p" if "0 \<le> p"
  proof -
    have p: "p < 8" "data_address q = 8 + p"
      using q(1) that ok by (auto simp: proc_at_def idx_Some kernel_ok_def)
    have "8 \<le> 8 + p" "8 + p < 16" "length (L1_TABLE k) = 4096" using that p ok by (auto simp: kernel_ok_def)
    note m = map_userdata_to_entries [OF this(3,1,2) q(2) [unfolded p(2)]]
    have "nat (8 + p) + 16 = nat (24 + p)" "8 \<le> nat (8 + p)" "nat (24 + p) < 56" using that p(1) by linarith+
    then show ?thesis
      using m(1,2) kernel_ok_section [OF ok, of "nat (8 + p)"] kernel_ok_section [OF ok, of "nat (24 + p)"]
      by (simp add: maps_process_def)
  qed
  ultimately show ?thesis by (auto simp: k' get_process_id_def)
qed

interpretation sections: address_space kernel_ok "\<lambda>k t. get_process_id t k" maps_process process_switch
  by unfold_locales (rule process_switch_maps)

subsection \<open>The hooks keep a well-formed kernel\<close>

lemma upd_proc_ok:
  assumes "kernel_ok k" "upd_proc i f k = Some k'" "\<And>p. data_address (f p) = data_address p"
  shows "kernel_ok k'" "thread_process_arr k' = thread_process_arr k" "L1_TABLE k' = L1_TABLE k"
    "scheduler_pid k' = scheduler_pid k" "pmem k' = pmem k"
  using assms
  by (auto simp: upd_proc_def upd_Some idx_Some kernel_ok_def nth_list_update split: if_splits bind_splits)

lemma set_thread_process_ok:
  assumes "kernel_ok k" "set_thread_process t p k = Some k'" "-1 \<le> p" "p < 8"
  shows "kernel_ok k'" "L1_TABLE k' = L1_TABLE k" "scheduler_pid k' = scheduler_pid k"
    "get_process_id t' k' = (if t' = t then p else get_process_id t' k)"
proof -
  have e: "k' = k\<lparr>thread_process_arr := (thread_process_arr k)[nat t := p]\<rparr>" "0 \<le> t" "t < 32"
    using assms(1,2) by (auto simp: set_thread_process_def upd_Some kernel_ok_def split: bind_splits)
  show "kernel_ok k'" "L1_TABLE k' = L1_TABLE k" "scheduler_pid k' = scheduler_pid k"
    using assms e by (auto simp: kernel_ok_def nth_list_update)
  show "get_process_id t' k' = (if t' = t then p else get_process_id t' k)"
    using e assms(1) by (auto simp: get_process_id_def kernel_ok_def nth_list_update nat_eq_iff)
qed

lemma copy_userdata_ok:
  assumes "kernel_ok k" "copy_userdata_template a k = Some k'"
  shows "kernel_ok k'" "L1_TABLE k' = L1_TABLE k" "thread_process_arr k' = thread_process_arr k"
    "scheduler_pid k' = scheduler_pid k" "process_array k' = process_array k"
  using assms by (auto simp: copy_userdata_template_def kernel_ok_def split: bind_splits)

lemma find_free_from_range:
  "find_free_from is k = -1 \<or> (\<exists>i \<in> set is. find_free_from is k = int i \<and> reserved (process_array k ! i) = 0)"
  by (induction "is" k rule: find_free_from.induct) auto

lemma find_free_process_range:
  "find_free_process_address k = -1 \<or>
     (0 \<le> find_free_process_address k \<and> find_free_process_address k < 8 \<and>
      reserved (process_array k ! nat (find_free_process_address k)) = 0)"
  using find_free_from_range [of "[0..<8]" k] by (auto simp: find_free_process_address_def MAX_PROCESSES_def)

lemma get_process_id_cong: "thread_process_arr k' = thread_process_arr k \<Longrightarrow> get_process_id t k' = get_process_id t k"
  by (simp add: get_process_id_def)

lemma process_create_ok:
  assumes "kernel_ok k" "process_create t k = Some (pid, k')"
  shows "kernel_ok k'" "L1_TABLE k' = L1_TABLE k" "-1 \<le> pid" "pid < 8"
    "t' \<noteq> t \<Longrightarrow> get_process_id t' k' = get_process_id t' k"
proof -
  have "kernel_ok k' \<and> L1_TABLE k' = L1_TABLE k \<and> -1 \<le> pid \<and> pid < 8 \<and>
    (\<forall>t'. t' \<noteq> t \<longrightarrow> get_process_id t' k' = get_process_id t' k)"
  proof (cases "find_free_process_address k = -1")
    case True
    then show ?thesis using assms by (simp add: process_create_def)
  next
    case False
    then have r: "0 \<le> find_free_process_address k" "find_free_process_address k < 8"
      using find_free_process_range [of k] by auto
    obtain k1 k2 and p :: process where s: "set_thread_process t (find_free_process_address k) k = Some k1"
        "upd_proc (find_free_process_address k) (\<lambda>p. p\<lparr>reserved := 1\<rparr>) k1 = Some k2"
        "copy_userdata_template (data_address p) k2 = Some k'" "pid = find_free_process_address k"
      using assms(2) False by (simp add: process_create_def Let_def bind_eq_Some_conv) metis
    note o1 = set_thread_process_ok [OF assms(1) s(1) _ r(2)]
    have ok1: "kernel_ok k1" using o1(1) r by auto
    have d: "data_address (p\<lparr>reserved := 1\<rparr>) = data_address p" for p :: process by simp
    note o2 = upd_proc_ok [OF ok1 s(2) d]
    have ok2: "kernel_ok k2" using o2(1) by simp
    note o3 = copy_userdata_ok [OF ok2 s(3)]
    have arr: "thread_process_arr k' = thread_process_arr k1" using o3(3) o2(2) by simp
    have "get_process_id t' k' = get_process_id t' k" if "t' \<noteq> t" for t'
      using get_process_id_cong [OF arr, of t'] o1(4) [of t'] that r(1) by simp
    moreover have "L1_TABLE k' = L1_TABLE k" using o3(2) o2(3) o1(2) r(1) by simp
    ultimately show ?thesis using o3(1) s(4) r by simp
  qed
  then show "kernel_ok k'" "L1_TABLE k' = L1_TABLE k" "-1 \<le> pid" "pid < 8"
    "t' \<noteq> t \<Longrightarrow> get_process_id t' k' = get_process_id t' k" by auto
qed

lemma scheduler_on_create_ok:
  assumes "kernel_ok k" "scheduler_on_create t flags k = Some (r, k')"
  shows "kernel_ok k'" "L1_TABLE k' = L1_TABLE k"
    "t' \<noteq> t \<Longrightarrow> get_process_id t' k' = get_process_id t' k"
proof -
  have "kernel_ok k' \<and> L1_TABLE k' = L1_TABLE k \<and>
    (\<forall>t'. t' \<noteq> t \<longrightarrow> get_process_id t' k' = get_process_id t' k)"
  proof (cases "t = -1 \<or> (flags \<noteq> PARENT \<and> \<not> (flags = CHILD \<and> scheduler_pid k \<noteq> -1))")
    case True
    then show ?thesis using assms by (auto simp: scheduler_on_create_def split: if_splits)
  next
    case False
    have d: "data_address (p\<lparr>threads_active := threads_active p + 1\<rparr>) = data_address p" for p :: process by simp
    show ?thesis
    proof (cases "flags = PARENT")
      case True
      have code: "process_create t k \<bind> (\<lambda>(pid, k).
          upd_proc pid (\<lambda>p. p\<lparr>threads_active := threads_active p + 1\<rparr>) k \<bind>
          (\<lambda>k. if pid = -1 then Some (-1, k) else Some (0, k\<lparr>scheduler_pid := pid\<rparr>))) = Some (r, k')"
        using assms(2) True False by (simp add: scheduler_on_create_def)
      then obtain pc where "process_create t k = Some pc" by (cases "process_create t k") simp_all
      moreover obtain pid k1 where "pc = (pid, k1)" by (cases pc)
      ultimately have s1: "process_create t k = Some (pid, k1)" by simp
      obtain k2 where s2: "upd_proc pid (\<lambda>p. p\<lparr>threads_active := threads_active p + 1\<rparr>) k1 = Some k2"
        using code by (cases "upd_proc pid (\<lambda>p. p\<lparr>threads_active := threads_active p + 1\<rparr>) k1") (simp_all add: s1)
      have s3: "(if pid = -1 then Some (-1, k2) else Some (0, k2\<lparr>scheduler_pid := pid\<rparr>)) = Some (r, k')"
        using code by (simp add: s1 s2)
      note s = s1 s2 s3
      note o1 = process_create_ok [OF assms(1) s(1)]
      note o2 = upd_proc_ok [OF o1(1) s(2) d]
      have ok2: "kernel_ok k2" "L1_TABLE k2 = L1_TABLE k" using o1(2) o2(1,3) by simp_all
      have t2: "get_process_id t' k2 = get_process_id t' k" if "t' \<noteq> t" for t'
        using get_process_id_cong [of k2 k1 t'] o2(2) o1(5) [OF that] by simp
      show ?thesis
      proof (cases "pid = -1")
        case True
        then show ?thesis using s(3) ok2 t2 by simp
      next
        case False
        then have k': "k' = k2\<lparr>scheduler_pid := pid\<rparr>" using s(3) by simp
        moreover have "kernel_ok k'" using ok2(1) o1(3,4) False by (simp add: kernel_ok_def k')
        moreover have "get_process_id t' k' = get_process_id t' k2" for t'
          by (rule get_process_id_cong) (simp add: k')
        ultimately show ?thesis using ok2 t2 by simp
      qed
    next
      case c: False
      obtain k1 where s: "set_thread_process t (scheduler_pid k) k = Some k1"
          "upd_proc (scheduler_pid k) (\<lambda>p. p\<lparr>threads_active := threads_active p + 1\<rparr>) k1 = Some k'"
        using assms(2) c False
        by (auto simp: scheduler_on_create_def set_thread_process_def bind_eq_Some_conv)
      have r: "-1 \<le> scheduler_pid k" "scheduler_pid k < 8" using assms(1) by (auto simp: kernel_ok_def)
      note o1 = set_thread_process_ok [OF assms(1) s(1) r]
      note o2 = upd_proc_ok [OF o1(1) s(2) d]
      show ?thesis using o1 o2 get_process_id_cong [of k' k1] by auto
    qed
  qed
  then show "kernel_ok k'" "L1_TABLE k' = L1_TABLE k"
    "t' \<noteq> t \<Longrightarrow> get_process_id t' k' = get_process_id t' k" by auto
qed

lemma scheduler_on_exit_ok:
  assumes "kernel_ok k" "scheduler_on_exit t k = Some k'"
  shows "kernel_ok k'" "L1_TABLE k' = L1_TABLE k"
    "t \<noteq> -1 \<Longrightarrow> t \<noteq> 1 \<Longrightarrow> get_process_id t k' = -1"
    "t' \<noteq> t \<or> t = -1 \<or> t = 1 \<Longrightarrow> get_process_id t' k' = get_process_id t' k"
proof -
  have "kernel_ok k' \<and> L1_TABLE k' = L1_TABLE k \<and> (t \<noteq> -1 \<and> t \<noteq> 1 \<longrightarrow> get_process_id t k' = -1) \<and>
    (\<forall>t'. t' \<noteq> t \<or> t = -1 \<or> t = 1 \<longrightarrow> get_process_id t' k' = get_process_id t' k)"
  proof (cases "t = -1 \<or> t = 1")
    case True
    then show ?thesis using assms by (auto simp: scheduler_on_exit_def)
  next
    case False
    obtain k1 k2 and p :: process where s: "upd_proc (get_process_id t k) (\<lambda>p. p\<lparr>threads_active := threads_active p - 1\<rparr>) k = Some k1"
        "(if threads_active p \<le> 0 then free_process (get_process_id t k1) k1 else Some k1) = Some k2"
        "set_thread_process t (-1) k2 = Some k'"
      using assms(2) False
      by (simp add: scheduler_on_exit_def Let_def reset_thread_process_relation_def bind_eq_Some_conv) metis
    have d: "data_address (p\<lparr>threads_active := threads_active p - 1\<rparr>) = data_address p"
      "data_address (p\<lparr>reserved := 0\<rparr>) = data_address p" for p :: process by simp_all
    note o1 = upd_proc_ok [OF assms(1) s(1) d(1)]
    have ok1: "kernel_ok k1" using o1(1) by simp
    have o2: "kernel_ok k2" "L1_TABLE k2 = L1_TABLE k1" "thread_process_arr k2 = thread_process_arr k1"
      using s(2) ok1 upd_proc_ok [OF ok1 _ d(2)] by (auto simp: free_process_def split: if_splits)
    note o3 = set_thread_process_ok [OF o2(1) s(3)]
    have t': "get_process_id t' k' = (if t' = t then -1 else get_process_id t' k)" for t'
      using o3(4) [of t'] get_process_id_cong [of k2 k t'] o2(3) o1(2) by simp
    show ?thesis using o1(3) o2(2) o3(1,2) t' False by simp
  qed
  then show "kernel_ok k'" "L1_TABLE k' = L1_TABLE k"
    "t \<noteq> -1 \<Longrightarrow> t \<noteq> 1 \<Longrightarrow> get_process_id t k' = -1"
    "t' \<noteq> t \<or> t = -1 \<or> t = 1 \<Longrightarrow> get_process_id t' k' = get_process_id t' k" by auto
qed

lemma scheduler_on_schedule_ok:
  assumes "kernel_ok k" "scheduler_on_schedule old next k = Some k'"
    and "0 \<le> get_process_id old k \<Longrightarrow> maps_process k (get_process_id old k)"
  shows "kernel_ok k'" "next \<noteq> -1 \<Longrightarrow> 0 \<le> get_process_id next k' \<Longrightarrow> maps_process k' (get_process_id next k')"
proof -
  have "kernel_ok k' \<and> (next \<noteq> -1 \<longrightarrow> 0 \<le> get_process_id next k' \<longrightarrow> maps_process k' (get_process_id next k'))"
  proof (cases "next = -1")
    case False
    then have "(if get_process_id old k = get_process_id next k then Some k
        else process_switch (get_process_id next k) k) = Some k'"
      using assms(2) by (simp add: scheduler_on_schedule_def Let_def)
    note l = sections.lazy_switch [OF assms(1) assms(3) this]
    show ?thesis using l(1,3) by blast
  qed (use assms in \<open>simp add: scheduler_on_schedule_def\<close>)
  then show "kernel_ok k'" "next \<noteq> -1 \<Longrightarrow> 0 \<le> get_process_id next k' \<Longrightarrow> maps_process k' (get_process_id next k')"
    by auto
qed

end
