(* ===== verification/Address_Spaces.thy ===== *)
theory Address_Spaces imports Process begin

text \<open>
  The system the hooks of \<^verbatim>\<open>scheduler/scheduler.c\<close> are part of: the library's scheduler creates,
  ends and switches threads, and calls a hook at each step. A hook that would leave an array of the
  kernel is undefined, and the run has no step there. In every state it can reach, the
  user data and the heap section that are mapped are those of the process of the current thread.
\<close>

subsection \<open>Steps\<close>

record sys =
  kern :: kernel
  alive :: "int set"
  current :: int

text \<open>
  A thread is created by the thread that runs, or by the kernel before any runs; its number is
  free. The thread that ends is the current one. The next thread is one of the living, or the
  idle thread \<open>-1\<close>.
\<close>

inductive sys_step :: "sys \<Rightarrow> sys \<Rightarrow> bool" where
  create: "current s \<in> alive s \<or> current s = -1 \<Longrightarrow> t \<notin> alive s \<Longrightarrow> 0 \<le> t \<Longrightarrow> t < 32 \<Longrightarrow>
     scheduler_on_create t flags (kern s) = Some (r, k) \<Longrightarrow>
     sys_step s (s\<lparr>kern := k, alive := if r = 0 then insert t (alive s) else alive s\<rparr>)"
| exit: "current s \<in> alive s \<Longrightarrow> scheduler_on_exit (current s) (kern s) = Some k \<Longrightarrow>
     sys_step s (s\<lparr>kern := k, alive := alive s - {current s}\<rparr>)"
| schedule: "next \<in> alive s \<or> next = -1 \<Longrightarrow> scheduler_on_schedule (current s) next (kern s) = Some k \<Longrightarrow>
     sys_step s (s\<lparr>kern := k, current := next\<rparr>)"

inductive_cases sys_stepE: "sys_step s s'"

inductive reachable :: "sys \<Rightarrow> sys \<Rightarrow> bool" for s0 where
  start: "reachable s0 s0"
| step: "reachable s0 s \<Longrightarrow> sys_step s s' \<Longrightarrow> reachable s0 s'"

text \<open>The state in which \<open>init\<close> leaves the kernel, run by thread \<open>t\<close>.\<close>

definition boot_kernel :: "u32 \<Rightarrow> kernel \<Rightarrow> kernel" where
  "boot_kernel table_address k = process_init (mmu_init table_address k)"

definition boot_sys :: "u32 \<Rightarrow> int \<Rightarrow> kernel \<Rightarrow> sys" where
  "boot_sys table_address t k = \<lparr>kern = boot_kernel table_address k, alive = {t}, current = t\<rparr>"

text \<open>What the linker guarantees of the kernel's variables: their sizes, and zero in \<open>.bss\<close>.\<close>

definition kernel_loaded :: "kernel \<Rightarrow> bool" where
  "kernel_loaded k \<longleftrightarrow> length (L1_TABLE k) = 4096 \<and> length (thread_process_arr k) = 32 \<and>
     length (process_array k) = 8 \<and> length (thread_stack_array k) = 32 \<and> scheduler_pid k = 0"

subsection \<open>The kernel after init\<close>

lemma mmu_init_table: "L1_TABLE (mmu_init a k) = L1_TABLE (L1_TABLE_init k)"
proof -
  have "L1_TABLE (L1_TABLE_init (kprintf f args k)) = L1_TABLE (L1_TABLE_init k)" for f args
    by (simp add: L1_TABLE_init_def kprintf_def Let_def)
  then show ?thesis by (simp add: mmu_init_def set_SCTLR_def Let_def)
qed

lemma mmu_init_more: "mmu.more (mmu_init a k) = mmu.more k"
  by (simp add: mmu_init_def set_SCTLR_def L1_TABLE_init_def kprintf_def Let_def)

lemma mmu_init_fields:
  fixes k :: kernel
  shows "thread_process_arr (mmu_init a k) = thread_process_arr k" "process_array (mmu_init a k) = process_array k"
    "scheduler_pid (mmu_init a k) = scheduler_pid k" "thread_stack_array (mmu_init a k) = thread_stack_array k"
  by (simp_all add: mmu_init_def set_SCTLR_def L1_TABLE_init_def kprintf_def Let_def)

lemma boot_kernel_ok:
  assumes "kernel_loaded k"
  shows "kernel_ok (boot_kernel a k)" "get_process_id t (boot_kernel a k) = -1"
    "p < 8 \<Longrightarrow> threads_active (process_array (boot_kernel a k) ! p) = 0"
    "p < 8 \<Longrightarrow> reserved (process_array (boot_kernel a k) ! p) = 0"
proof -
  have l: "length (L1_TABLE k) = 4096" "length (thread_process_arr k) = 32" "length (process_array k) = 8"
    "scheduler_pid k = 0" using assms by (auto simp: kernel_loaded_def)
  have sec: "section_entry (L1_TABLE (L1_TABLE_init k) ! i) i" if "8 \<le> i" "i < 56" for i
    using init_base(1,2) [OF l(1), of i] that
    by (simp add: section_entry_def access_bits_def ap_consts AP_of_def)
  show "kernel_ok (boot_kernel a k)"
    using l sec
    by (simp add: kernel_ok_def boot_kernel_def process_init_def init_thread_process_arr_def
      init_processes_array_def init_thread_stack_arrays_def kprintf_def Let_def mmu_init_table
      mmu_init_fields each_entry_nth MAX_PROCESSES_def MAX_THREADS_def)
  show "get_process_id t (boot_kernel a k) = -1"
  proof (cases "t < 0 \<or> 31 < t")
    case False
    then have "nat t < 32" by linarith
    then show ?thesis using l
      by (simp add: get_process_id_def boot_kernel_def process_init_def init_thread_process_arr_def
        init_processes_array_def init_thread_stack_arrays_def kprintf_def Let_def
        mmu_init_fields each_entry_nth MAX_PROCESSES_def MAX_THREADS_def)
  qed (simp add: get_process_id_def)
  show "p < 8 \<Longrightarrow> threads_active (process_array (boot_kernel a k) ! p) = 0"
    "p < 8 \<Longrightarrow> reserved (process_array (boot_kernel a k) ! p) = 0"
    using l by (simp_all add: boot_kernel_def process_init_def init_thread_process_arr_def
      init_processes_array_def init_thread_stack_arrays_def kprintf_def Let_def
      mmu_init_fields each_entry_nth MAX_PROCESSES_def)
qed

subsection \<open>The invariant\<close>

definition sys_inv :: "sys \<Rightarrow> bool" where
  "sys_inv s \<longleftrightarrow> kernel_ok (kern s) \<and> alive s \<subseteq> {0..<32} \<and>
     (0 \<le> get_process_id (current s) (kern s) \<longrightarrow>
        maps_process (kern s) (get_process_id (current s) (kern s)))"

lemma maps_process_cong: "L1_TABLE k' = L1_TABLE k \<Longrightarrow> maps_process k' p = maps_process k p"
  by (simp add: maps_process_def)

lemma sys_step_inv:
  assumes "sys_step s s'" "sys_inv s"
  shows "sys_inv s'"
  using assms
proof (cases rule: sys_step.cases)
  case (create t flags r k)
  have ok: "kernel_ok (kern s)" "alive s \<subseteq> {0..<32}" using assms(2) by (auto simp: sys_inv_def)
  note h = scheduler_on_create_ok [OF ok(1) create(6)]
  have "current s \<noteq> t" using create(2,3,4) by auto
  then have "get_process_id (current s) k = get_process_id (current s) (kern s)" by (rule h(3))
  then show ?thesis
    using h(1,2) ok(2) create(1,4,5) assms(2) maps_process_cong [OF h(2)] by (auto simp: sys_inv_def)
next
  case (exit k)
  have ok: "kernel_ok (kern s)" "alive s \<subseteq> {0..<32}" using assms(2) by (auto simp: sys_inv_def)
  note h = scheduler_on_exit_ok [OF ok(1) exit(3)]
  show ?thesis
  proof (cases "current s = -1 \<or> current s = 1")
    case True
    then have "get_process_id (current s) k = get_process_id (current s) (kern s)" by (intro h(4)) auto
    then show ?thesis using h(1,2) ok(2) exit(1) assms(2) maps_process_cong [OF h(2)] by (auto simp: sys_inv_def)
  next
    case False
    then have "get_process_id (current s) k = -1" using h(3) by auto
    then show ?thesis using h(1) ok(2) exit(1) by (auto simp: sys_inv_def)
  qed
next
  case (schedule "next" k)
  have ok: "kernel_ok (kern s)" "alive s \<subseteq> {0..<32}"
    "0 \<le> get_process_id (current s) (kern s) \<Longrightarrow> maps_process (kern s) (get_process_id (current s) (kern s))"
    using assms(2) by (auto simp: sys_inv_def)
  note h = scheduler_on_schedule_ok [OF ok(1) schedule(3) ok(3)]
  show ?thesis
  proof (cases "next = -1")
    case True
    then show ?thesis using h(1) ok(2) schedule(1) by (simp add: sys_inv_def get_process_id_def)
  next
    case False
    then show ?thesis using h ok(2) schedule(1) by (simp add: sys_inv_def)
  qed
qed

lemma boot_sys_inv:
  assumes "kernel_loaded k" "0 \<le> t" "t < 32"
  shows "sys_inv (boot_sys a t k)"
  using boot_kernel_ok(1,2) [OF assms(1)] assms by (simp add: sys_inv_def boot_sys_def)

lemma reachable_inv:
  assumes "reachable (boot_sys a t k) s" "kernel_loaded k" "0 \<le> t" "t < 32"
  shows "sys_inv s"
  using assms(1) by induction (use boot_sys_inv assms sys_step_inv in auto)

end
