(* ===== verification/Process_Count.thy ===== *)
theory Process_Count imports Address_Spaces "HOL-Library.Multiset" begin

text \<open>
  The bookkeeping of \<^verbatim>\<open>scheduler/scheduler.c\<close>: \<open>threads_active\<close> of a process is the number of
  threads that point to it, and its slot is reserved exactly while there is one. The hooks keep
  this for threads that enter a process once and leave it once.
\<close>

definition threads_of :: "kernel \<Rightarrow> int \<Rightarrow> nat" where
  "threads_of k p = count (mset (thread_process_arr k)) p"

definition counts_ok :: "kernel \<Rightarrow> bool" where
  "counts_ok k \<longleftrightarrow> (\<forall>p < 8. threads_active (process_array k ! p) = int (threads_of k (int p)) \<and>
     reserved (process_array k ! p) = (if threads_of k (int p) = 0 then 0 else 1))"

lemma threads_of_update:
  assumes "t < length (thread_process_arr k)"
  shows "int (threads_of (k\<lparr>thread_process_arr := (thread_process_arr k)[t := q]\<rparr>) p) =
    int (threads_of k p) - (if thread_process_arr k ! t = p then 1 else 0) + (if q = p then 1 else 0)"
proof -
  have "thread_process_arr k ! t \<in># mset (thread_process_arr k)" using assms by simp
  then have "0 < count (mset (thread_process_arr k)) (thread_process_arr k ! t)" by simp
  then show ?thesis using assms by (auto simp: threads_of_def mset_update)
qed

lemma set_thread_Some:
  assumes "kernel_ok k" "0 \<le> t" "t < 32"
  shows "set_thread_process t p k = Some (k\<lparr>thread_process_arr := (thread_process_arr k)[nat t := p]\<rparr>)"
  using assms by (simp add: set_thread_process_def upd_def kernel_ok_def)

lemma upd_proc_in:
  assumes "length (process_array k) = 8" "0 \<le> p" "p < 8"
  shows "upd_proc p f k = Some (k\<lparr>process_array := (process_array k)[nat p := f (process_array k ! nat p)]\<rparr>)"
    "proc_at p k = Some (process_array k ! nat p)"
  using assms by (simp_all add: upd_proc_def upd_def idx_def proc_at_def)

lemma find_free_lower: "p \<in> set is \<Longrightarrow> reserved (process_array k ! p) = 0 \<Longrightarrow> find_free_from is k \<noteq> -1"
  by (induction "is" k rule: find_free_from.induct) auto

lemma find_free_all_reserved:
  "find_free_process_address k = -1 \<longleftrightarrow> (\<forall>p < 8. reserved (process_array k ! p) \<noteq> 0)"
  using find_free_from_range [of "[0..<8]" k] find_free_lower [of _ "[0..<8]" k]
  by (auto simp: find_free_process_address_def MAX_PROCESSES_def)

subsection \<open>When the hooks stay within the arrays\<close>

lemma upd_proc_defined:
  assumes "kernel_ok k" "0 \<le> p" "p < 8"
  shows "\<exists>k'. upd_proc p f k = Some k'" "\<exists>q. proc_at p k = Some q"
  using assms by (auto simp: upd_proc_def proc_at_def upd_def idx_def kernel_ok_def)

lemma copy_userdata_defined:
  assumes "kernel_ok k" "0 \<le> a" "a < 4096"
  shows "\<exists>k'. copy_userdata_template a k = Some k'"
  using assms by (simp add: copy_userdata_template_def idx_def kernel_ok_def)

lemma process_create_defined:
  assumes "kernel_ok k" "0 \<le> t" "t < 32"
  shows "\<exists>pid k'. process_create t k = Some (pid, k')"
proof (cases "find_free_process_address k = -1")
  case False
  define p where "p = find_free_process_address k"
  have p: "0 \<le> p" "p < 8" using find_free_process_range [of k] False by (auto simp: p_def)
  obtain k1 where k1: "set_thread_process t p k = Some k1" using set_thread_Some [OF assms] by blast
  have ok1: "kernel_ok k1" using set_thread_process_ok(1) [OF assms(1) k1] p by simp
  obtain k2 where k2: "upd_proc p (\<lambda>p. p\<lparr>reserved := 1\<rparr>) k1 = Some k2"
    using upd_proc_defined(1) [OF ok1] p by fastforce
  have ok2: "kernel_ok k2" using upd_proc_ok(1) [OF ok1 k2] by simp
  then have q: "proc_at p k2 = Some (process_array k2 ! nat p)" "data_address (process_array k2 ! nat p) = 8 + p"
    using p by (simp_all add: upd_proc_in kernel_ok_def)
  obtain k3 where "copy_userdata_template (8 + p) k2 = Some k3" using copy_userdata_defined [OF ok2, of "8 + p"] p by auto
  then show ?thesis using False k1 k2 q by (simp add: process_create_def Let_def p_def [symmetric])
qed (simp add: process_create_def)

lemma upd_proc_before: "upd_proc (-1) f k = None" "proc_at (-1) k = None"
  by (simp_all add: upd_proc_def proc_at_def idx_def)

lemma create_defined:
  assumes "kernel_ok k" "-1 \<le> t" "t < 32" "flags = PARENT \<Longrightarrow> t \<noteq> -1 \<Longrightarrow> find_free_process_address k \<noteq> -1"
  shows "\<exists>r k'. scheduler_on_create t flags k = Some (r, k')"
proof -
  consider "t = -1" | "0 \<le> t" "flags = PARENT" | "0 \<le> t" "flags \<noteq> PARENT" using assms(2) by linarith
  then show ?thesis
  proof cases
    case 2
    obtain pid k1 where k1: "process_create t k = Some (pid, k1)" using process_create_defined [OF assms(1) 2(1) assms(3)] by blast
    note o = process_create_ok [OF assms(1) k1]
    have "pid = find_free_process_address k" "find_free_process_address k \<noteq> -1"
      using k1 assms(4) 2 by (auto simp: process_create_def Let_def split: if_splits bind_splits)
    then have "0 \<le> pid" using find_free_process_range [of k] by simp
    obtain k2 where "upd_proc pid (\<lambda>p. p\<lparr>threads_active := threads_active p + 1\<rparr>) k1 = Some k2"
      using upd_proc_defined(1) [OF o(1) \<open>0 \<le> pid\<close> o(4)] by blast
    then show ?thesis using 2 k1 by (simp add: scheduler_on_create_def)
  next
    case 3
    have r: "0 \<le> scheduler_pid k" "scheduler_pid k < 8" using assms(1) by (auto simp: kernel_ok_def)
    obtain k1 where k1: "set_thread_process t (scheduler_pid k) k = Some k1" using set_thread_Some [OF assms(1) 3(1) assms(3)] by blast
    note o = set_thread_process_ok [OF assms(1) k1]
    obtain k2 where "upd_proc (scheduler_pid k1) (\<lambda>p. p\<lparr>threads_active := threads_active p + 1\<rparr>) k1 = Some k2"
      using upd_proc_defined(1) [of k1 "scheduler_pid k1"] o(1,3) r by fastforce
    then show ?thesis using 3 k1 o(3) r by (simp add: scheduler_on_create_def)
  qed (simp add: scheduler_on_create_def)
qed

lemma create_undefined: "t \<noteq> -1 \<Longrightarrow> find_free_process_address k = -1 \<Longrightarrow> scheduler_on_create t PARENT k = None"
  by (simp add: scheduler_on_create_def process_create_def upd_proc_before)

lemma exit_undefined: "t \<noteq> -1 \<Longrightarrow> t \<noteq> 1 \<Longrightarrow> get_process_id t k = -1 \<Longrightarrow> scheduler_on_exit t k = None"
  by (simp add: scheduler_on_exit_def upd_proc_before)

lemma schedule_undefined:
  "n \<noteq> -1 \<Longrightarrow> get_process_id n k = -1 \<Longrightarrow> get_process_id old k \<noteq> -1 \<Longrightarrow> scheduler_on_schedule old n k = None"
  by (simp add: scheduler_on_schedule_def process_switch_def upd_proc_before)

lemma exit_defined:
  assumes "kernel_ok k" "-1 \<le> t" "t < 32" "t = -1 \<or> t = 1 \<or> 0 \<le> get_process_id t k"
  shows "\<exists>k'. scheduler_on_exit t k = Some k'"
proof (cases "t = -1 \<or> t = 1")
  case False
  let ?p = "get_process_id t k"
  have r: "0 \<le> ?p" "?p < 8" using get_process_id_range [OF assms(1)] assms(4) False by auto
  have d: "data_address (q\<lparr>threads_active := threads_active q - 1\<rparr>) = data_address q"
    "data_address (q\<lparr>reserved := 0\<rparr>) = data_address q" for q :: process by simp_all
  obtain k1 where k1: "upd_proc ?p (\<lambda>q. q\<lparr>threads_active := threads_active q - 1\<rparr>) k = Some k1"
    using upd_proc_defined(1) [OF assms(1) r] by blast
  note o1 = upd_proc_ok [OF assms(1) k1 d(1)]
  obtain q where q: "proc_at ?p k1 = Some q" using upd_proc_defined(2) [OF _ r] o1(1) by blast
  have "get_process_id t k1 = ?p" by (rule get_process_id_cong) (use o1(2) in simp)
  then obtain k2 where k2: "(if threads_active q \<le> 0 then free_process (get_process_id t k1) k1 else Some k1) = Some k2"
    using upd_proc_defined(1) [OF _ r] o1(1) by (fastforce simp: free_process_def)
  have "kernel_ok k2"
    using k2 o1(1) upd_proc_ok(1) [OF _ _ d(2)] by (auto simp: free_process_def split: if_splits)
  then have "\<exists>k'. set_thread_process t (-1) k2 = Some k'"
    using set_thread_Some [of k2 t "-1"] assms(2,3) False by auto
  then show ?thesis using False k1 q k2
    by (auto simp: scheduler_on_exit_def Let_def reset_thread_process_relation_def)
qed (auto simp: scheduler_on_exit_def)

lemma switch_defined:
  assumes "kernel_ok k" "0 \<le> p" "p < 8"
  shows "\<exists>k'. process_switch p k = Some k'"
proof -
  have "proc_at p k = Some (process_array k ! nat p)" using assms by (intro upd_proc_in) (auto simp: kernel_ok_def)
  moreover have "data_address (process_array k ! nat p) = 8 + p" using assms by (simp add: kernel_ok_def)
  ultimately show ?thesis using map_userdata_to_eq [of k "8 + p"] assms
    by (simp add: process_switch_def kernel_ok_def)
qed

lemma schedule_defined:
  assumes "kernel_ok k" "n = -1 \<or> 0 \<le> get_process_id n k \<or> get_process_id old k = get_process_id n k"
  shows "\<exists>k'. scheduler_on_schedule old n k = Some k' \<and> kernel_ok k'"
proof -
  have "\<exists>k'. process_switch (get_process_id n k) k = Some k' \<and> kernel_ok k'" if "n \<noteq> -1" "get_process_id old k \<noteq> get_process_id n k"
    using switch_defined [OF assms(1)] process_switch_maps [OF assms(1)] get_process_id_range [OF assms(1)] assms(2) that
    by blast
  then show ?thesis using assms(1) by (auto simp: scheduler_on_schedule_def Let_def)
qed

subsection \<open>Creating a process\<close>

text \<open>All that the hook changes for a thread with the flags of a parent.\<close>

lemma create_parent_state:
  assumes ok: "kernel_ok k" and t: "0 \<le> t" "t < 32" and free: "find_free_process_address k = p" "p \<noteq> -1"
    and q: "q = process_array k ! nat p"
  shows "\<exists>m. scheduler_on_create t PARENT k = Some (0, k\<lparr>pmem := m,
      thread_process_arr := (thread_process_arr k)[nat t := p],
      process_array := (process_array k)[nat p := q\<lparr>reserved := 1, threads_active := threads_active q + 1\<rparr>],
      scheduler_pid := p\<rparr>) \<and>
    (\<forall>a < 4294967296. \<not> ((8 + nat p) * 1048576 \<le> a \<and> a < (8 + nat p) * 1048576 + 10000) \<longrightarrow>
       m (of_nat a) = pmem k (of_nat a))"
proof -
  have p: "0 \<le> p" "p < 8" "nat p < 8" using find_free_process_range [of k] free by auto
  have l: "length (process_array k) = 8" "length (thread_process_arr k) = 32" "length (L1_TABLE k) = 4096"
    using ok by (auto simp: kernel_ok_def)
  have d: "data_address q = 8 + p" using ok p q by (simp add: kernel_ok_def)
  have n: "nat (8 + p) = 8 + nat p" using p by simp
  define s where "s = 8 + nat p"
  have s: "8 \<le> s" "s < 16" "nat (8 + p) = s" using p n by (auto simp: s_def)
  have e: "L1_TABLE k ! s AND PHYSICAL_ADDRESS_BITS = push_bit 20 (of_nat s)"
    using kernel_ok_section [OF ok, of s] s by (simp add: section_entry_def)
  define src where "src = mmu_template k AND PHYSICAL_ADDRESS_BITS"
  define m where "m = kmemcpy (L1_TABLE k) (push_bit 20 (of_nat s)) src MB (pmem k)"
  have "process_create t k = Some (p, k\<lparr>pmem := m, thread_process_arr := (thread_process_arr k)[nat t := p],
      process_array := (process_array k)[nat p := q\<lparr>reserved := 1\<rparr>]\<rparr>)"
    using l p q t free d s e set_thread_Some [OF ok t]
    by (simp add: process_create_def upd_proc_in copy_userdata_template_def idx_def m_def src_def)
  then have "scheduler_on_create t PARENT k = Some (0, k\<lparr>pmem := m,
      thread_process_arr := (thread_process_arr k)[nat t := p],
      process_array := (process_array k)[nat p := q\<lparr>reserved := 1, threads_active := threads_active q + 1\<rparr>],
      scheduler_pid := p\<rparr>)"
    using l p t by (simp add: scheduler_on_create_def upd_proc_in)
  moreover have "m (of_nat a) = pmem k (of_nat a)"
    if a: "a < 4294967296" "\<not> (s * 1048576 \<le> a \<and> a < s * 1048576 + 10000)" for a
  proof -
    have b: "(push_bit 20 (of_nat s) :: u32) = of_nat (s * 1048576)" by (simp add: push_bit_eq_mult)
    have "(of_nat a :: u32) \<noteq> phys (L1_TABLE k) (push_bit 20 (of_nat s) + of_nat i)" if "i < MB" for i
    proof -
      have "i < 10000" using that by (simp add: MB_def)
      then have "phys (L1_TABLE k) (push_bit 20 (of_nat s) + of_nat i) = of_nat (s * 1048576 + i)" "s * 1048576 + i < 4294967296"
        unfolding b using phys_section [where t = "L1_TABLE k" and s = s and r = s and i = i] e s by simp_all
      then show ?thesis using of_nat_eq_iff_u32 [OF a(1), of "s * 1048576 + i"] a(2) \<open>i < 10000\<close> by auto
    qed
    then show ?thesis unfolding m_def by (rule kmemcpy_frame)
  qed
  ultimately show ?thesis unfolding s_def by blast
qed

lemma create_parent_counts:
  assumes ok: "kernel_ok k" "counts_ok k" and t: "0 \<le> t" "t < 32" "get_process_id t k = -1"
    and free: "find_free_process_address k \<noteq> -1"
  shows "\<exists>k'. scheduler_on_create t PARENT k = Some (0, k') \<and> counts_ok k' \<and>
    get_process_id t k' = find_free_process_address k \<and> scheduler_pid k' = find_free_process_address k"
proof -
  define p where "p = find_free_process_address k"
  have p: "0 \<le> p" "p < 8" "reserved (process_array k ! nat p) = 0" "nat p < 8"
    using find_free_process_range [of k] free by (auto simp: p_def)
  have l: "length (process_array k) = 8" "length (thread_process_arr k) = 32" "length (L1_TABLE k) = 4096"
    "\<forall>i < 8. data_address (process_array k ! i) = 8 + int i"
    using ok(1) by (auto simp: kernel_ok_def)
  let ?q = "process_array k ! nat p"
  define k1 where "k1 = k\<lparr>thread_process_arr := (thread_process_arr k)[nat t := p]\<rparr>"
  define k2 where "k2 = k1\<lparr>process_array := (process_array k)[nat p := ?q\<lparr>reserved := 1\<rparr>]\<rparr>"
  have s1: "set_thread_process t p k = Some k1" using set_thread_Some [OF ok(1) t(1,2)] by (simp add: k1_def)
  have s2: "upd_proc p (\<lambda>p. p\<lparr>reserved := 1\<rparr>) k1 = Some k2"
    using l p by (simp add: upd_proc_in k1_def k2_def)
  have s3: "proc_at p k2 = Some (?q\<lparr>reserved := 1\<rparr>)"
    using l p by (simp add: upd_proc_in k2_def)
  have "0 \<le> data_address ?q" "data_address ?q < 4096" using l(4) p by auto
  then obtain k3 where s4: "copy_userdata_template (data_address ?q) k2 = Some k3"
    "thread_process_arr k3 = thread_process_arr k1" "process_array k3 = process_array k2"
    using l(3) by (auto simp: copy_userdata_template_def idx_def k2_def k1_def)
  have create: "process_create t k = Some (p, k3)"
    using free p s1 s2 s3 s4(1) by (simp add: process_create_def p_def [symmetric] Let_def)
  define q' where "q' = ?q\<lparr>reserved := 1, threads_active := threads_active ?q + 1\<rparr>"
  define k' where "k' = k3\<lparr>process_array := (process_array k)[nat p := q'], scheduler_pid := p\<rparr>"
  have "upd_proc p (\<lambda>p. p\<lparr>threads_active := threads_active p + 1\<rparr>) k3 =
      Some (k3\<lparr>process_array := (process_array k)[nat p := q']\<rparr>)"
    using l p s4(3) by (simp add: upd_proc_in k2_def q'_def)
  then have code: "scheduler_on_create t PARENT k = Some (0, k')"
    using create p t(1) by (simp add: scheduler_on_create_def k'_def)
  have arr: "thread_process_arr k' = (thread_process_arr k)[nat t := p]" by (simp add: k'_def s4(2) k1_def)
  have old: "thread_process_arr k ! nat t = -1" using t by (simp add: get_process_id_def)
  have cnt: "int (threads_of k' x) = int (threads_of k x) + (if x = p then 1 else 0)" if "0 \<le> x" for x
    using threads_of_update [of "nat t" k p x] l(2) t that old arr by (auto simp: threads_of_def)
  have zero: "threads_of k p = 0"
    using ok(2) p by (auto simp: counts_ok_def split: if_splits dest!: spec [of _ "nat p"])
  have "counts_ok k'"
    unfolding counts_ok_def
  proof (intro allI impI)
    fix x :: nat assume x: "x < 8"
    have "process_array k' ! x = (if x = nat p then q' else process_array k ! x)"
      using l p x by (simp add: k'_def nth_list_update)
    moreover have "threads_active (process_array k ! x) = int (threads_of k (int x))"
      "reserved (process_array k ! x) = (if threads_of k (int x) = 0 then 0 else 1)"
      using ok(2) x by (auto simp: counts_ok_def)
    moreover have "x = nat p \<longleftrightarrow> int x = p" using p(1) by auto
    ultimately show "threads_active (process_array k' ! x) = int (threads_of k' (int x)) \<and>
      reserved (process_array k' ! x) = (if threads_of k' (int x) = 0 then 0 else 1)"
      using cnt [of "int x"] zero by (auto simp: q'_def)
  qed
  moreover have "get_process_id t k' = p" using arr l(2) t by (simp add: get_process_id_def)
  ultimately show ?thesis using code by (auto simp: p_def k'_def)
qed

subsection \<open>Joining and leaving a process\<close>

lemma create_child_counts:
  assumes ok: "kernel_ok k" "counts_ok k" and t: "0 \<le> t" "t < 32" "get_process_id t k = -1"
    and res: "reserved (process_array k ! nat (scheduler_pid k)) \<noteq> 0"
  shows "\<exists>k'. scheduler_on_create t CHILD k = Some (0, k') \<and> counts_ok k' \<and>
    get_process_id t k' = scheduler_pid k"
proof -
  define p where "p = scheduler_pid k"
  have l: "length (process_array k) = 8" "length (thread_process_arr k) = 32" "0 \<le> p" "p < 8"
    using ok(1) by (auto simp: kernel_ok_def p_def)
  let ?q = "process_array k ! nat p"
  define k' where "k' = k\<lparr>thread_process_arr := (thread_process_arr k)[nat t := p],
     process_array := (process_array k)[nat p := ?q\<lparr>threads_active := threads_active ?q + 1\<rparr>]\<rparr>"
  have code: "scheduler_on_create t CHILD k = Some (0, k')"
    using l t set_thread_Some [OF ok(1) t(1,2)]
    by (simp add: scheduler_on_create_def PARENT_def CHILD_def p_def [symmetric] upd_proc_in k'_def)
  have old: "thread_process_arr k ! nat t = -1" using t by (simp add: get_process_id_def)
  have cnt: "int (threads_of k' x) = int (threads_of k x) + (if x = p then 1 else 0)" if "0 \<le> x" for x
    using threads_of_update [of "nat t" k p x] l(2) t that old by (auto simp: threads_of_def k'_def)
  have "counts_ok k'"
    unfolding counts_ok_def
  proof (intro allI impI)
    fix x :: nat assume x: "x < 8"
    have "process_array k' ! x = (if x = nat p then ?q\<lparr>threads_active := threads_active ?q + 1\<rparr> else process_array k ! x)"
      using l x by (simp add: k'_def nth_list_update)
    moreover have "threads_active (process_array k ! x) = int (threads_of k (int x))"
      "reserved (process_array k ! x) = (if threads_of k (int x) = 0 then 0 else 1)"
      using ok(2) x by (auto simp: counts_ok_def)
    moreover have "x = nat p \<longleftrightarrow> int x = p" using l(3) by auto
    ultimately show "threads_active (process_array k' ! x) = int (threads_of k' (int x)) \<and>
      reserved (process_array k' ! x) = (if threads_of k' (int x) = 0 then 0 else 1)"
      using cnt [of "int x"] res by (auto simp: p_def split: if_splits)
  qed
  moreover have "get_process_id t k' = p" using l(2) t by (simp add: get_process_id_def k'_def)
  ultimately show ?thesis using code by (auto simp: p_def)
qed

lemma exit_counts:
  assumes ok: "kernel_ok k" "counts_ok k" and t: "0 \<le> t" "t < 32" "t \<noteq> 1"
    and p: "get_process_id t k = p" "0 \<le> p"
  shows "\<exists>k'. scheduler_on_exit t k = Some k' \<and> counts_ok k' \<and> get_process_id t k' = -1 \<and>
    int (threads_of k' p) = int (threads_of k p) - 1"
proof -
  have l: "length (process_array k) = 8" "length (thread_process_arr k) = 32"
    using ok(1) by (auto simp: kernel_ok_def)
  have p8: "p < 8" "nat p < 8" using get_process_id_range [OF ok(1), of t] p by auto
  have old: "thread_process_arr k ! nat t = p" using p t by (simp add: get_process_id_def)
  let ?q = "process_array k ! nat p"
  define q' where "q' = (if threads_active ?q - 1 \<le> 0 then ?q\<lparr>threads_active := threads_active ?q - 1, reserved := 0\<rparr>
     else ?q\<lparr>threads_active := threads_active ?q - 1\<rparr>)"
  define k2 where "k2 = k\<lparr>process_array := (process_array k)[nat p := q']\<rparr>"
  define k' where "k' = k2\<lparr>thread_process_arr := (thread_process_arr k)[nat t := -1]\<rparr>"
  have code: "scheduler_on_exit t k = Some k'"
  proof -
    define k1 where "k1 = k\<lparr>process_array := (process_array k)[nat p := ?q\<lparr>threads_active := threads_active ?q - 1\<rparr>]\<rparr>"
    have s1: "upd_proc p (\<lambda>p. p\<lparr>threads_active := threads_active p - 1\<rparr>) k = Some k1"
      using l p(2) p8 by (simp add: upd_proc_in k1_def)
    have g1: "get_process_id t k1 = p" using p(1) get_process_id_cong [of k1 k t] by (simp add: k1_def)
    have s2: "proc_at p k1 = Some (?q\<lparr>threads_active := threads_active ?q - 1\<rparr>)"
      using l p(2) p8 by (simp add: upd_proc_in k1_def)
    have s3: "(if threads_active ?q - 1 \<le> 0 then free_process p k1 else Some k1) = Some k2"
      using l p(2) p8 by (auto simp: free_process_def upd_proc_in k1_def k2_def q'_def)
    have "reset_thread_process_relation t k2 = Some k'"
      using l t by (simp add: reset_thread_process_relation_def set_thread_process_def upd_def k2_def k'_def)
    then show ?thesis
      using t p(1) s1 s2 s3 g1 by (auto simp: scheduler_on_exit_def split: if_splits)
  qed
  have cnt: "int (threads_of k' x) = int (threads_of k x) - (if x = p then 1 else 0)" if "0 \<le> x" for x
    using threads_of_update [of "nat t" k "-1" x] l(2) t that old
    by (auto simp: threads_of_def k'_def k2_def)
  have act: "threads_active ?q = int (threads_of k p)" "reserved ?q = (if threads_of k p = 0 then 0 else 1)"
    using ok(2) p8 p(2) by (auto simp: counts_ok_def dest!: spec [of _ "nat p"])
  have "counts_ok k'"
    unfolding counts_ok_def
  proof (intro allI impI)
    fix x :: nat assume x: "x < 8"
    have "process_array k' ! x = (if x = nat p then q' else process_array k ! x)"
      using l x by (simp add: k'_def k2_def nth_list_update)
    moreover have "threads_active (process_array k ! x) = int (threads_of k (int x))"
      "reserved (process_array k ! x) = (if threads_of k (int x) = 0 then 0 else 1)"
      using ok(2) x by (auto simp: counts_ok_def)
    moreover have "x = nat p \<longleftrightarrow> int x = p" using p(2) by auto
    moreover have "0 \<le> int (threads_of k' p)" by simp
    ultimately show "threads_active (process_array k' ! x) = int (threads_of k' (int x)) \<and>
      reserved (process_array k' ! x) = (if threads_of k' (int x) = 0 then 0 else 1)"
      using cnt [of "int x"] cnt [OF p(2)] act by (auto simp: q'_def split: if_splits)
  qed
  moreover have "get_process_id t k' = -1" using l(2) t by (simp add: get_process_id_def k'_def)
  ultimately show ?thesis using code cnt [OF p(2)] by auto
qed

subsection \<open>Threads and reserved slots\<close>

lemma threads_of_member:
  assumes "kernel_ok k" "0 \<le> p"
  shows "threads_of k p \<noteq> 0 \<longleftrightarrow> (\<exists>t. get_process_id t k = p)"
proof -
  have l: "length (thread_process_arr k) = 32" using assms(1) by (simp add: kernel_ok_def)
  have "p \<in> set (thread_process_arr k) \<longleftrightarrow> (\<exists>t. get_process_id t k = p)"
  proof
    assume "p \<in> set (thread_process_arr k)"
    then obtain i where "i < 32" "thread_process_arr k ! i = p" using l by (auto simp: in_set_conv_nth)
    then show "\<exists>t. get_process_id t k = p" by (intro exI [of _ "int i"]) (simp add: get_process_id_def)
  qed (use assms(2) l in \<open>auto simp: get_process_id_def split: if_splits\<close>)
  then show ?thesis by (simp add: threads_of_def)
qed

lemma reserved_iff_thread:
  assumes "kernel_ok k" "counts_ok k" "p < 8"
  shows "reserved (process_array k ! p) \<noteq> 0 \<longleftrightarrow> (\<exists>t. get_process_id t k = int p)"
  using threads_of_member [OF assms(1), of "int p"] assms(2,3) by (auto simp: counts_ok_def split: if_splits)

lemma boot_kernel_counts:
  assumes "kernel_loaded k"
  shows "counts_ok (boot_kernel a k)" "find_free_process_address (boot_kernel a k) = 0"
proof -
  let ?k = "boot_kernel a k"
  note b = boot_kernel_ok [OF assms, where a = a]
  have "threads_of ?k (int p) = 0" for p using threads_of_member [OF b(1), of "int p"] b(2) by auto
  then show "counts_ok ?k" using b(3,4) by (simp add: counts_ok_def)
  show "find_free_process_address ?k = 0" using b(4) [of 0] by (simp add: find_free_process_address_def MAX_PROCESSES_def upt_rec)
qed

text \<open>A slot that a new process does not take stays free.\<close>

lemma create_keeps_free:
  assumes "kernel_ok k" "counts_ok k" "scheduler_on_create t flags k = Some (0, k1)" "counts_ok k1"
    and "q < 8" "reserved (process_array k ! q) = 0" "get_process_id t k1 \<noteq> int q"
  shows "reserved (process_array k1 ! q) = 0"
proof -
  note o = scheduler_on_create_ok [OF assms(1,3)]
  have "get_process_id t' k1 \<noteq> int q" for t'
    using o(3) [of t'] assms(7) reserved_iff_thread [OF assms(1,2,5)] assms(6) by (cases "t' = t") auto
  then show ?thesis using reserved_iff_thread [OF o(1) assms(4,5)] by auto
qed

end
