(* ===== verification/Exceptions.thy ===== *)
theory Exceptions imports OS_Prelude begin

text \<open>
  The exception handler of \<^verbatim>\<open>system/exceptions.c\<close>. The functions it calls (scheduler, UART, timer,
  debug output, \<^verbatim>\<open>kprintf\<close>) are in the library \<^verbatim>\<open>out/e4.o\<close>: they are one parameter \<open>lib\<close>, a function
  of the call, the saved registers and the state of the rest of the machine, so a call may change
  both and return a word. The library has services of its own for the five system calls, the last
  five constructors; \<^verbatim>\<open>include/exceptions.h\<close> says that a system call reaches the handler only if its
  number is not one of them. The trace records the calls in order. A handler returns, hangs in
  \<^verbatim>\<open>while(1)\<close>, or jumps to an address.

  \<open>lib\<close> gives the effect of a call that returns. \<^verbatim>\<open>include/uart.h\<close> documents \<open>uart_getc\<close> and \<open>uart_putc\<close>
  as waiting in a loop, so a call may also not return: \<open>comes_back\<close> takes the calls that wait for
  ever as a second parameter, and the handler is over at the first of them. (\<open>uart_peekc\<close> waits too,
  but not after \<open>uart_read_available\<close> has found a byte, which is where the handler calls it.)
\<close>

subsection \<open>The saved registers and the calls\<close>

record regs =
  r0 :: u32
  r1 :: u32
  r2 :: u32
  r3 :: u32
  r4 :: u32
  r5 :: u32
  r6 :: u32
  r7 :: u32
  r8 :: u32
  r9 :: u32
  r10 :: u32
  r11 :: u32
  r12 :: u32
  sp :: u32
  lr :: u32
  psr :: u32
  pc :: u32

datatype lib_call =
    Kprintf string "karg list"
  | Debug_print_register u32
  | Debug_print_psr u32
  | Debug_print_banked u32
  | Scheduler_end_current_thread u32
  | Scheduler_round_robin u32
  | Scheduler_schedule_next u32
  | Scheduler_current_sleep u32 u32
  | Scheduler_get_regs u32
  | Scheduler_get_current_thread
  | Scheduler_new_thread u32 u32 u32 u32
  | Uart_getc
  | Uart_putc u8
  | Uart_read_available
  | Uart_peekc
  | Uart_irq_pending
  | Timer_pending_irq
  | Uart_irq_enable
  | Timer_start
  | Read_byte u32
  | Svc_exit
  | Svc_exec u32 u32 u32 u32
  | Svc_putc u8
  | Svc_getc
  | Svc_sleep u32

record 'l machine =
  frame :: regs
  env :: 'l
  trace :: "lib_call list"
  spsr :: u32
  k_time :: u32
  k_id :: u32

datatype 'l outcome = Returned "'l machine" | Hangs "'l machine" | Jumps u32 "'l machine"

type_synonym 'l lib = "lib_call \<Rightarrow> regs \<times> 'l \<Rightarrow> u32 \<times> regs \<times> 'l"

definition call :: "'l lib \<Rightarrow> lib_call \<Rightarrow> 'l machine \<Rightarrow> u32 \<times> 'l machine" where
  "call lib c s = (case lib c (frame s, env s) of
     (r, f, e) \<Rightarrow> (r, s\<lparr>frame := f, env := e, trace := trace s @ [c]\<rparr>))"

definition do_call :: "'l lib \<Rightarrow> lib_call \<Rightarrow> 'l machine \<Rightarrow> 'l machine" where
  "do_call lib c s = snd (call lib c s)"

fun do_calls :: "'l lib \<Rightarrow> lib_call list \<Rightarrow> 'l machine \<Rightarrow> 'l machine" where
  "do_calls lib [] s = s"
| "do_calls lib (c # cs) s = do_calls lib cs (do_call lib c s)"

subsection \<open>Constants\<close>

definition E_UND :: u32 where "E_UND = 1"
definition E_SWI :: u32 where "E_SWI = 2"
definition E_PABT :: u32 where "E_PABT = 3"
definition E_DABT :: u32 where "E_DABT = 4"
definition E_IRQ :: u32 where "E_IRQ = 6"
definition SVC_EXIT :: u32 where "SVC_EXIT = 0"
definition SVC_EXEC :: u32 where "SVC_EXEC = 1"
definition SVC_PUTC :: u32 where "SVC_PUTC = 2"
definition SVC_GETC :: u32 where "SVC_GETC = 3"
definition SVC_SLEEP :: u32 where "SVC_SLEEP = 4"
definition LS_BYTE :: u32 where "LS_BYTE = 0xFF"
definition FIRST5 :: u32 where "FIRST5 = 0x1F"
definition USR :: u32 where "USR = 0x10"
definition PSR_IRQ :: u32 where "PSR_IRQ = 0x12"
definition PSR_SVC :: u32 where "PSR_SVC = 0x13"
definition PSR_ABT :: u32 where "PSR_ABT = 0x17"
definition PSR_UND :: u32 where "PSR_UND = 0x1b"
definition PSR_SYS :: u32 where "PSR_SYS = 0x1f"

lemmas e_consts = E_UND_def E_SWI_def E_PABT_def E_DABT_def E_IRQ_def
lemmas svc_consts = SVC_EXIT_def SVC_EXEC_def SVC_PUTC_def SVC_GETC_def SVC_SLEEP_def

subsection \<open>The handler\<close>

definition exception_on_uart_irq :: u32 where "exception_on_uart_irq = 0"

definition user_responsible :: "'l machine \<Rightarrow> bool" where
  "user_responsible s \<longleftrightarrow> spsr s AND FIRST5 = USR"

text \<open>The keys that make the kernel itself violate its memory protection.\<close>

definition uart_interrupt_cases :: "'l lib \<Rightarrow> 'l machine \<Rightarrow> 'l outcome" where
  "uart_interrupt_cases lib s = (let (available, s) = call lib Uart_read_available s in
     if available \<noteq> 0 then
       let (r, s) = call lib Uart_peekc s; c = (ucast r :: u8); a = [KInt (ucast c)] in
       if c = 0x4E then
         let s = do_call lib (Kprintf (''%c pressed. activate lesender Zugriff auf Null-Pointer'' @ nl) a) s
         in Returned (do_call lib (Read_byte 0) s)
       else if c = 0x50 then
         Jumps 0 (do_call lib (Kprintf (''%c pressed. activate Sprung auf Null-Pointer.'' @ nl) a) s)
       else if c = 0x43 then
         Returned (do_call lib (Kprintf (''%c pressed. activate schreibender Zugriff auf eigenen Code.'' @ nl) a) s)
       else if c = 0x55 then
         let s = do_call lib (Kprintf (''%c pressed. activate esender Zugriff auf nicht zugeordnete Adresse.'' @ nl) a) s;
             (v, s) = call lib (Read_byte 0xFFFFFFF1) s
         in Returned (do_call lib (Kprintf (''not supposed to read anything %c'' @ nl) [KInt (ucast (ucast v :: u8))]) s)
       else if c = 0x58 then
         Returned (do_call lib (Kprintf (''%c pressed. activate Sprung auf User Code.'' @ nl) a) s)
       else Returned s
     else Returned s)"

definition svc_handler :: "'l lib \<Rightarrow> u32 \<Rightarrow> u32 \<Rightarrow> 'l machine \<Rightarrow> 'l machine" where
  "svc_handler lib mode p s = (let n = r7 (frame s) AND LS_BYTE in
     if n = SVC_EXIT then
       do_call lib (Scheduler_round_robin p) (do_call lib (Scheduler_end_current_thread p) s)
     else if n = SVC_EXEC then
       do_call lib (Scheduler_new_thread (r0 (frame s)) (r1 (frame s)) (r2 (frame s)) (r7 (frame s))) s
     else if n = SVC_SLEEP then
       let s = s\<lparr>k_time := r0 (frame s)\<rparr>;
           (i, s) = call lib Scheduler_get_current_thread s;
           s = s\<lparr>k_id := i\<rparr>;
           s = (if k_id s \<noteq> - 1 then do_call lib (Scheduler_schedule_next p) s
                else let (q, s) = call lib (Scheduler_get_regs (k_id s)) s
                  in do_call lib (Scheduler_current_sleep q (k_time s)) s)
       in s\<lparr>k_time := 0\<rparr>
     else if n = SVC_GETC then
       let (c, s) = call lib Uart_getc s in s\<lparr>frame := (frame s)\<lparr>r0 := ucast (ucast c :: u8)\<rparr>\<rparr>
     else if n = SVC_PUTC then do_call lib (Uart_putc (ucast (r0 (frame s)))) s
     else
       let s = do_call lib (Kprintf ('' ** Unknown SWI convention %i **'' @ nl) [KInt mode]) s;
           s = do_call lib (Debug_print_register p) s;
           s = do_call lib (Debug_print_psr (psr (frame s))) s
       in do_calls lib [Debug_print_banked PSR_SYS, Debug_print_banked PSR_SVC, Debug_print_banked PSR_ABT,
            Debug_print_banked PSR_IRQ, Debug_print_banked PSR_UND,
            Scheduler_end_current_thread p, Scheduler_round_robin p] s)"

definition exception_handler :: "'l lib \<Rightarrow> u32 \<Rightarrow> u32 \<Rightarrow> 'l machine \<Rightarrow> 'l outcome" where
  "exception_handler lib mode p s =
     (if mode = E_UND then Returned s
      else if mode = E_SWI then
        Returned (svc_handler lib mode p (do_call lib (Kprintf (''## SWI released ##'' @ nl) []) s))
      else if mode = E_PABT then
        let (t, s) = call lib Scheduler_get_current_thread s;
            s = do_call lib (Kprintf (''## Prefetch Abort released by thread %i ##'' @ nl) [KInt t]) s;
            s = do_calls lib [Debug_print_register p, Debug_print_banked mode] s;
            s = do_call lib (Debug_print_psr (psr (frame s))) s
        in if user_responsible s then
             Returned (do_calls lib [Kprintf (''User Responsible for the Abort'' @ nl) [],
               Scheduler_end_current_thread p] s)
           else Hangs (do_call lib (Kprintf (''Kernel Responsible for the Abort !! System angehalten'' @ nl) []) s)
      else if mode = E_DABT then
        let s = do_call lib (Kprintf (''## Data Abort released ##'' @ nl) []) s
        in if user_responsible s then
             Returned (do_calls lib [Kprintf (''User Responsible for the Abort'' @ nl) [],
               Scheduler_end_current_thread p] s)
           else Returned s
      else if mode = E_IRQ then
        let (pending, s) = call lib Uart_irq_pending s;
            o1 = (if pending \<noteq> 0 then
                    uart_interrupt_cases lib (do_call lib (Kprintf (''## IRQ released ##'' @ nl) []) s)
                  else Returned s)
        in (case o1 of
              Returned s \<Rightarrow> (let (timer, s) = call lib Timer_pending_irq s in
                if timer \<noteq> 0 then Returned (do_call lib (Kprintf (''## Timer IRQ released ##'' @ nl) []) s)
                else Returned s)
            | _ \<Rightarrow> o1)
      else Returned (do_call lib (Kprintf (''unknown exeption'' @ nl) []) s))"

subsection \<open>Calls that wait\<close>

fun machine_of :: "'l outcome \<Rightarrow> 'l machine" where
  "machine_of (Returned s) = s"
| "machine_of (Hangs s) = s"
| "machine_of (Jumps a s) = s"

fun in_loop :: "'l outcome \<Rightarrow> bool" where
  "in_loop (Hangs s) = True"
| "in_loop _ = False"

text \<open>The calls the handler makes as long as each of them returns, and whether it gets past them all.\<close>

definition calls_of :: "'l outcome \<Rightarrow> 'l machine \<Rightarrow> lib_call list" where
  "calls_of o1 s = drop (length (trace s)) (trace (machine_of o1))"

definition comes_back :: "'l lib \<Rightarrow> (lib_call \<Rightarrow> bool) \<Rightarrow> u32 \<Rightarrow> u32 \<Rightarrow> 'l machine \<Rightarrow> bool" where
  "comes_back lib waits mode p s = (let o1 = exception_handler lib mode p s in
     \<not> in_loop o1 \<and> list_all (\<lambda>c. \<not> waits c) (calls_of o1 s))"

text \<open>The calls of \<^verbatim>\<open>include/uart.h\<close> that may wait.\<close>

fun uart_wait :: "lib_call \<Rightarrow> bool" where
  "uart_wait Uart_getc = True"
| "uart_wait (Uart_putc c) = True"
| "uart_wait _ = False"

subsection \<open>What the library is asked to keep\<close>

text \<open>
  The calls that only print or query the hardware do not touch the saved registers
  (\<^verbatim>\<open>include/debug.h\<close>, \<^verbatim>\<open>include/uart.h\<close>, \<^verbatim>\<open>include/timer.h\<close>): what follows for the traces needs no more of the library.
\<close>

fun quiet :: "lib_call \<Rightarrow> bool" where
  "quiet (Kprintf f a) = True"
| "quiet (Debug_print_register p) = True"
| "quiet (Debug_print_psr v) = True"
| "quiet (Debug_print_banked m) = True"
| "quiet Uart_getc = True"
| "quiet (Uart_putc c) = True"
| "quiet Uart_irq_enable = True"
| "quiet Timer_start = True"
| "quiet _ = False"

definition keeps_frame :: "'l lib \<Rightarrow> bool" where
  "keeps_frame lib \<longleftrightarrow> (\<forall>c f e. quiet c \<longrightarrow> fst (snd (lib c (f, e))) = f)"

lemma call_fields:
  assumes "call lib c s = (r, s')"
  shows "trace s' = trace s @ [c]" "spsr s' = spsr s" "k_time s' = k_time s" "k_id s' = k_id s"
    "keeps_frame lib \<Longrightarrow> quiet c \<Longrightarrow> frame s' = frame s"
  using assms by (auto simp: call_def keeps_frame_def split: prod.splits) (metis fst_conv snd_conv)

lemma do_call_fields [simp]:
  "trace (do_call lib c s) = trace s @ [c]" "spsr (do_call lib c s) = spsr s"
  "k_time (do_call lib c s) = k_time s" "k_id (do_call lib c s) = k_id s"
  "keeps_frame lib \<Longrightarrow> quiet c \<Longrightarrow> frame (do_call lib c s) = frame s"
  using call_fields [of lib c s "fst (call lib c s)" "do_call lib c s"] by (simp_all add: do_call_def)

lemma do_calls_fields [simp]:
  "trace (do_calls lib cs s) = trace s @ cs" "spsr (do_calls lib cs s) = spsr s"
  "keeps_frame lib \<Longrightarrow> \<forall>c \<in> set cs. quiet c \<Longrightarrow> frame (do_calls lib cs s) = frame s"
  by (induction cs arbitrary: s) auto

end
