(* ===== verification/Kernel_Properties.thy ===== *)
theory Kernel_Properties imports Process_Count Exceptions begin

text \<open>
  The properties of the kernel: the translation table and its registers, the processes and the
  scheduler's hooks, and the exception handler.
\<close>

subsection \<open>A kernel for the instances\<close>

definition blank_regs :: regs where
  "blank_regs = \<lparr>r0 = 0, r1 = 0, r2 = 0, r3 = 0, r4 = 0, r5 = 0, r6 = 0, r7 = 0, r8 = 0, r9 = 0, r10 = 0,
     r11 = 0, r12 = 0, sp = 0, lr = 0, psr = 0, pc = 0\<rparr>"

definition blank_process :: process where
  "blank_process = \<lparr>proc_id = 0, reserved = 0, data_address = 0, threads_active = 0\<rparr>"

definition blank_kernel :: kernel where
  "blank_kernel = \<lparr>L1_TABLE = replicate 4096 0, mmu_template = 0, SCTLR = 0, TTBR0 = 0, TTBCR = 0, DACR = 0,
     pmem = (\<lambda>_. 0), klog = [], thread_process_arr = replicate 32 0, process_array = replicate 8 blank_process,
     thread_stack_array = replicate 32 0, scheduler_pid = 0\<rparr>"

definition blank_machine :: "unit machine" where
  "blank_machine = \<lparr>frame = blank_regs, env = (), trace = [], spsr = 0x10, k_time = 0, k_id = 0\<rparr>"

definition silent_lib :: "unit lib" where "silent_lib c fe = (0, fe)"

lemma blank_loaded: "kernel_loaded blank_kernel" "length (L1_TABLE blank_kernel) = 4096"
  by (simp_all add: kernel_loaded_def blank_kernel_def)

lemma silent_keeps: "keeps_frame silent_lib"
  by (simp add: keeps_frame_def silent_lib_def)

text \<open>The kernel after \<open>init\<close>, with a process 0 made for thread 1.\<close>

lemma boot_counts:
  "kernel_ok (boot_kernel a blank_kernel)" "counts_ok (boot_kernel a blank_kernel)"
  "get_process_id t (boot_kernel a blank_kernel) = -1" "find_free_process_address (boot_kernel a blank_kernel) \<noteq> -1"
  using boot_kernel_ok(1,2) [OF blank_loaded(1), where a = a] boot_kernel_counts [OF blank_loaded(1), where a = a] by simp_all

lemma parent_two:
  "\<exists>k. scheduler_on_create 2 PARENT (boot_kernel a blank_kernel) = Some (0, k) \<and> kernel_ok k \<and> counts_ok k \<and>
     0 \<le> get_process_id 2 k \<and> get_process_id 3 k = -1 \<and> scheduler_pid k = get_process_id 2 k"
proof -
  note b = boot_counts [where a = a]
  obtain k where k: "scheduler_on_create 2 PARENT (boot_kernel a blank_kernel) = Some (0, k)" "counts_ok k"
      "get_process_id 2 k = find_free_process_address (boot_kernel a blank_kernel)"
      "scheduler_pid k = find_free_process_address (boot_kernel a blank_kernel)"
    using create_parent_counts [OF b(1,2) _ _ b(3,4), of 2] by auto
  note o = scheduler_on_create_ok [OF b(1) k(1)]
  have "get_process_id 3 k = -1" using o(3) [of 3] b(3) by simp
  moreover have "0 \<le> get_process_id 2 k"
    using k(3) find_free_process_range [of "boot_kernel a blank_kernel"] b(4) by auto
  ultimately show ?thesis using k o(1) by auto
qed

subsection \<open>The translation table\<close>

text \<open>C30. After \<open>L1_TABLE_init\<close> every entry is a section descriptor that maps its megabyte to itself,
  and its access class, as \<open>translate_AP\<close> names it, is: kernel only for sections 1 to 3, read-only for
  the user data template, no access for sections 56 to 127, full access for all others.\<close>

theorem l1_table_identity:
  assumes "length (L1_TABLE k) = 4096" "i < 4096"
  shows "L1_TABLE (L1_TABLE_init k) ! i AND PHYSICAL_ADDRESS_BITS = push_bit 20 (of_nat i) \<and>
    L1_TABLE (L1_TABLE_init k) ! i AND 3 = 2 \<and>
    translate_AP (L1_TABLE_init k) i =
      (if i \<in> {1, 2, 3} then ''AP_SYS_ACCESS'' else if i = 6 then ''AP_BOTH_READ_ONLY''
       else if 56 \<le> i \<and> i < 128 then ''AP_NO_ACCESS'' else ''AP_FULL_ACCESS'')"
proof -
  have "AP_of (access_bits i) = (if i \<in> {1, 2, 3} then 1 else if i = 6 then 7 else if 56 \<le> i \<and> i < 128 then 0 else 3)"
    by (simp add: access_bits_def ap_consts AP_of_def)
  then have "translate_AP (L1_TABLE_init k) i =
      (if i \<in> {1, 2, 3} then ''AP_SYS_ACCESS'' else if i = 6 then ''AP_BOTH_READ_ONLY''
       else if 56 \<le> i \<and> i < 128 then ''AP_NO_ACCESS'' else ''AP_FULL_ACCESS'')"
    using init_base(2) [OF assms] by (simp add: translate_AP_def AP_consts)
  then show ?thesis using init_base(1,3) [OF assms] by blast
qed

theorem l1_table_identity_witness:
  "translate_AP (L1_TABLE_init blank_kernel) 6 = ''AP_BOTH_READ_ONLY'' \<and>
   L1_TABLE (L1_TABLE_init blank_kernel) ! 9 AND PHYSICAL_ADDRESS_BITS = 0x900000"
  using l1_table_identity [OF blank_loaded(2), of 6] l1_table_identity [OF blank_loaded(2), of 9] by simp

text \<open>\<open>mmu_init\<close> leaves the address of the table in TTBR0, domain 0 as client, TTBCR zero, and
  SCTLR with the MMU and alignment bits set, the cache bits 2 and 12 cleared, and every other bit
  as it was.\<close>

theorem mmu_init_registers:
  "TTBR0 (mmu_init a k) = a \<and> DACR (mmu_init a k) = 1 \<and> TTBCR (mmu_init a k) = 0 \<and>
   (\<forall>i. bit (SCTLR (mmu_init a k)) i = (if i = 0 \<or> i = 1 then True else if i = 2 \<or> i = 12 then False
      else bit (SCTLR k) i))"
proof -
  have s: "SCTLR (mmu_init a k) = ((SCTLR k AND NOT (push_bit 2 1)) AND NOT (push_bit 12 1)) OR 3"
    by (simp add: mmu_init_def set_SCTLR_def L1_TABLE_init_def kprintf_def Let_def)
  have p: "bit (push_bit j 1 :: u32) i \<longleftrightarrow> i = j" if "j < 32" for i j
    unfolding bit_push_bit_iff bit_1_iff using that by auto
  have n: "bit x i \<Longrightarrow> i < 32" for x :: u32 and i using bit_imp_le_length by fastforce
  have "bit (SCTLR (mmu_init a k)) i = (if i = 0 \<or> i = 1 then True else if i = 2 \<or> i = 12 then False
      else bit (SCTLR k) i)" for i
    unfolding s bit_or_iff bit_and_iff bit_not_iff bit_3 using n [of "SCTLR k" i] p [of 2 i] p [of 12 i]
    by (auto simp: less_2_cases_iff)
  then show ?thesis by (simp add: mmu_init_def set_SCTLR_def L1_TABLE_init_def kprintf_def Let_def)
qed

text \<open>\<open>map_userdata_to\<close> changes the entries of the user data and the user heap, to those of the
  process's data section and the section sixteen above it, and no other entry.\<close>

theorem map_userdata_to_frame:
  assumes "length (L1_TABLE k) = 4096" "8 \<le> new" "new < 16"
  shows "\<exists>k'. map_userdata_to new k = Some k' \<and> L1_TABLE k' ! 6 = L1_TABLE k ! nat new \<and>
    L1_TABLE k' ! 7 = L1_TABLE k ! (nat new + 16) \<and> return_heap_address k' = L1_TABLE k ! (nat new + 16) \<and>
    (\<forall>i < 4096. i \<noteq> 6 \<longrightarrow> i \<noteq> 7 \<longrightarrow> L1_TABLE k' ! i = L1_TABLE k ! i)"
proof -
  obtain k' where k': "map_userdata_to new k = Some k'"
    using map_userdata_to_eq [OF assms(1), of new] assms(2,3) by auto
  from map_userdata_to_entries [OF assms k'] k' show ?thesis
    by (simp add: section_consts return_heap_address_def)
qed

theorem map_userdata_to_frame_witness:
  "\<exists>k'. map_userdata_to 9 (L1_TABLE_init blank_kernel) = Some k' \<and>
     L1_TABLE k' ! 6 = L1_TABLE (L1_TABLE_init blank_kernel) ! 9"
  using map_userdata_to_frame [of "L1_TABLE_init blank_kernel" 9] blank_loaded(2) by auto

text \<open>C36. \<open>copy_userdata_template\<close> fills the first 10000 bytes of a process's section from whatever
  section the user data is mapped to at that moment, and changes no other byte of memory: the
  template only before the first switch, afterwards the data of the process that is running.\<close>

theorem copy_userdata_template_copies:
  assumes "kernel_ok k" "mmu_template k = 0x608C02" "8 \<le> p" "p < 16" "q < 4096" "q \<noteq> p"
    and "L1_TABLE k ! 6 AND PHYSICAL_ADDRESS_BITS = push_bit 20 (of_nat q)"
  shows "\<exists>k'. copy_userdata_template (int p) k = Some k' \<and>
    (\<forall>i < 10000. pmem k' (of_nat (p * 1048576 + i)) = pmem k (of_nat (q * 1048576 + i))) \<and>
    (\<forall>a < 4294967296. \<not> (p * 1048576 \<le> a \<and> a < p * 1048576 + 10000) \<longrightarrow> pmem k' (of_nat a) = pmem k (of_nat a))"
proof -
  have e: "L1_TABLE k ! p AND PHYSICAL_ADDRESS_BITS = push_bit 20 (of_nat p)"
    using kernel_ok_section [OF assms(1), of p] assms(3,4) by (simp add: section_entry_def)
  have d: "(push_bit 20 (of_nat p) :: u32) = of_nat (p * 1048576)" by (simp add: push_bit_eq_mult)
  have t: "mmu_template k AND PHYSICAL_ADDRESS_BITS = of_nat (6 * 1048576)"
    by (simp add: assms(2) PHYSICAL_ADDRESS_BITS_def)
  define m where "m = kmemcpy (L1_TABLE k) (of_nat (p * 1048576)) (of_nat (6 * 1048576)) 10000 (pmem k)"
  have "copy_userdata_template (int p) k = Some (k\<lparr>pmem := m\<rparr>)"
    using assms(1,4) unfolding copy_userdata_template_def
    by (simp add: idx_def kernel_ok_def e d t MB_def m_def del: of_nat_mult)
  moreover note kmemcpy_sections [where n = 10000 and m = "pmem k", OF _ _ e _ assms(5,7), folded m_def]
  ultimately show ?thesis using assms(4,6) by auto
qed

theorem copy_userdata_template_copies_witness:
  "\<exists>k'. copy_userdata_template 8 (boot_kernel 0 blank_kernel) = Some k' \<and>
     pmem k' 0x800001 = pmem (boot_kernel 0 blank_kernel) 0x600001"
proof -
  let ?k = "boot_kernel 0 blank_kernel"
  have eq: "L1_TABLE ?k = L1_TABLE (L1_TABLE_init blank_kernel)" "mmu_template ?k = mmu_template (L1_TABLE_init blank_kernel)"
    by (simp_all add: boot_kernel_def process_init_def init_thread_process_arr_def init_processes_array_def
      init_thread_stack_arrays_def kprintf_def Let_def mmu_init_def set_SCTLR_def L1_TABLE_init_def)
  have "L1_TABLE ?k ! 6 AND PHYSICAL_ADDRESS_BITS = push_bit 20 (of_nat 6)" "mmu_template ?k = 0x608C02"
    unfolding eq using init_base(1) [OF blank_loaded(2), of 6] init_template [OF blank_loaded(2)] by simp_all
  from copy_userdata_template_copies [OF boot_counts(1) this(2) _ _ _ _ this(1), of 8]
  obtain k' where "copy_userdata_template 8 ?k = Some k'"
    "\<forall>i < 10000. pmem k' (of_nat (8 * 1048576 + i)) = pmem ?k (of_nat (6 * 1048576 + i))"
    by auto
  then show ?thesis by (auto dest: spec [of _ 1])
qed

subsection \<open>Address spaces\<close>

text \<open>C6. In every state the scheduler can reach from the boot state, whatever threads it creates,
  ends and switches to (up to the first hook that would index \<open>process_array[-1]\<close>), the user data and heap sections that are mapped are those of the process
  of the current thread.\<close>

theorem current_process_is_mapped:
  assumes "kernel_loaded k" "0 \<le> t" "t < 32" "reachable (boot_sys a t k) s"
    and "0 \<le> get_process_id (current s) (kern s)"
  shows "maps_process (kern s) (get_process_id (current s) (kern s))"
  using reachable_inv [OF assms(4,1,2,3)] assms(5) by (simp add: sys_inv_def)

theorem current_process_is_mapped_witness:
  "\<exists>s. reachable (boot_sys 0 0 blank_kernel) s \<and> current s = 2 \<and>
     0 \<le> get_process_id 2 (kern s) \<and> maps_process (kern s) (get_process_id 2 (kern s))"
proof -
  let ?s0 = "boot_sys 0 0 blank_kernel"
  obtain k where k: "scheduler_on_create 2 PARENT (boot_kernel 0 blank_kernel) = Some (0, k)" "kernel_ok k"
      "0 \<le> get_process_id 2 k"
    using parent_two [of 0] by auto
  let ?s1 = "?s0\<lparr>kern := k, alive := insert 2 (alive ?s0)\<rparr>"
  have "sys_step ?s0 (?s0\<lparr>kern := k, alive := if (0::int) = 0 then insert 2 (alive ?s0) else alive ?s0\<rparr>)"
    by (rule sys_step.create [of _ 2 PARENT]) (use k(1) in \<open>simp_all add: boot_sys_def\<close>)
  then have r1: "reachable ?s0 ?s1" using reachable.step [OF reachable.start] by simp
  have g0: "get_process_id 0 k = -1"
    using scheduler_on_create_ok(3) [OF boot_counts(1) k(1), of 0] boot_counts(3) by simp
  have p: "get_process_id 2 k < 8" using get_process_id_range [OF k(2)] by auto
  obtain k2 where k2: "process_switch (get_process_id 2 k) k = Some k2" using switch_defined [OF k(2,3) p] by blast
  have "scheduler_on_schedule (current ?s1) 2 (kern ?s1) = Some k2"
    using k2 g0 k(3) by (simp add: scheduler_on_schedule_def boot_sys_def)
  then have "sys_step ?s1 (?s1\<lparr>kern := k2, current := 2\<rparr>)"
    by (intro sys_step.schedule) simp_all
  then have r2: "reachable ?s0 (?s1\<lparr>kern := k2, current := 2\<rparr>)" by (rule reachable.step [OF r1])
  have "get_process_id 2 k2 = get_process_id 2 k"
    using process_switch_maps [OF k(2) k2] by (metis (lifting))
  then show ?thesis
    using current_process_is_mapped [OF blank_loaded(1) _ _ r2] k(3) r2 by force
qed

text \<open>C16. When the scheduler's hooks stay within the kernel's arrays, exactly, on a well-formed kernel
  and for every thread number, -1 for the idle thread included: a creation is defined unless it
  asks for a process and none of the eight is free, an exit unless the thread is in no process and
  is neither the idle thread nor thread 1, and a switch unless it leads from a thread in a process
  to one in none. In the other cases the code indexes \<open>process_array[-1]\<close>. Wherever a hook is
  defined it leaves a well-formed kernel.\<close>

theorem hooks_type_sound:
  assumes "kernel_ok k" "-1 \<le> t" "t < 32"
  shows "(scheduler_on_create t flags k = None \<longleftrightarrow>
      t \<noteq> -1 \<and> flags = PARENT \<and> (\<forall>p < 8. reserved (process_array k ! p) \<noteq> 0)) \<and>
    (scheduler_on_exit t k = None \<longleftrightarrow> t \<noteq> -1 \<and> t \<noteq> 1 \<and> get_process_id t k = -1) \<and>
    (scheduler_on_schedule old t k = None \<longleftrightarrow> t \<noteq> -1 \<and> get_process_id t k = -1 \<and> get_process_id old k \<noteq> -1) \<and>
    (\<forall>r k'. scheduler_on_create t flags k = Some (r, k') \<longrightarrow> kernel_ok k') \<and>
    (\<forall>k'. scheduler_on_exit t k = Some k' \<or> scheduler_on_schedule old t k = Some k' \<longrightarrow> kernel_ok k')"
proof (intro conjI allI impI)
  have r: "get_process_id u k = -1 \<or> 0 \<le> get_process_id u k" for u
    using get_process_id_range [OF assms(1), of u] by linarith
  show "scheduler_on_create t flags k = None \<longleftrightarrow>
      t \<noteq> -1 \<and> flags = PARENT \<and> (\<forall>p < 8. reserved (process_array k ! p) \<noteq> 0)"
  proof (cases "t \<noteq> -1 \<and> flags = PARENT \<and> (\<forall>p < 8. reserved (process_array k ! p) \<noteq> 0)")
    case True
    then show ?thesis using create_undefined [of t k] by (simp add: find_free_all_reserved)
  next
    case False
    then have "\<exists>r k'. scheduler_on_create t flags k = Some (r, k')"
      using create_defined [OF assms, of flags] unfolding find_free_all_reserved by blast
    then show ?thesis using False by auto
  qed
  show "scheduler_on_exit t k = None \<longleftrightarrow> t \<noteq> -1 \<and> t \<noteq> 1 \<and> get_process_id t k = -1"
    using exit_defined [OF assms] exit_undefined [of t k] r [of t] by auto
  have s: "(\<exists>k'. scheduler_on_schedule old t k = Some k' \<and> kernel_ok k') \<or>
      t \<noteq> -1 \<and> get_process_id t k = -1 \<and> get_process_id old k \<noteq> -1"
    using schedule_defined [OF assms(1), of t old] r [of t] by auto
  then show "scheduler_on_schedule old t k = None \<longleftrightarrow> t \<noteq> -1 \<and> get_process_id t k = -1 \<and> get_process_id old k \<noteq> -1"
    using schedule_undefined [of t k old] by auto
  show "kernel_ok k'" if "scheduler_on_create t flags k = Some (r, k')" for r k'
    using scheduler_on_create_ok(1) [OF assms(1) that] .
  show "kernel_ok k'" if "scheduler_on_exit t k = Some k' \<or> scheduler_on_schedule old t k = Some k'" for k'
    using that scheduler_on_exit_ok(1) [OF assms(1)] s schedule_undefined [of t k old] by auto
qed

theorem hooks_type_sound_witness:
  "\<exists>k k'. scheduler_on_create 2 PARENT (boot_kernel 0 blank_kernel) = Some (0, k) \<and>
     scheduler_on_schedule 0 2 k = Some k' \<and> kernel_ok k'"
proof -
  obtain k where k: "scheduler_on_create 2 PARENT (boot_kernel 0 blank_kernel) = Some (0, k)" "kernel_ok k"
      "0 \<le> get_process_id 2 k"
    using parent_two [of 0] by auto
  moreover from this obtain k' where "scheduler_on_schedule 0 2 k = Some k'"
    using hooks_type_sound [OF k(2), of 2 PARENT 0] by (cases "scheduler_on_schedule 0 2 k") auto
  ultimately show ?thesis using hooks_type_sound [OF k(2), of 2 PARENT 0] by auto
qed

text \<open>C15. Two processes never share memory through the switched entries: the data and heap sections
  that a switch to one of them maps are different from both sections a switch to any other maps.\<close>

theorem processes_isolated:
  assumes "kernel_ok k" "process_switch p k = Some k1" "process_switch q k = Some k2"
    and "0 \<le> p" "p < 8" "0 \<le> q" "q < 8" "p \<noteq> q"
  shows "L1_TABLE k1 ! 6 AND PHYSICAL_ADDRESS_BITS \<noteq> L1_TABLE k2 ! 6 AND PHYSICAL_ADDRESS_BITS \<and>
    L1_TABLE k1 ! 6 AND PHYSICAL_ADDRESS_BITS \<noteq> L1_TABLE k2 ! 7 AND PHYSICAL_ADDRESS_BITS \<and>
    L1_TABLE k1 ! 7 AND PHYSICAL_ADDRESS_BITS \<noteq> L1_TABLE k2 ! 6 AND PHYSICAL_ADDRESS_BITS \<and>
    L1_TABLE k1 ! 7 AND PHYSICAL_ADDRESS_BITS \<noteq> L1_TABLE k2 ! 7 AND PHYSICAL_ADDRESS_BITS"
proof -
  have d: "(push_bit 20 (of_nat x) :: u32) \<noteq> push_bit 20 (of_nat y)" if "x < 4096" "y < 4096" "x \<noteq> y" for x y
  proof -
    have "(push_bit 20 (of_nat z) :: u32) = of_nat (z * 1048576)" for z by (simp add: push_bit_eq_mult)
    then show ?thesis using of_nat_eq_iff_u32 [of "x * 1048576" "y * 1048576"] that by (simp only:)
  qed
  have m: "maps_process k1 p" "maps_process k2 q"
    using process_switch_maps [OF assms(1,2)] process_switch_maps [OF assms(1,3)] assms(4-7) by simp_all
  have e: "L1_TABLE k1 ! 6 AND PHYSICAL_ADDRESS_BITS = push_bit 20 (of_nat (nat (8 + p)))"
    "L1_TABLE k1 ! 7 AND PHYSICAL_ADDRESS_BITS = push_bit 20 (of_nat (nat (24 + p)))"
    "L1_TABLE k2 ! 6 AND PHYSICAL_ADDRESS_BITS = push_bit 20 (of_nat (nat (8 + q)))"
    "L1_TABLE k2 ! 7 AND PHYSICAL_ADDRESS_BITS = push_bit 20 (of_nat (nat (24 + q)))"
    using m by (auto simp: maps_process_def section_entry_def section_consts)
  show ?thesis unfolding e by (intro conjI; rule d; use assms(4-8) in linarith)
qed

theorem processes_isolated_witness:
  "\<exists>k k'. process_switch 0 (boot_kernel 0 blank_kernel) = Some k \<and> process_switch 1 (boot_kernel 0 blank_kernel) = Some k' \<and>
     L1_TABLE k ! 6 AND PHYSICAL_ADDRESS_BITS \<noteq> L1_TABLE k' ! 6 AND PHYSICAL_ADDRESS_BITS"
proof -
  let ?k = "boot_kernel 0 blank_kernel"
  have ok: "kernel_ok ?k" by (rule boot_counts(1))
  from switch_defined [OF ok, of 0] switch_defined [OF ok, of 1] obtain k k' where k: "process_switch 0 ?k = Some k" "process_switch 1 ?k = Some k'"
    by auto
  then show ?thesis
    using processes_isolated [OF ok k] by auto
qed

subsection \<open>Processes\<close>

text \<open>A parent thread gets a process of its own as long as one of the eight is free: the creation
  succeeds, the thread belongs to the first free process, and every process still counts exactly
  its threads and is reserved exactly while it has some.\<close>

theorem parent_gets_free_process:
  assumes "kernel_ok k" "counts_ok k" "0 \<le> t" "t < 32" "get_process_id t k = -1"
    and "find_free_process_address k \<noteq> -1"
  shows "\<exists>k'. scheduler_on_create t PARENT k = Some (0, k') \<and> counts_ok k' \<and>
    get_process_id t k' = find_free_process_address k \<and> scheduler_pid k' = find_free_process_address k"
  using create_parent_counts [OF assms] .

theorem parent_gets_free_process_witness:
  "\<exists>k'. scheduler_on_create 5 PARENT (boot_kernel 0 blank_kernel) = Some (0, k') \<and> counts_ok k'"
  using parent_gets_free_process [OF boot_counts(1,2) _ _ boot_counts(3,4), of 5] by auto

text \<open>A child thread joins the process created last: the creation succeeds and the counts stay
  right, provided that process still has a thread.\<close>

theorem child_joins_process:
  assumes "kernel_ok k" "counts_ok k" "0 \<le> t" "t < 32" "get_process_id t k = -1"
    and "reserved (process_array k ! nat (scheduler_pid k)) \<noteq> 0"
  shows "\<exists>k'. scheduler_on_create t CHILD k = Some (0, k') \<and> counts_ok k' \<and> get_process_id t k' = scheduler_pid k"
  using create_child_counts [OF assms] .

theorem child_joins_process_witness:
  "\<exists>k k'. scheduler_on_create 2 PARENT (boot_kernel 0 blank_kernel) = Some (0, k) \<and>
     scheduler_on_create 3 CHILD k = Some (0, k') \<and> get_process_id 3 k' = get_process_id 2 k"
proof -
  obtain k where k: "scheduler_on_create 2 PARENT (boot_kernel 0 blank_kernel) = Some (0, k)" "kernel_ok k"
      "counts_ok k" "0 \<le> get_process_id 2 k" "get_process_id 3 k = -1" "scheduler_pid k = get_process_id 2 k"
    using parent_two [of 0] by blast
  have "nat (scheduler_pid k) < 8" "int (nat (scheduler_pid k)) = get_process_id 2 k"
    using k(2,4,6) get_process_id_range [OF k(2), of 2] by auto
  then have "reserved (process_array k ! nat (scheduler_pid k)) \<noteq> 0" using reserved_iff_thread [OF k(2,3)] by auto
  from child_joins_process [OF k(2,3) _ _ k(5) this] k(1,6) show ?thesis by auto
qed

text \<open>C17. A child need not join the process of its parent. When a second parent is created before the
  first one has made its child, the child joins the process of the second, and so works on that
  process's data and heap and not on its own parent's.\<close>

theorem child_joins_foreign_process:
  assumes "kernel_ok k" "counts_ok k" "0 \<le> t1" "t1 < 32" "0 \<le> t2" "t2 < 32" "0 \<le> t3" "t3 < 32"
    and "t1 \<noteq> t2" "t1 \<noteq> t3" "t2 \<noteq> t3" "\<forall>t \<in> {t1, t2, t3}. get_process_id t k = -1"
    and "p < 8" "q < 8" "p \<noteq> q" "reserved (process_array k ! p) = 0" "reserved (process_array k ! q) = 0"
  shows "\<exists>k1 k2 k3. scheduler_on_create t1 PARENT k = Some (0, k1) \<and> scheduler_on_create t2 PARENT k1 = Some (0, k2) \<and>
    scheduler_on_create t3 CHILD k2 = Some (0, k3) \<and> get_process_id t3 k3 = get_process_id t2 k3 \<and>
    get_process_id t3 k3 \<noteq> get_process_id t1 k3"
proof -
  have f: "find_free_process_address k \<noteq> -1" using assms(13,16) find_free_all_reserved by blast
  obtain k1 where k1: "scheduler_on_create t1 PARENT k = Some (0, k1)" "counts_ok k1"
      "get_process_id t1 k1 = find_free_process_address k"
    using create_parent_counts [OF assms(1-4) _ f] assms(12) by auto
  note o1 = scheduler_on_create_ok [OF assms(1) k1(1)]
  have "\<exists>r < 8. reserved (process_array k1 ! r) = 0"
    using create_keeps_free [OF assms(1,2) k1(1,2)] assms(13-17) by (metis of_nat_eq_iff)
  then have f1: "find_free_process_address k1 \<noteq> -1" using find_free_all_reserved by blast
  obtain k2 where k2: "scheduler_on_create t2 PARENT k1 = Some (0, k2)" "counts_ok k2"
      "get_process_id t2 k2 = find_free_process_address k1" "scheduler_pid k2 = find_free_process_address k1"
    using create_parent_counts [OF o1(1) k1(2) assms(5,6) _ f1] o1(3) [of t2] assms(9,12) by auto
  note o2 = scheduler_on_create_ok [OF o1(1) k2(1)]
  let ?q = "nat (find_free_process_address k1)"
  have q: "?q < 8" "int ?q = get_process_id t2 k2" "reserved (process_array k1 ! ?q) = 0"
    using find_free_process_range [of k1] f1 k2(3) by auto
  have differ: "get_process_id t1 k1 \<noteq> get_process_id t2 k2"
    using reserved_iff_thread [OF o1(1) k1(2) q(1)] q(2,3) by auto
  have "reserved (process_array k2 ! nat (scheduler_pid k2)) \<noteq> 0"
    using reserved_iff_thread [OF o2(1) k2(2) q(1)] q(2) k2(4) by auto
  then obtain k3 where k3: "scheduler_on_create t3 CHILD k2 = Some (0, k3)" "get_process_id t3 k3 = scheduler_pid k2"
    using create_child_counts [OF o2(1) k2(2) assms(7,8)] o1(3) [of t3] o2(3) [of t3] assms(10-12) by auto
  note o3 = scheduler_on_create_ok [OF o2(1) k3(1)]
  show ?thesis
    using k1(1) k2 k3 differ o2(3) [of t1] o3(3) [of t1] o3(3) [of t2] assms(9-11) by auto
qed

theorem child_joins_foreign_process_witness:
  "\<exists>k1 k2 k3. scheduler_on_create 2 PARENT (boot_kernel 0 blank_kernel) = Some (0, k1) \<and>
     scheduler_on_create 3 PARENT k1 = Some (0, k2) \<and> scheduler_on_create 4 CHILD k2 = Some (0, k3) \<and>
     get_process_id 4 k3 \<noteq> get_process_id 2 k3"
proof -
  have "\<exists>k1 k2 k3. scheduler_on_create 2 PARENT (boot_kernel 0 blank_kernel) = Some (0, k1) \<and>
      scheduler_on_create 3 PARENT k1 = Some (0, k2) \<and> scheduler_on_create 4 CHILD k2 = Some (0, k3) \<and>
      get_process_id 4 k3 = get_process_id 3 k3 \<and> get_process_id 4 k3 \<noteq> get_process_id 2 k3"
    by (rule child_joins_foreign_process [OF boot_counts(1,2), where p = 0 and q = 1])
      (simp_all add: boot_counts(3) boot_kernel_ok(4) [OF blank_loaded(1)])
  then show ?thesis by blast
qed

text \<open>A thread that ends leaves its process: the count goes down by one, and a process whose last
  thread ends is free again.\<close>

theorem exit_leaves_process:
  assumes "kernel_ok k" "counts_ok k" "0 \<le> t" "t < 32" "t \<noteq> 1" "get_process_id t k = p" "0 \<le> p"
  shows "\<exists>k'. scheduler_on_exit t k = Some k' \<and> counts_ok k' \<and> get_process_id t k' = -1 \<and>
    int (threads_of k' p) = int (threads_of k p) - 1"
  using exit_counts [OF assms] .

theorem exit_leaves_process_witness:
  "\<exists>k k'. scheduler_on_create 2 PARENT (boot_kernel 0 blank_kernel) = Some (0, k) \<and>
     scheduler_on_exit 2 k = Some k' \<and> counts_ok k' \<and> get_process_id 2 k' = -1"
proof -
  obtain k where k: "scheduler_on_create 2 PARENT (boot_kernel 0 blank_kernel) = Some (0, k)" "kernel_ok k"
      "counts_ok k" "0 \<le> get_process_id 2 k"
    using parent_two [of 0] by blast
  from exit_leaves_process [OF k(2,3) _ _ _ refl k(4)] k(1) show ?thesis by auto
qed

end
