(* ===== verification/Memory_Properties.thy ===== *)
theory Memory_Properties imports Heap_Properties Kernel_Properties begin

text \<open>
  Where the heap of \<^verbatim>\<open>user/heap.c\<close> meets the sections of \<^verbatim>\<open>memory/mmu.c\<close>: the two words outside the
  heap that \<open>malloc\<close> writes, and whose memory the one behind the heap is.
\<close>

subsection \<open>The two words\<close>

lemma load32_ldn: "load32 m 0x80000C = ldn m (hend + 12)" "load32 m 8 = ldn m 8"
  by (simp_all add: ldn_def hend_def)

lemma top_request:
  assumes "heap_rep h bs" "\<forall>b \<in> set bs. \<not> snd b" "0 < k" "hbase + span bs + rounded k + 12 \<le> hend"
  defines "t \<equiv> hbase + span bs + rounded k + 8"
  shows "\<exists>h'. malloc (of_nat k) h = Some (of_nat (hbase + span bs), h') \<and>
    heap_rep h' (bs @ [(rounded k, False)]) \<and>
    load32 (hmem h') 8 = of_nat t \<and> load32 (hmem h') 0x80000C = of_nat (hend - t)"
proof -
  have none: "first_fit (rounded k) hbase bs = None"
    using assms(2) by (auto simp: first_fit_None_iff)
  have "spec_malloc (rounded k) bs = Some (hbase + span bs, bs @ [(rounded k, False)])"
    using none assms(4) by (simp add: spec_malloc_def alloc_in_append)
  moreover have "k \<le> 4294967292" using rounded_facts(2) [of k] assms(4) by (simp add: hend_def)
  moreover have "counter_ok h bs" using assms(2) by (simp add: counter_ok_def)
  ultimately show ?thesis
    using malloc_rep [OF assms(1) _ assms(3)] none lf_reserved [OF assms(2)]
    by (fastforce simp: load32_ldn t_def)
qed

text \<open>C26. While no block is free, every call of \<open>malloc\<close> after the first stores twice outside the
  heap: the address of the new top block through the null pointer that \<open>find_prev_free\<close> has returned,
  at address 8, and the size of the top block in the \<open>prev_size\<close> of a block that would begin eight
  bytes behind the heap, at \<open>0x80000C\<close>.\<close>

theorem malloc_stores_outside_heap:
  assumes "heap_rep h bs" "\<forall>b \<in> set bs. \<not> snd b" "0 < k" "hbase + span bs + rounded k + 12 \<le> hend"
  shows "\<exists>h'. malloc (of_nat k) h = Some (of_nat (hbase + span bs), h') \<and>
    load32 (hmem h') 8 = of_nat (hbase + span bs + rounded k + 8) \<and>
    load32 (hmem h') 0x80000C = of_nat (hend - (hbase + span bs + rounded k + 8))"
  using top_request [OF assms] by blast

theorem malloc_stores_outside_heap_witness:
  "\<exists>h h'. heap_rep h [(16, False)] \<and> malloc 32 h = Some (0x700018, h') \<and>
     load32 (hmem h') 8 = 0x700040 \<and> load32 (hmem h') 0x80000C = 0xFFFC0"
proof -
  obtain h where h: "heap_rep h [(16, False)]" using small_heap by blast
  show ?thesis using malloc_stores_outside_heap [OF h, of 32] h by (auto simp: rounded_def hbase_def hend_def)
qed

subsection \<open>Whose memory it is\<close>

text \<open>Section 8 is mapped to itself in every process, and the user data of process 0 is there too.\<close>

lemma behind_the_heap:
  assumes "kernel_ok k" "process_switch p k = Some kp" "process_switch 0 k = Some k0" "i < 4"
  shows "phys (L1_TABLE kp) (0x80000C + of_nat i) = 0x80000C + of_nat i"
    "phys (L1_TABLE k0) (0x60000C + of_nat i) = 0x80000C + of_nat i"
proof -
  have "section_entry (L1_TABLE kp ! 8) 8" "section_entry (L1_TABLE k0 ! 6) 8"
    using process_switch_maps [OF assms(1,2)] process_switch_maps [OF assms(1,3)] kernel_ok_section [of kp 8]
    by (simp_all add: maps_process_def section_consts)
  then show "phys (L1_TABLE kp) (0x80000C + of_nat i) = 0x80000C + of_nat i"
    "phys (L1_TABLE k0) (0x60000C + of_nat i) = 0x80000C + of_nat i"
    using phys_section [of 8 8 "12 + i" "L1_TABLE kp"] phys_section [of 6 8 "12 + i" "L1_TABLE k0"] assms(4)
    by (simp_all add: section_entry_def add.assoc)
qed

text \<open>C25. The heap is not confined to its process. When any process \<open>p\<close> calls \<open>malloc\<close> as above, the
  word behind the heap goes through the table of \<open>p\<close> to user data of process 0: with whatever
  physical memory holds that word, process 0 then reads the size of \<open>p\<close>'s top block at its own
  address \<open>0x60000C\<close>.\<close>

theorem malloc_overwrites_process_0:
  assumes "heap_rep h bs" "\<forall>b \<in> set bs. \<not> snd b" "0 < n" "hbase + span bs + rounded n + 12 \<le> hend"
    and "kernel_ok k" "process_switch p k = Some kp" "process_switch 0 k = Some k0"
    and "malloc (of_nat n) h = Some (a, h')"
    and "\<forall>i < 4. pm (phys (L1_TABLE kp) (0x80000C + of_nat i)) = hmem h' (0x80000C + of_nat i)"
  shows "load32 (\<lambda>va. pm (phys (L1_TABLE k0) va)) 0x60000C = of_nat (hend - (hbase + span bs + rounded n + 8))"
proof -
  have "pm (phys (L1_TABLE k0) (0x60000C + of_nat i)) = hmem h' (0x80000C + of_nat i)" if "i < 4" for i
    using behind_the_heap [OF assms(5,6,7) that] assms(9) that by metis
  from this [of 0] this [of 1] this [of 2] this [of 3]
  have "load32 (\<lambda>va. pm (phys (L1_TABLE k0) va)) 0x60000C = load32 (hmem h') 0x80000C"
    by (simp add: load32_def)
  then show ?thesis using top_request [OF assms(1-4)] assms(8) by auto
qed

theorem malloc_overwrites_process_0_witness:
  "\<exists>h h' kp k0. process_switch 3 (boot_kernel 0 blank_kernel) = Some kp \<and>
     process_switch 0 (boot_kernel 0 blank_kernel) = Some k0 \<and> malloc 32 h = Some (0x700018, h') \<and>
     load32 (\<lambda>va. hmem h' (phys (L1_TABLE k0) va)) 0x60000C = 0xFFFC0"
proof -
  let ?k = "boot_kernel 0 blank_kernel"
  have ok: "kernel_ok ?k" by (rule boot_counts(1))
  obtain kp k0 where s: "process_switch 3 ?k = Some kp" "process_switch 0 ?k = Some k0"
    using switch_defined [OF ok, of 3] switch_defined [OF ok, of 0] by auto
  obtain h where h: "heap_rep h [(16, False)]" using small_heap by blast
  have fits: "hbase + span [(16, False)] + rounded 32 + 12 \<le> hend" by (simp add: rounded_def hbase_def hend_def)
  obtain h' where h': "malloc 32 h = Some (0x700018, h')"
    using top_request [OF h _ _ fits] by (auto simp: hbase_def)
  have "\<forall>i < 4. hmem h' (phys (L1_TABLE kp) (0x80000C + of_nat i)) = hmem h' (0x80000C + of_nat i)"
    using behind_the_heap(1) [OF ok s] by simp
  from malloc_overwrites_process_0 [OF h _ _ fits ok s _ this] h' s show ?thesis
    by (auto simp: rounded_def hbase_def hend_def)
qed

end
