(* ===== verification/Exception_Properties.thy ===== *)
theory Exception_Properties imports Exceptions begin

text \<open>
  The properties of the exception handler: when it does not return, which library calls each
  system call makes and in which order, who is ended for an abort.
\<close>

subsection \<open>A machine and a library for the instances\<close>

definition zero_regs :: regs where
  "zero_regs = \<lparr>r0 = 0, r1 = 0, r2 = 0, r3 = 0, r4 = 0, r5 = 0, r6 = 0, r7 = 0, r8 = 0, r9 = 0, r10 = 0,
     r11 = 0, r12 = 0, sp = 0, lr = 0, psr = 0, pc = 0\<rparr>"

definition user_machine :: "unit machine" where
  "user_machine = \<lparr>frame = zero_regs, env = (), trace = [], spsr = 0x10, k_time = 0, k_id = 0\<rparr>"

definition char_lib :: "unit lib" where "char_lib c fe = (0x141, fe)"

lemma char_lib_keeps: "keeps_frame char_lib"
  by (simp add: keeps_frame_def char_lib_def)

subsection \<open>Which outcomes there are\<close>


lemma call_fst: "fst (call lib c s) = fst (lib c (frame s, env s))"
  by (simp add: call_def split: prod.splits)

lemma call_user: "user_responsible (snd (call lib c s)) = user_responsible s"
  using call_fields(2) [of lib c s "fst (call lib c s)"] by (simp add: user_responsible_def)

lemma do_calls_user [simp]:
  "user_responsible (do_call lib c s) = user_responsible s" "user_responsible (do_calls lib cs s) = user_responsible s"
  by (simp_all add: user_responsible_def)




subsection \<open>System calls\<close>




text \<open>A sleeping thread is put to sleep only if the library says that the current thread is the
  idle thread; any other thread is taken from the round robin without a time.\<close>

theorem sleep_branches:
  assumes "keeps_frame lib" "r7 (frame s) AND 0xFF = 4"
    and "\<And>fe. fst (lib Scheduler_get_current_thread fe) = t"
    and "\<And>x fe. fst (lib (Scheduler_get_regs x) fe) = q"
  shows "\<exists>s'. exception_handler lib 2 p s = Returned s' \<and> k_time s' = 0 \<and> k_id s' = t \<and>
    trace s' = trace s @ [Kprintf (''## SWI released ##'' @ nl) [], Scheduler_get_current_thread] @
      (if t \<noteq> - 1 then [Scheduler_schedule_next p]
       else [Scheduler_get_regs (- 1), Scheduler_current_sleep q (r0 (frame s))])"
proof -
  define s1 where "s1 = do_call lib (Kprintf (''## SWI released ##'' @ nl) []) s"
  define s2 where "s2 = s1\<lparr>k_time := r0 (frame s1)\<rparr>"
  obtain s3 where c: "call lib Scheduler_get_current_thread s2 = (t, s3)"
    by (metis assms(3) call_fst prod.collapse)
  define s4 where "s4 = s3\<lparr>k_id := t\<rparr>"
  obtain s5 where g: "call lib (Scheduler_get_regs t) s4 = (q, s5)"
    by (metis assms(4) call_fst prod.collapse)
  have f: "frame s1 = frame s" using assms(1) by (simp add: s1_def)
  note cf = call_fields [OF c] and gf = call_fields [OF g]
  define s6 where "s6 = (if t \<noteq> - 1 then do_call lib (Scheduler_schedule_next p) s4
      else do_call lib (Scheduler_current_sleep q (k_time s5)) s5)"
  have g': "call lib (Scheduler_get_regs (- 1)) (s3\<lparr>k_id := - 1\<rparr>) = (q, s5)" if "t = - 1"
    using g that by (simp add: s4_def)
  have "svc_handler lib E_SWI p s1 = s6\<lparr>k_time := 0\<rparr>"
    using assms(2) g'
    by (simp add: svc_handler_def svc_consts LS_BYTE_def Let_def f s6_def s2_def [symmetric, unfolded f]
      c g s4_def [symmetric])
  moreover have "exception_handler lib 2 p s = Returned (svc_handler lib E_SWI p s1)"
    by (simp add: exception_handler_def e_consts s1_def)
  moreover have "trace s6 = trace s @ [Kprintf (''## SWI released ##'' @ nl) [], Scheduler_get_current_thread] @
      (if t \<noteq> - 1 then [Scheduler_schedule_next p]
       else [Scheduler_get_regs (- 1), Scheduler_current_sleep q (r0 (frame s))])" "k_id s6 = t"
    using cf gf assms(1) by (auto simp: s6_def s4_def s2_def s1_def)
  ultimately show ?thesis by simp
qed

theorem sleep_branches_witness:
  "\<exists>s'. exception_handler char_lib 2 64 (user_machine\<lparr>frame := zero_regs\<lparr>r7 := 4, r0 := 10\<rparr>\<rparr>) = Returned s' \<and>
     trace s' = [Kprintf (''## SWI released ##'' @ nl) [], Scheduler_get_current_thread, Scheduler_schedule_next 64]"
  using sleep_branches [OF char_lib_keeps, where s = "user_machine\<lparr>frame := zero_regs\<lparr>r7 := 4, r0 := 10\<rparr>\<rparr>" and t = "0x141" and q = "0x141" and p = 64]
  by (auto simp: user_machine_def zero_regs_def char_lib_def)











subsection \<open>Coming back\<close>







subsection \<open>Aborts\<close>

text \<open>C33. A user thread that causes a prefetch or a data abort is ended, as the last thing the handler
  does before it returns.\<close>

theorem user_abort_ends_thread:
  assumes "mode = E_PABT \<or> mode = E_DABT" "user_responsible s"
  shows "\<exists>s' cs. exception_handler lib mode p s = Returned s' \<and>
    trace s' = trace s @ cs @ [Kprintf (''User Responsible for the Abort'' @ nl) [], Scheduler_end_current_thread p]"
  using assms(1)
proof
  assume m: "mode = E_PABT"
  obtain t s1 where c: "call lib Scheduler_get_current_thread s = (t, s1)" by fastforce
  then have "user_responsible s1" using call_user [of lib Scheduler_get_current_thread s] assms(2) by simp
  then show ?thesis using call_fields(1) [OF c] by (simp add: m exception_handler_def e_consts Let_def c)
next
  assume "mode = E_DABT"
  then show ?thesis using assms(2) by (simp add: exception_handler_def e_consts Let_def)
qed

theorem user_abort_ends_thread_witness:
  "\<exists>s' cs. exception_handler char_lib 4 8 user_machine = Returned s' \<and>
     trace s' = cs @ [Kprintf (''User Responsible for the Abort'' @ nl) [], Scheduler_end_current_thread 8]"
  using user_abort_ends_thread [of 4 user_machine char_lib 8]
  by (auto simp: e_consts user_responsible_def user_machine_def FIRST5_def USR_def)

text \<open>C34. The kernel's own aborts: a data abort is printed and nothing more, so the handler returns to
  the instruction that failed, while a prefetch abort ends in the endless loop after its message.\<close>

theorem kernel_aborts:
  assumes "\<not> user_responsible s"
  shows "(\<exists>s'. exception_handler lib E_DABT p s = Returned s' \<and>
      trace s' = trace s @ [Kprintf (''## Data Abort released ##'' @ nl) []]) \<and>
    (\<exists>s' cs. exception_handler lib E_PABT p s = Hangs s' \<and> trace s' = trace s @ Scheduler_get_current_thread # cs @
      [Kprintf (''Kernel Responsible for the Abort !! System angehalten'' @ nl) []])"
proof -
  obtain t s1 where c: "call lib Scheduler_get_current_thread s = (t, s1)" by fastforce
  then have "\<not> user_responsible s1" using call_user [of lib Scheduler_get_current_thread s] assms by simp
  then show ?thesis using assms call_fields(1) [OF c] by (simp add: exception_handler_def e_consts Let_def c)
qed

theorem kernel_aborts_witness:
  "\<exists>s'. exception_handler char_lib 4 0 (user_machine\<lparr>spsr := 0x13\<rparr>) = Returned s' \<and>
     trace s' = [Kprintf (''## Data Abort released ##'' @ nl) []]"
  using kernel_aborts [of "user_machine\<lparr>spsr := 0x13\<rparr>" char_lib 0]
  by (auto simp: e_consts user_responsible_def user_machine_def FIRST5_def USR_def)

end
