(* ===== verification/Syscalls.thy ===== *)
theory Syscalls imports Exceptions Process begin

text \<open>
  The system calls as a user program sees them: the stubs of \<^verbatim>\<open>user/syscall.S\<close> composed with the
  kernel. A stub pushes r7 and lr, puts the number of the call into r7, executes \<open>svc\<close>, pops the two
  registers and returns to lr. The environment of the machine has the memory as its first part, so
  that the stack of the caller is the one the kernel could change.

  The library serves the five numbers of \<open>enum SYSCALL_ID\<close> itself, and only an unknown number reaches
  \<open>exception\<close> (\<^verbatim>\<open>include/exceptions.h\<close>); the arguments of a service are those of the prototypes in
  \<^verbatim>\<open>include/syscall.h\<close>, in r0 to r3. What the services do is the parameter \<open>lib\<close>.
\<close>

definition EXIT :: u32 where "EXIT = 0"
definition EXEC :: u32 where "EXEC = 1"
definition PUTC :: u32 where "PUTC = 2"
definition GETC :: u32 where "GETC = 3"
definition SLEEP :: u32 where "SLEEP = 4"
lemmas call_consts = EXIT_def EXEC_def PUTC_def GETC_def SLEEP_def

definition service :: "u32 \<Rightarrow> regs \<Rightarrow> lib_call option" where
  "service n r = (if n = EXIT then Some Svc_exit
     else if n = EXEC then Some (Svc_exec (r0 r) (r1 r) (r2 r) (r3 r))
     else if n = PUTC then Some (Svc_putc (ucast (r0 r)))
     else if n = GETC then Some Svc_getc
     else if n = SLEEP then Some (Svc_sleep (r0 r))
     else None)"

definition push_r7_lr :: "(mem \<times> 'k) machine \<Rightarrow> (mem \<times> 'k) machine" where
  "push_r7_lr s = (let r = frame s; (m, k) = env s in
     s\<lparr>frame := r\<lparr>sp := sp r - 8\<rparr>, env := (store32 (sp r - 4) (lr r) (store32 (sp r - 8) (r7 r) m), k)\<rparr>)"

definition pop_r7_lr :: "(mem \<times> 'k) machine \<Rightarrow> (mem \<times> 'k) machine" where
  "pop_r7_lr s = (let r = frame s; (m, k) = env s in
     s\<lparr>frame := r\<lparr>r7 := load32 m (sp r), lr := load32 m (sp r + 4), sp := sp r + 8\<rparr>\<rparr>)"

text \<open>\<open>p\<close> is the address of the saved registers that the kernel's entry code passes to the handler.
  A call that does not come back at all is \<open>None\<close>.\<close>

definition svc :: "(mem \<times> 'k) lib \<Rightarrow> u32 \<Rightarrow> (mem \<times> 'k) machine \<Rightarrow> (mem \<times> 'k) machine option" where
  "svc lib p s = (case service (r7 (frame s) AND LS_BYTE) (frame s) of
     Some c \<Rightarrow> Some (do_call lib c s)
   | None \<Rightarrow> (case exception_handler lib E_SWI p s of Returned s \<Rightarrow> Some s | _ \<Rightarrow> None))"

definition stub :: "u32 \<Rightarrow> (mem \<times> 'k) lib \<Rightarrow> u32 \<Rightarrow> (mem \<times> 'k) machine \<Rightarrow> (mem \<times> 'k) machine option" where
  "stub n lib p s = (let s = push_r7_lr s; s = s\<lparr>frame := (frame s)\<lparr>r7 := n\<rparr>\<rparr> in
     case svc lib p s of None \<Rightarrow> None
     | Some s \<Rightarrow> (let s = pop_r7_lr s in Some (s\<lparr>frame := (frame s)\<lparr>pc := lr (frame s)\<rparr>\<rparr>)))"

definition syscall_exec :: "(mem \<times> 'k) lib \<Rightarrow> u32 \<Rightarrow> (mem \<times> 'k) machine \<Rightarrow> (mem \<times> 'k) machine option" where
  "syscall_exec = stub EXEC"

definition syscall_putc_stub :: "(mem \<times> 'k) lib \<Rightarrow> u32 \<Rightarrow> (mem \<times> 'k) machine \<Rightarrow> (mem \<times> 'k) machine option" where
  "syscall_putc_stub = stub PUTC"

definition syscall_getc :: "(mem \<times> 'k) lib \<Rightarrow> u32 \<Rightarrow> (mem \<times> 'k) machine \<Rightarrow> (mem \<times> 'k) machine option" where
  "syscall_getc = stub GETC"

definition syscall_sleep :: "(mem \<times> 'k) lib \<Rightarrow> u32 \<Rightarrow> (mem \<times> 'k) machine \<Rightarrow> (mem \<times> 'k) machine option" where
  "syscall_sleep = stub SLEEP"

text \<open>\<open>syscall_exit\<close> saves nothing; it is declared not to return.\<close>

definition syscall_exit :: "(mem \<times> 'k) lib \<Rightarrow> u32 \<Rightarrow> (mem \<times> 'k) machine \<Rightarrow> (mem \<times> 'k) machine option" where
  "syscall_exit lib p s = svc lib p (s\<lparr>frame := (frame s)\<lparr>r7 := EXIT\<rparr>\<rparr>)"

subsection \<open>What the library keeps\<close>

text \<open>
  Calls that print or use the UART touch neither the saved registers nor the memory of the
  program nor the kernel's tables (\<^verbatim>\<open>include/uart.h\<close>, \<^verbatim>\<open>include/debug.h\<close>).
\<close>

definition keeps_all :: "(mem \<times> 'k) lib \<Rightarrow> bool" where
  "keeps_all lib \<longleftrightarrow> (\<forall>c f e. quiet c \<longrightarrow> snd (lib c (f, e)) = (f, e))"

text \<open>
  In the kernel state \<open>k\<close> a service puts \<open>v\<close> into r0 and leaves \<open>k'\<close>; it keeps the other registers of the
  caller and its memory.
\<close>

definition serves :: "(mem \<times> 'k) lib \<Rightarrow> lib_call \<Rightarrow> u32 \<Rightarrow> 'k \<Rightarrow> 'k \<Rightarrow> bool" where
  "serves lib c v k k' \<longleftrightarrow> (\<forall>r m. snd (lib c (r, m, k)) = (r\<lparr>r0 := v\<rparr>, m, k'))"

text \<open>
  Exec announces the new thread, here the one with the number \<open>t\<close>, to \<open>scheduler_on_create\<close> with the
  flags of the system call, and then copies the arguments to the stack of that thread; it refuses
  arguments of more than \<open>lim\<close> bytes with \<open>-2\<close> (\<^verbatim>\<open>include/scheduler.h\<close>). \<open>W\<close> holds the addresses the kernel
  and the hook write for the new thread: its stack, and the user data of its process. When the hook
  comes back, the caller's registers are as before but for the result, and its memory is the same
  outside \<open>W\<close>.
\<close>

definition serves_outside :: "(mem \<times> 'k) lib \<Rightarrow> lib_call \<Rightarrow> u32 set \<Rightarrow> 'k \<Rightarrow> 'k \<Rightarrow> bool" where
  "serves_outside lib c W k k' \<longleftrightarrow> (\<forall>r m. \<exists>v m'. snd (lib c (r, m, k)) = (r\<lparr>r0 := v\<rparr>, m', k') \<and>
     (\<forall>x. x \<notin> W \<longrightarrow> m' x = m x))"

definition announces_as :: "(mem \<times> kernel) lib \<Rightarrow> int \<Rightarrow> u32 \<Rightarrow> u32 set \<Rightarrow> bool" where
  "announces_as lib t lim W \<longleftrightarrow> (\<forall>f a n flags k r k'. n \<le> lim \<longrightarrow> scheduler_on_create t flags k = Some (r, k') \<longrightarrow>
     serves_outside lib (Svc_exec f a n flags) W k k')"

text \<open>The eight bytes in which a stub keeps r7 and lr of its caller.\<close>

definition saved_bytes :: "regs \<Rightarrow> u32 set" where
  "saved_bytes r = {x. \<exists>i < 8. x = sp r - 8 + of_nat i}"

lemma keeps_all_frame: "keeps_all lib \<Longrightarrow> keeps_frame lib"
  by (auto simp: keeps_all_def keeps_frame_def)

lemma call_quiet:
  assumes "keeps_all lib" "quiet c" "call lib c s = (r, s')"
  shows "frame s' = frame s" "env s' = env s"
proof -
  obtain v f e where l: "lib c (frame s, env s) = (v, f, e)" by (metis prod_cases3)
  have "snd (lib c (frame s, env s)) = (frame s, env s)" using assms(1,2) unfolding keeps_all_def by blast
  then have "f = frame s" "e = env s" by (simp_all add: l)
  then show "frame s' = frame s" "env s' = env s" using assms(3) l by (auto simp: call_def)
qed

lemma do_call_quiet:
  assumes "keeps_all lib" "quiet c"
  shows "frame (do_call lib c s) = frame s" "env (do_call lib c s) = env s"
  using call_quiet [OF assms, of s "fst (call lib c s)"] by (simp_all add: do_call_def)

subsection \<open>The stack of a stub\<close>

lemma sp_bytes:
  assumes "aligned4 x"
  shows "aligned4 (x - 8)" "aligned4 (x - 4)" "x - 4 \<noteq> x - 8" "x - 8 + 4 = x - (4 :: u32)"
proof -
  have u: "unat (x - 8) = (if 8 \<le> unat x then unat x - 8 else 4294967296 + unat x - 8)"
    "unat (x - 4) = (if 4 \<le> unat x then unat x - 4 else 4294967296 + unat x - 4)"
    by (simp_all add: unat_sub_if')
  show "aligned4 (x - 8)" "aligned4 (x - 4)"
    using assms unfolding aligned4_def u by presburger+
  show "x - 4 \<noteq> x - 8" "x - 8 + 4 = x - 4" by simp_all
qed

text \<open>The bytes the push writes.\<close>

lemma saved_bytes_words:
  assumes "i < 4"
  shows "sp r - 8 + of_nat i \<in> saved_bytes r" "sp r - 4 + of_nat i \<in> saved_bytes r"
proof -
  show "sp r - 8 + of_nat i \<in> saved_bytes r" using assms by (auto simp: saved_bytes_def intro: exI [of _ i])
  have "sp r - 4 + of_nat i = sp r - 8 + of_nat (4 + i)" by simp
  then show "sp r - 4 + of_nat i \<in> saved_bytes r"
    using assms unfolding saved_bytes_def by (metis (mono_tags, lifting) mem_Collect_eq add_strict_left_mono numeral_Bit0)
qed

lemma store32_outside:
  assumes "\<And>i. i < 4 \<Longrightarrow> x \<noteq> a + of_nat i"
  shows "store32 a v m x = m x"
  using assms [of 0] assms [of 1] assms [of 2] assms [of 3] by (simp add: store32_def)

lemma push_outside:
  assumes "x \<notin> saved_bytes r"
  shows "store32 (sp r - 4) v (store32 (sp r - 8) w m) x = m x"
  using assms saved_bytes_words [of _ r] by (subst store32_outside; (subst store32_outside)?) blast+

text \<open>If the kernel leaves those bytes and the stack pointer of the caller, the pop undoes the push.\<close>

lemma pop_push:
  assumes "aligned4 (sp (frame s))" "env s = (m, k)" "env s2 = (m2, k2)"
    and "\<And>x. x \<in> saved_bytes (frame s) \<Longrightarrow> m2 x = fst (env (push_r7_lr s)) x"
    and "sp (frame s2) = sp (frame s) - 8"
  shows "pop_r7_lr s2 = s2\<lparr>frame := (frame s2)\<lparr>r7 := r7 (frame s), lr := lr (frame s), sp := sp (frame s)\<rparr>\<rparr>"
proof -
  note b = sp_bytes [OF assms(1)]
  have "load32 m2 (sp (frame s) - 8) = load32 (fst (env (push_r7_lr s))) (sp (frame s) - 8)"
    "load32 m2 (sp (frame s) - 4) = load32 (fst (env (push_r7_lr s))) (sp (frame s) - 4)"
    by (intro load32_cong assms(4) saved_bytes_words; assumption)+
  then show ?thesis
    using assms(2,3,5) b by (simp add: pop_r7_lr_def push_r7_lr_def Let_def load32_store32_same load32_store32_other)
qed

lemma push_fields:
  assumes "env s = (m, k)"
  shows "snd (env (push_r7_lr s)) = k" "frame (push_r7_lr s) = (frame s)\<lparr>sp := sp (frame s) - 8\<rparr>"
    "trace (push_r7_lr s) = trace s"
    "fst (env (push_r7_lr s)) = store32 (sp (frame s) - 4) (lr (frame s)) (store32 (sp (frame s) - 8) (r7 (frame s)) m)"
  using assms by (simp_all add: push_r7_lr_def Let_def)

subsection \<open>The stubs\<close>

lemma service_cong: "r0 r' = r0 r \<Longrightarrow> r1 r' = r1 r \<Longrightarrow> r2 r' = r2 r \<Longrightarrow> r3 r' = r3 r \<Longrightarrow> service n r' = service n r"
  by (simp add: service_def)

lemma service_number: "service n r = Some c \<Longrightarrow> n AND LS_BYTE = n"
  by (auto simp: service_def call_consts LS_BYTE_def split: if_splits)

text \<open>A stub around a service that may write memory, but not the registers the stub has saved.\<close>

lemma stub_around:
  assumes "service n (frame s) = Some c" "aligned4 (sp (frame s))" "env s = (m, k)"
    and "m1 = store32 (sp (frame s) - 4) (lr (frame s)) (store32 (sp (frame s) - 8) (r7 (frame s)) m)"
    and "snd (lib c ((frame s)\<lparr>sp := sp (frame s) - 8, r7 := n\<rparr>, m1, k)) =
      ((frame s)\<lparr>sp := sp (frame s) - 8, r7 := n, r0 := v\<rparr>, m', k')"
    and "\<forall>x \<in> saved_bytes (frame s). m' x = m1 x"
  shows "\<exists>s'. stub n lib p s = Some s' \<and> frame s' = (frame s)\<lparr>r0 := v, pc := lr (frame s)\<rparr> \<and>
    env s' = (m', k') \<and> trace s' = trace s @ [c]"
proof -
  let ?s1 = "push_r7_lr s"
  define s2 where "s2 = ?s1\<lparr>frame := (frame ?s1)\<lparr>r7 := n\<rparr>\<rparr>"
  define s3 where "s3 = do_call lib c s2"
  note f = push_fields [OF assms(3)]
  have s2: "frame s2 = (frame s)\<lparr>sp := sp (frame s) - 8, r7 := n\<rparr>" "env s2 = (m1, k)" "trace s2 = trace s"
    using f by (simp_all add: s2_def prod_eq_iff assms(4))
  have "service n (frame s2) = Some c" using assms(1) s2(1) service_cong [of "frame s2" "frame s"] by simp
  then have sv: "svc lib p s2 = Some s3" using service_number [OF assms(1)] s2(1) by (simp add: svc_def s3_def)
  have s3: "frame s3 = (frame s2)\<lparr>r0 := v\<rparr>" "env s3 = (m', k')" "trace s3 = trace s @ [c]"
    using s2 assms(5) by (auto simp: s3_def do_call_def call_def split: prod.splits)
  have "pop_r7_lr s3 = s3\<lparr>frame := (frame s3)\<lparr>r7 := r7 (frame s), lr := lr (frame s), sp := sp (frame s)\<rparr>\<rparr>"
    by (rule pop_push [OF assms(2,3) s3(2)]) (use assms(6) in \<open>simp_all add: assms(4) f(4) s3 s2\<close>)
  then show ?thesis using sv s3 s2 by (simp add: stub_def Let_def s2_def [symmetric])
qed

lemma stub_serves:
  assumes "service n (frame s) = Some c" "serves lib c v k k'" "aligned4 (sp (frame s))" "env s = (m, k)"
  shows "\<exists>s'. stub n lib p s = Some s' \<and> frame s' = (frame s)\<lparr>r0 := v, pc := lr (frame s)\<rparr> \<and>
    env s' = (store32 (sp (frame s) - 4) (lr (frame s)) (store32 (sp (frame s) - 8) (r7 (frame s)) m), k') \<and>
    trace s' = trace s @ [c]"
  by (rule stub_around [OF assms(1,3,4) refl]) (use assms(2) in \<open>simp_all add: serves_def\<close>)

lemma exec_announced:
  assumes "announces_as lib t lim W" "scheduler_on_create t (r3 (frame s)) k = Some (r, k')"
    and "r2 (frame s) \<le> lim" "saved_bytes (frame s) \<inter> W = {}" "aligned4 (sp (frame s))" "env s = (m, k)"
  shows "\<exists>s' v m'. syscall_exec lib p s = Some s' \<and> frame s' = (frame s)\<lparr>r0 := v, pc := lr (frame s)\<rparr> \<and>
    env s' = (m', k') \<and> (\<forall>x. x \<notin> W \<union> saved_bytes (frame s) \<longrightarrow> m' x = m x) \<and>
    trace s' = trace s @ [Svc_exec (r0 (frame s)) (r1 (frame s)) (r2 (frame s)) (r3 (frame s))]"
proof -
  define c where "c = Svc_exec (r0 (frame s)) (r1 (frame s)) (r2 (frame s)) (r3 (frame s))"
  define m1 where "m1 = store32 (sp (frame s) - 4) (lr (frame s)) (store32 (sp (frame s) - 8) (r7 (frame s)) m)"
  have "serves_outside lib c W k k'" using assms(1-3) unfolding announces_as_def c_def by blast
  then obtain v m' where l: "snd (lib c ((frame s)\<lparr>sp := sp (frame s) - 8, r7 := EXEC\<rparr>, m1, k)) =
      ((frame s)\<lparr>sp := sp (frame s) - 8, r7 := EXEC, r0 := v\<rparr>, m', k')" "\<And>x. x \<notin> W \<Longrightarrow> m' x = m1 x"
    unfolding serves_outside_def by blast
  have sv: "service EXEC (frame s) = Some c" by (simp add: service_def call_consts c_def)
  have keep: "\<forall>x \<in> saved_bytes (frame s). m' x = m1 x" using l(2) assms(4) by blast
  have "m' x = m x" if "x \<notin> W \<union> saved_bytes (frame s)" for x
    using l(2) [of x] push_outside [of x "frame s"] that by (simp add: m1_def)
  with stub_around [where v = v and m' = m' and m = m and lib = lib, OF sv assms(5,6) m1_def l(1) keep] show ?thesis
    unfolding syscall_exec_def c_def by blast
qed

end
