(* ===== verification/Syscall_Properties.thy ===== *)
theory Syscall_Properties imports Syscalls Kernel_Properties begin

text \<open>
  The properties of the system calls as a user program sees them: stub, handler and scheduler hook
  composed.
\<close>

definition user_world :: "'k \<Rightarrow> (mem \<times> 'k) machine" where
  "user_world k = \<lparr>frame = blank_regs\<lparr>r0 := 0x400000, r3 := 0, r7 := 77, sp := 0xF0000, lr := 0x400100\<rparr>,
     env = (\<lambda>_. 0, k), trace = [], spsr = 0x10, k_time = 0, k_id = 0\<rparr>"

lemma user_world_stack: "aligned4 (sp (frame (user_world k)))" "env (user_world k) = (\<lambda>_. 0, k)"
  by (simp_all add: user_world_def aligned4_def)

text \<open>A library that creates every new thread as thread 2 and reads the letter A.\<close>

definition announcing_lib :: "(mem \<times> kernel) lib" where
  "announcing_lib c = (\<lambda>(r, m, k). case c of
     Svc_exec f a n flags \<Rightarrow> (0, r\<lparr>r0 := 0\<rparr>, m, case scheduler_on_create 2 flags k of Some (v, k') \<Rightarrow> k' | None \<Rightarrow> k)
   | Svc_getc \<Rightarrow> (0, r\<lparr>r0 := 0x41\<rparr>, m, k)
   | Svc_putc c \<Rightarrow> (0, r\<lparr>r0 := 0\<rparr>, m, k)
   | _ \<Rightarrow> (0, r, m, k))"

lemma announcing_lib_ok: "keeps_all announcing_lib" "announces_as announcing_lib 2 lim {}"
  "serves announcing_lib Svc_getc 0x41 k k" "serves announcing_lib (Svc_putc c) 0 k k"
proof -
  have "snd (announcing_lib c (f, e)) = (f, e)" if "quiet c" for c f and e :: "mem \<times> kernel"
    using that by (cases c; cases e) (auto simp: announcing_lib_def)
  then show "keeps_all announcing_lib" by (auto simp: keeps_all_def)
qed (auto simp: announces_as_def serves_outside_def serves_def announcing_lib_def)

subsection \<open>The stubs\<close>

text \<open>C22. A system call looks like a function call to its caller: when the kernel serves it and puts
  a result into r0, the stub comes back to the caller with the result, with every other register as it was, the
  stack pointer included, and of the caller's memory only the eight bytes below the stack pointer
  have changed. The kernel is entered once, with the arguments the caller passed in its registers.\<close>

theorem syscalls_return:
  assumes "service n (frame s) = Some c" "serves lib c v k k'" "aligned4 (sp (frame s))" "env s = (m, k)"
  shows "\<exists>s'. stub n lib p s = Some s' \<and> frame s' = (frame s)\<lparr>r0 := v, pc := lr (frame s)\<rparr> \<and>
    env s' = (store32 (sp (frame s) - 4) (lr (frame s)) (store32 (sp (frame s) - 8) (r7 (frame s)) m), k') \<and>
    trace s' = trace s @ [c]"
  using stub_serves [OF assms] .

theorem syscalls_return_witness:
  "\<exists>s'. syscall_getc announcing_lib 0 (user_world blank_kernel) = Some s' \<and> r0 (frame s') = 0x41 \<and>
     r7 (frame s') = 77 \<and> pc (frame s') = 0x400100 \<and> sp (frame s') = 0xF0000"
  using syscalls_return [OF _ announcing_lib_ok(3) user_world_stack, where n = GETC and p = 0 and k = blank_kernel]
  by (auto simp: service_def call_consts syscall_getc_def user_world_def)

subsection \<open>exec\<close>

text \<open>C8. \<open>syscall_exec\<close> with the flags of a parent, stub, library and hook composed: when a process is
  free, the new thread gets it and becomes its only thread, and the counts of threads stay right. The
  theorem names all that changes. Of the kernel: the new thread's entry, the record of its process,
  the number of the newest process, and the first 10000 bytes of that process's section of memory;
  the translation table is the same, so the caller goes on with its own data and heap. Of the
  caller: the result in r0, the return, the eight bytes below its stack pointer in which the stub
  keeps two registers, and the memory \<open>W\<close> the library writes for the new thread, its stack. The
  arguments have to be of a size the library accepts, and \<open>W\<close> must not hold those eight bytes.\<close>

theorem exec_creates_process:
  assumes "kernel_ok k" "counts_ok k" "announces_as lib t lim W" "0 \<le> t" "t < 32" "get_process_id t k = -1"
    and "find_free_process_address k = q" "q \<noteq> -1" "r3 (frame s) = PARENT" "aligned4 (sp (frame s))" "env s = (m, k)"
    and "r2 (frame s) \<le> lim" "saved_bytes (frame s) \<inter> W = {}"
  shows "\<exists>s' k' m' v pm. syscall_exec lib p s = Some s' \<and>
    frame s' = (frame s)\<lparr>r0 := v, pc := lr (frame s)\<rparr> \<and> env s' = (m', k') \<and>
    (\<forall>x. x \<notin> W \<union> saved_bytes (frame s) \<longrightarrow> m' x = m x) \<and>
    trace s' = trace s @ [Svc_exec (r0 (frame s)) (r1 (frame s)) (r2 (frame s)) PARENT] \<and>
    kernel_ok k' \<and> counts_ok k' \<and> get_process_id t k' = q \<and>
    (\<forall>t'. t' \<noteq> t \<longrightarrow> get_process_id t' k' = get_process_id t' k \<and> get_process_id t' k' \<noteq> q) \<and>
    k' = k\<lparr>pmem := pm, thread_process_arr := (thread_process_arr k)[nat t := q],
      process_array := (process_array k)[nat q := (process_array k ! nat q)\<lparr>reserved := 1, threads_active := 1\<rparr>],
      scheduler_pid := q\<rparr> \<and>
    (\<forall>a < 4294967296. \<not> ((8 + nat q) * 1048576 \<le> a \<and> a < (8 + nat q) * 1048576 + 10000) \<longrightarrow>
       pm (of_nat a) = pmem k (of_nat a))"
proof -
  have q: "nat q < 8" "int (nat q) = q" "reserved (process_array k ! nat q) = 0"
    using find_free_process_range [of k] assms(7,8) by auto
  then have none: "get_process_id t' k \<noteq> q" for t' using reserved_iff_thread [OF assms(1,2) q(1)] by simp
  have zero: "threads_active (process_array k ! nat q) = 0"
    using assms(2) q by (auto simp: counts_ok_def split: if_splits dest!: spec [of _ "nat q"])
  obtain pm where pm: "scheduler_on_create t PARENT k = Some (0, k\<lparr>pmem := pm,
      thread_process_arr := (thread_process_arr k)[nat t := q],
      process_array := (process_array k)[nat q := (process_array k ! nat q)\<lparr>reserved := 1, threads_active := 1\<rparr>],
      scheduler_pid := q\<rparr>)" (is "_ = Some (0, ?k)")
    "\<forall>a < 4294967296. \<not> ((8 + nat q) * 1048576 \<le> a \<and> a < (8 + nat q) * 1048576 + 10000) \<longrightarrow>
       pm (of_nat a) = pmem k (of_nat a)"
    using create_parent_state [OF assms(1,4,5,7,8) refl] zero by auto
  have c: "counts_ok ?k" "get_process_id t ?k = q"
    using create_parent_counts [OF assms(1,2,4-6)] assms(7,8) pm(1) by auto
  note o = scheduler_on_create_ok [OF assms(1) pm(1)]
  have "scheduler_on_create t (r3 (frame s)) k = Some (0, ?k)" using pm(1) assms(9) by simp
  from exec_announced [OF assms(3) this assms(12,13,10,11), of p] obtain s' v m' where s':
    "syscall_exec lib p s = Some s'" "frame s' = (frame s)\<lparr>r0 := v, pc := lr (frame s)\<rparr>" "env s' = (m', ?k)"
    "\<forall>x. x \<notin> W \<union> saved_bytes (frame s) \<longrightarrow> m' x = m x"
    "trace s' = trace s @ [Svc_exec (r0 (frame s)) (r1 (frame s)) (r2 (frame s)) PARENT]"
    unfolding assms(9) by blast
  have "get_process_id t' ?k = get_process_id t' k \<and> get_process_id t' ?k \<noteq> q" if "t' \<noteq> t" for t'
    using o(3) [OF that] none by simp
  then show ?thesis using s' c o(1) pm(2) by blast
qed

theorem exec_creates_process_witness:
  "\<exists>s'. syscall_exec announcing_lib 0 (user_world (boot_kernel 0 blank_kernel)) = Some s' \<and>
     get_process_id 2 (snd (env s')) = 0 \<and> counts_ok (snd (env s')) \<and> fst (env s') 0xF0000 = 0 \<and> sp (frame s') = 0xF0000"
proof -
  note b = boot_counts [where a = 0]
  let ?s = "user_world (boot_kernel 0 blank_kernel)"
  have r: "r3 (frame ?s) = PARENT" "r2 (frame ?s) \<le> 0" "saved_bytes (frame ?s) \<inter> {} = {}"
    by (simp_all add: user_world_def PARENT_def blank_regs_def)
  have "(0xF0000 :: u32) \<noteq> 0xEFFF8 + of_nat i" if "i < 8" for i
    using that of_nat_eq_iff_u32 [of "0xF0000" "0xEFFF8 + i"] by simp
  then have o: "0xF0000 \<notin> {} \<union> saved_bytes (frame ?s)" by (auto simp: saved_bytes_def user_world_def)
  from exec_creates_process [OF b(1,2) announcing_lib_ok(2) _ _ b(3) boot_kernel_counts(2) [OF blank_loaded(1)] _ r(1)
      user_world_stack r(2,3), where p = 0]
  obtain s' m' k' v where s': "syscall_exec announcing_lib 0 ?s = Some s'" "frame s' = (frame ?s)\<lparr>r0 := v, pc := lr (frame ?s)\<rparr>"
      "env s' = (m', k')" "\<forall>x. x \<notin> {} \<union> saved_bytes (frame ?s) \<longrightarrow> m' x = 0" "counts_ok k'" "get_process_id 2 k' = 0"
    by auto
  moreover have "m' 0xF0000 = 0" using s'(4) o by blast
  ultimately show ?thesis by (simp add: user_world_def)
qed

end
