(* ===== verification/Usr_Kprintf.thy ===== *)
theory Usr_Kprintf imports OS_Prelude begin

text \<open>
  The user's \<^verbatim>\<open>printf\<close>, \<^verbatim>\<open>user/user_kprintf.c\<close>. Output is the list of characters handed to
  \<open>syscall_putc\<close>. A C string is the list of its characters without the terminating zero; reading
  past the terminator, taking an argument that was not passed, and indexing a digit table outside
  its bounds are undefined in C and \<open>None\<close> here. The buffers of the number routines have 512
  bytes and are written from index 0; \<open>res\<close> is the part written so far.

  This is one call that no other call disturbs. Its position in the format is the global \<open>i\<close> of the
  file, which every call sets to zero first; here it is the part of the string still to come, and
  not a field of \<open>pf\<close>. What happens when threads share \<open>i\<close> needs the statements one by one, in \<^verbatim>\<open>Usr_Micro\<close>
  and \<^verbatim>\<open>Printing_Threads\<close>. \<open>offset\<close> is an \<open>int\<close> of the C program that overflows for a width of more than nine
  digits; no code reads it, and the model lets it wrap.
\<close>

subsection \<open>The string routines\<close>

definition BUFF_SIZE :: nat where "BUFF_SIZE = 512"

definition usr_memset :: "u8 list \<Rightarrow> int \<Rightarrow> u8 list option" where
  "usr_memset buff n = (if n \<le> int (length buff) then Some (each_entry (\<lambda>_ _. 0) 0 (nat n) buff) else None)"

text \<open>On a memory of bytes: the length is found by searching the zero, which need not be there.\<close>

partial_function (option) strlen_from :: "mem \<Rightarrow> u32 \<Rightarrow> nat \<Rightarrow> nat option" where
  "strlen_from m p n = (if m (p + of_nat n) \<noteq> 0 then strlen_from m p (n + 1) else Some n)"

definition usr_strlen :: "mem \<Rightarrow> u32 \<Rightarrow> nat option" where
  "usr_strlen m p = strlen_from m p 0"

definition usr_memcpy :: "u32 \<Rightarrow> u32 \<Rightarrow> int \<Rightarrow> mem \<Rightarrow> mem" where
  "usr_memcpy dest src n m = fold (\<lambda>i m. m(dest + of_nat i := m (src + of_nat i))) [0..<nat n] m"

partial_function (option) strcpy_loop :: "u32 \<Rightarrow> u32 \<Rightarrow> mem \<Rightarrow> mem option" where
  "strcpy_loop dest src m = (if m src \<noteq> 0 then strcpy_loop (dest + 1) (src + 1) (m(dest := m src))
     else Some (m(dest := 0)))"

text \<open>\<open>NULL\<close> is defined as \<open>(void *) -1\<close> in this file.\<close>

definition usr_strcpy :: "u32 \<Rightarrow> u32 \<Rightarrow> mem \<Rightarrow> (u32 \<times> mem) option" where
  "usr_strcpy dest src m = (if dest = - 1 then Some (- 1, m)
     else do { m \<leftarrow> strcpy_loop dest src m; Some (dest, m) })"

subsection \<open>Numbers\<close>

definition hex_table :: "u8 list" where
  "hex_table = [0x30, 0x31, 0x32, 0x33, 0x34, 0x35, 0x36, 0x37, 0x38, 0x39, 0x61, 0x62, 0x63, 0x64, 0x65, 0x66]"

definition dec_table :: "u8 list" where
  "dec_table = [0x30, 0x31, 0x32, 0x33, 0x34, 0x35, 0x36, 0x37, 0x38, 0x39]"

text \<open>\<open>do { res[i++] = hex[n % 16]; n /= 16; } while (n > 0);\<close>\<close>

function hex_loop :: "u32 \<Rightarrow> u8 list \<Rightarrow> u8 list" where
  "hex_loop n res = (let res = res @ [hex_table ! unat (n mod 16)]; n' = n div 16 in
     if n' > 0 then hex_loop n' res else res)"
  by pat_completeness auto
termination
proof (relation "measure (\<lambda>(n, res). unat n)")
  fix n :: u32 and res x xa assume "xa = n div 16" "xa > 0"
  then have "unat n div 16 \<noteq> 0" by (simp add: unat_div word_greater_zero_iff unat_eq_0 [symmetric])
  then have "unat n div 16 < unat n" by (cases "unat n") auto
  then show "((xa, x), (n, res)) \<in> measure (\<lambda>(n, res). unat n)" using \<open>xa = n div 16\<close> by (simp add: unat_div)
qed simp

record pf =
  pf_j :: int
  offset :: u32
  zeros :: bool
  out :: "u8 list"

definition syscall_putc :: "u8 \<Rightarrow> pf \<Rightarrow> pf" where
  "syscall_putc c s = s\<lparr>out := out s @ [c]\<rparr>"

definition put_digits :: "u8 list \<Rightarrow> pf \<Rightarrow> pf" where
  "put_digits res s = fold (\<lambda>i. syscall_putc (res ! i)) (rev [0..<length res]) s"

definition usr_decToHexStr :: "u32 \<Rightarrow> bool \<Rightarrow> pf \<Rightarrow> pf" where
  "usr_decToHexStr n pointer s = (let
     res = hex_loop n [];
     s = (if pointer \<and> zeros s then syscall_putc 0x78 (syscall_putc 0x30 (s\<lparr>pf_j := 2\<rparr>)) else s);
     s = (if pointer then s\<lparr>offset := offset s - 2\<rparr> else s);
     s = (if \<not> zeros s \<and> pointer then syscall_putc 0x78 (syscall_putc 0x30 s) else s);
     s = put_digits res s
     in s\<lparr>offset := 0\<rparr>)"

text \<open>
  \<open>do { res[i] = dec[n % 10]; i++; n /= 10; } while (n > 0);\<close> on a signed \<open>n\<close>: C's remainder has
  the sign of the dividend.
\<close>

function int_loop :: "int \<Rightarrow> u8 list \<Rightarrow> u8 list option" where
  "int_loop n res = (case idx dec_table (sgn n * (\<bar>n\<bar> mod 10)) of None \<Rightarrow> None
     | Some d \<Rightarrow> (let n' = sgn n * (\<bar>n\<bar> div 10) in
         if n' > 0 then int_loop n' (res @ [d]) else Some (res @ [d])))"
  by pat_completeness auto
termination
  by (relation "measure (\<lambda>(n, res). nat \<bar>n\<bar>)") (auto simp: sgn_if zero_less_mult_iff split: if_splits)

definition usr_intToStr :: "u32 \<Rightarrow> pf \<Rightarrow> pf option" where
  "usr_intToStr n s = do {
     let (n, s) = (if sint n < 0 then (n * (- 1), syscall_putc 0x2D s) else (n, s));
     res \<leftarrow> int_loop (sint n) [];
     Some (put_digits res s) }"

function uint_loop :: "u32 \<Rightarrow> u8 list \<Rightarrow> u8 list" where
  "uint_loop n res = (let res = res @ [ucast (n mod 10) + 0x30]; n' = n div 10 in
     if n' > 0 then uint_loop n' res else res)"
  by pat_completeness auto
termination
proof (relation "measure (\<lambda>(n, res). unat n)")
  fix n :: u32 and res x xa assume "xa = n div 10" "xa > 0"
  then have "unat n div 10 \<noteq> 0" by (simp add: unat_div word_greater_zero_iff unat_eq_0 [symmetric])
  then have "unat n div 10 < unat n" by (cases "unat n") auto
  then show "((xa, x), (n, res)) \<in> measure (\<lambda>(n, res). unat n)" using \<open>xa = n div 10\<close> by (simp add: unat_div)
qed simp

definition usr_unusr_intToStr :: "u32 \<Rightarrow> pf \<Rightarrow> pf" where
  "usr_unusr_intToStr n s = put_digits (uint_loop n []) s"

subsection \<open>The format string\<close>

definition is_digit :: "u8 \<Rightarrow> bool" where "is_digit c \<longleftrightarrow> 0x30 \<le> c \<and> c \<le> 0x39"

definition clear_width :: "pf \<Rightarrow> pf" where "clear_width s = s\<lparr>offset := 0, zeros := False\<rparr>"

text \<open>
  \<open>fmt\<close> is the loop over the string, \<open>spec\<close> the \<open>switch\<close> after a percent sign; its default case
  reads a width and goes back to the \<open>switch\<close>. \<open>args\<close> are the arguments not taken yet.
\<close>

function (sequential) fmt :: "u8 list \<Rightarrow> u32 list \<Rightarrow> pf \<Rightarrow> pf option"
  and spec :: "u8 list \<Rightarrow> u32 list \<Rightarrow> pf \<Rightarrow> pf option" where
  "fmt [] args s = Some s"
| "fmt (c # cs) args s = (if c = 0x25 then spec cs args s else fmt cs args (syscall_putc c s))"
| "spec [] args s = None"
| "spec (c # cs) args s =
     (if c = 0x63 then (case args of [] \<Rightarrow> None | a # args \<Rightarrow> fmt cs args (syscall_putc (ucast a) s))
      else if c = 0x78 then (case args of [] \<Rightarrow> None
        | a # args \<Rightarrow> fmt cs args (clear_width (usr_decToHexStr a False s)))
      else if c = 0x69 then (case args of [] \<Rightarrow> None
        | a # args \<Rightarrow> (case usr_intToStr a s of None \<Rightarrow> None | Some s \<Rightarrow> fmt cs args (clear_width s)))
      else if c = 0x75 then (case args of [] \<Rightarrow> None
        | a # args \<Rightarrow> fmt cs args (clear_width (usr_unusr_intToStr a s)))
      else if c = 0x70 then (case args of [] \<Rightarrow> None
        | a # args \<Rightarrow> fmt cs args (clear_width (usr_decToHexStr a True s)))
      else if c = 0x25 then fmt cs args (syscall_putc 0x25 s)
      else if is_digit c then
        let s = (if c = 0x30 then s\<lparr>zeros := True\<rparr> else s);
            s = fold (\<lambda>d s. s\<lparr>offset := offset s * 10 + (ucast d - 48)\<rparr>) (takeWhile is_digit (c # cs)) s
        in spec (dropWhile is_digit cs) args s
      else fmt cs args (syscall_putc c (syscall_putc 0x25 s)))"
  by pat_completeness auto
termination
  by (relation "measure (\<lambda>x. case x of Inl (cs, _) \<Rightarrow> length cs | Inr (cs, _) \<Rightarrow> length cs)")
    (auto simp: le_imp_less_Suc length_dropWhile_le)

text \<open>A call: \<open>i\<close> and \<open>j\<close> are reset, a null format prints nothing.\<close>

definition usr_kprintf :: "u8 list option \<Rightarrow> u32 list \<Rightarrow> pf \<Rightarrow> pf option" where
  "usr_kprintf str args s = (let s = s\<lparr>pf_j := 0\<rparr> in
     case str of None \<Rightarrow> Some s | Some cs \<Rightarrow> fmt cs args s)"

fun print_line :: "u8 list \<Rightarrow> pf \<Rightarrow> pf" where
  "print_line [] s = s"
| "print_line (c # cs) s = print_line cs (syscall_putc c s)"

subsection \<open>Digits\<close>

text \<open>The digits of a number, the lowest first, and the number a text stands for.\<close>

function digits :: "nat \<Rightarrow> nat \<Rightarrow> nat list" where
  "digits b n = (if b \<le> 1 \<or> n < b then [n] else n mod b # digits b (n div b))"
  by pat_completeness auto
termination
  by (relation "measure snd") (auto simp: div_less_dividend)

declare digits.simps [simp del] hex_loop.simps [simp del] int_loop.simps [simp del] uint_loop.simps [simp del]

definition digit_value :: "u8 \<Rightarrow> nat" where
  "digit_value c = (if c \<le> 0x39 then unat c - 48 else unat c - 87)"

definition read_number :: "nat \<Rightarrow> u8 list \<Rightarrow> nat" where
  "read_number b cs = foldl (\<lambda>v c. v * b + digit_value c) 0 cs"

lemma digits_induct_cases:
  assumes "1 < b"
  shows "digits b n = n mod b # (if n div b = 0 then [] else digits b (n div b))"
  using assms by (subst digits.simps) (auto simp: div_eq_0_iff)

lemma digits_lt: "1 < b \<Longrightarrow> d \<in> set (digits b n) \<Longrightarrow> d < b"
proof (induction b n rule: digits.induct)
  case (1 b n)
  then show ?case by (subst (asm) (2) digits.simps) (auto split: if_splits)
qed

lemma digits_length: "1 < b \<Longrightarrow> n < b ^ k \<Longrightarrow> 0 < k \<Longrightarrow> length (digits b n) \<le> k"
proof (induction k arbitrary: n)
  case (Suc k)
  show ?case
  proof (cases "n div b = 0")
    case True
    then show ?thesis using Suc.prems by (subst digits_induct_cases) auto
  next
    case False
    then have "b \<le> n" by (metis div_eq_0_iff not_le)
    then have "0 < k" using Suc.prems by (cases k) auto
    moreover have "n div b < b ^ k" using Suc.prems by (simp add: less_mult_imp_div_less mult.commute)
    ultimately show ?thesis using Suc False by (subst digits_induct_cases) auto
  qed
qed simp

lemma digits_value:
  assumes "1 < b" "\<And>d. d < b \<Longrightarrow> digit_value (f d) = d"
  shows "read_number b (rev (map f (digits b n))) = n"
proof (induction n rule: less_induct)
  case (less n)
  show ?case
  proof (cases "n div b = 0")
    case True
    then show ?thesis using assms by (subst digits_induct_cases) (auto simp: read_number_def div_eq_0_iff)
  next
    case False
    then have "n div b < n" using assms(1) by (intro div_less_dividend) (auto intro: gr0I)
    from less [OF this] have "read_number b (rev (map f (digits b (n div b)))) = n div b" .
    then show ?thesis using False assms
      by (subst digits_induct_cases) (auto simp: read_number_def)
  qed
qed

lemma digits_leading: "1 < b \<Longrightarrow> 0 < n \<Longrightarrow> last (digits b n) \<noteq> 0"
proof (induction n rule: less_induct)
  case (less n)
  show ?case
  proof (cases "n div b = 0")
    case True
    then show ?thesis using less.prems by (subst digits_induct_cases) (auto simp: div_eq_0_iff)
  next
    case False
    then have "n div b < n" "0 < n div b" using less.prems by (auto intro!: div_less_dividend)
    then have "last (digits b (n div b)) \<noteq> 0" using less by auto
    moreover have "digits b (n div b) \<noteq> []" by (subst digits.simps) auto
    ultimately show ?thesis using False less.prems(1) by (subst digits_induct_cases) auto
  qed
qed

subsection \<open>The number routines print the digits\<close>

definition hex_char :: "nat \<Rightarrow> u8" where "hex_char d = hex_table ! d"
definition dec_char :: "nat \<Rightarrow> u8" where "dec_char d = of_nat (d + 48)"

lemma hex_char_value: "d < 16 \<Longrightarrow> digit_value (hex_char d) = d"
proof -
  have "list_all (\<lambda>d. digit_value (hex_char d) = d) [0..<16]" by code_simp
  then show "d < 16 \<Longrightarrow> digit_value (hex_char d) = d" by (simp add: list_all_iff)
qed

lemma dec_char_value: "d < 10 \<Longrightarrow> digit_value (dec_char d) = d"
proof -
  have "list_all (\<lambda>d. digit_value (dec_char d) = d) [0..<10]" by code_simp
  then show "d < 10 \<Longrightarrow> digit_value (dec_char d) = d" by (simp add: list_all_iff)
qed

lemma unat_pos_u32: "(0 :: u32) < n \<longleftrightarrow> unat n \<noteq> 0"
  by (simp add: word_greater_zero_iff unat_eq_0)

lemma hex_loop_digits: "hex_loop n res = res @ map hex_char (digits 16 (unat n))"
proof (induction n res rule: hex_loop.induct)
  case (1 n res)
  show ?case
    using 1 by (subst hex_loop.simps, subst digits_induct_cases)
      (auto simp: Let_def unat_pos_u32 unat_div unat_mod hex_char_def)
qed

lemma uint_loop_digits: "uint_loop n res = res @ map dec_char (digits 10 (unat n))"
proof (induction n res rule: uint_loop.induct)
  case (1 n res)
  have "ucast (n mod 10) + 0x30 = dec_char (unat n mod 10)"
  proof -
    have "(ucast (n mod 10) :: u8) = of_nat (unat (n mod 10))" by simp
    then show ?thesis by (simp add: dec_char_def unat_mod)
  qed
  then show ?case
    using 1 by (subst uint_loop.simps, subst digits_induct_cases)
      (auto simp: Let_def unat_pos_u32 unat_div)
qed

lemma dec_table_char: "d < 10 \<Longrightarrow> dec_table ! d = dec_char d"
proof -
  have "list_all (\<lambda>d. dec_table ! d = dec_char d) [0..<10]" by code_simp
  then show "d < 10 \<Longrightarrow> dec_table ! d = dec_char d" by (simp add: list_all_iff)
qed

lemma int_loop_digits: "0 \<le> n \<Longrightarrow> int_loop n res = Some (res @ map dec_char (digits 10 (nat n)))"
proof (induction n res rule: int_loop.induct)
  case (1 n res)
  have n: "sgn n * (\<bar>n\<bar> mod 10) = n mod 10" "sgn n * (\<bar>n\<bar> div 10) = n div 10"
    using 1(2) by (auto simp: sgn_if)
  have m: "nat (n mod 10) = nat n mod 10" "nat (n div 10) = nat n div 10" "n div 10 > 0 \<longleftrightarrow> nat n div 10 \<noteq> 0"
    using 1(2) by (auto simp: nat_mod_distrib nat_div_distrib)
  have "length dec_table = 10" by (simp add: dec_table_def)
  then have d: "idx dec_table (n mod 10) = Some (dec_char (nat n mod 10))"
    unfolding idx_def m(1) by (simp add: dec_table_char)
  show ?case
  proof (cases "0 < n div 10")
    case True
    then have "int_loop (n div 10) (res @ [dec_char (nat n mod 10)]) =
        Some ((res @ [dec_char (nat n mod 10)]) @ map dec_char (digits 10 (nat (n div 10))))"
      using 1(1) [of "dec_char (nat n mod 10)" "n div 10"] d n by simp
    then show ?thesis using True m
      by (subst int_loop.simps, subst digits_induct_cases) (simp_all add: n d Let_def)
  next
    case False
    then show ?thesis using m
      by (subst int_loop.simps, subst digits_induct_cases) (simp_all add: n d Let_def)
  qed
qed

lemma put_digits_out: "put_digits res s = s\<lparr>out := out s @ rev res\<rparr>"
proof -
  have "fold (\<lambda>i. syscall_putc (res ! i)) is s = s\<lparr>out := out s @ map ((!) res) is\<rparr>" for "is" s
    by (induction "is" arbitrary: s) (auto simp: syscall_putc_def)
  moreover have "map ((!) res) (rev [0..<length res]) = rev res" by (simp add: rev_map [symmetric] map_nth)
  ultimately show ?thesis by (simp add: put_digits_def)
qed

lemma usr_decToHexStr_out:
  "usr_decToHexStr n pointer s = s\<lparr>pf_j := (if pointer \<and> zeros s then 2 else pf_j s), offset := 0,
     out := out s @ (if pointer then [0x30, 0x78] else []) @ rev (map hex_char (digits 16 (unat n)))\<rparr>"
  by (simp add: usr_decToHexStr_def Let_def hex_loop_digits put_digits_out syscall_putc_def)

lemma usr_unusr_intToStr_out:
  "usr_unusr_intToStr n s = s\<lparr>out := out s @ rev (map dec_char (digits 10 (unat n)))\<rparr>"
  by (simp add: usr_unusr_intToStr_def uint_loop_digits put_digits_out)

lemma sint_uminus:
  assumes "sint (n :: u32) < 0" "n \<noteq> 0x80000000"
  shows "sint (- n) = - sint n"
proof -
  have "sint n \<noteq> - 2147483648"
  proof
    assume "sint n = - 2147483648"
    then have "(of_int (sint n) :: u32) = of_int (- 2147483648)" by simp
    then show False using assms(2) by simp
  qed
  moreover have "- 2147483648 \<le> sint n" using sint_ge [of n] by simp
  ultimately have "signed_take_bit 31 (- sint n) = - sint n"
    using assms(1) by (intro signed_take_bit_int_eq_self) auto
  moreover have "sint (of_int (- sint n) :: u32) = signed_take_bit 31 (- sint n)"
    by (simp add: signed_of_int del: of_int_minus)
  moreover have "(of_int (- sint n) :: u32) = - n" by simp
  ultimately show ?thesis by simp
qed

lemma usr_intToStr_out:
  assumes "n \<noteq> 0x80000000"
  shows "usr_intToStr n s = Some (s\<lparr>out := out s @ (if sint n < 0 then [0x2D] else []) @
     rev (map dec_char (digits 10 (nat \<bar>sint n\<bar>)))\<rparr>)"
  using assms by (auto simp: usr_intToStr_def int_loop_digits put_digits_out syscall_putc_def sint_uminus)

lemma usr_intToStr_min: "usr_intToStr 0x80000000 s = None"
proof -
  have "idx dec_table (- 8) = None" by (simp add: idx_def)
  then have "int_loop (- 2147483648) [] = None" by (subst int_loop.simps) simp
  then show ?thesis by (simp add: usr_intToStr_def)
qed

subsection \<open>Formats\<close>

lemma fmt_plain:
  "0x25 \<notin> set xs \<Longrightarrow> fmt (xs @ ys) args s = fmt ys args (s\<lparr>out := out s @ xs\<rparr>)"
  by (induction xs arbitrary: s) (auto simp: syscall_putc_def)

text \<open>
  The conversion characters of a format that take an argument, in order; \<open>None\<close> when the string
  ends within a conversion.
\<close>

definition takes_arg :: "u8 \<Rightarrow> bool" where
  "takes_arg c \<longleftrightarrow> c = 0x63 \<or> c = 0x78 \<or> c = 0x69 \<or> c = 0x75 \<or> c = 0x70"

function (sequential) fmt_args :: "u8 list \<Rightarrow> u8 list option" and spec_args :: "u8 list \<Rightarrow> u8 list option" where
  "fmt_args [] = Some []"
| "fmt_args (c # cs) = (if c = 0x25 then spec_args cs else fmt_args cs)"
| "spec_args [] = None"
| "spec_args (c # cs) = (if takes_arg c then map_option ((#) c) (fmt_args cs)
     else if is_digit c then spec_args (dropWhile is_digit cs) else fmt_args cs)"
  by pat_completeness auto
termination
  by (relation "measure (\<lambda>x. case x of Inl cs \<Rightarrow> length cs | Inr cs \<Rightarrow> length cs)")
    (auto simp: le_imp_less_Suc length_dropWhile_le)

definition args_ok :: "u8 list option \<Rightarrow> u32 list \<Rightarrow> bool" where
  "args_ok ks args = (case ks of None \<Rightarrow> False
     | Some ks \<Rightarrow> length ks \<le> length args \<and> (\<forall>(k, a) \<in> set (zip ks args). k = 0x69 \<longrightarrow> a \<noteq> 0x80000000))"

lemma args_ok_Cons: "args_ok (map_option ((#) c) ks) args \<longleftrightarrow>
   (case args of [] \<Rightarrow> False | a # args \<Rightarrow> (c = 0x69 \<longrightarrow> a \<noteq> 0x80000000) \<and> args_ok ks args)"
  by (cases ks; cases args) (auto simp: args_ok_def)

lemma fmt_defined:
  "(fmt cs args s \<noteq> None) = args_ok (fmt_args cs) args"
  "(spec cs args s \<noteq> None) = args_ok (spec_args cs) args"
proof (induction cs args s and cs args s rule: fmt_spec.induct)
  case (4 c cs args s)
  have i: "usr_intToStr a s = None \<longleftrightarrow> a = 0x80000000" for a
    using usr_intToStr_out [of a s] usr_intToStr_min [of s] by (cases "a = 0x80000000") auto
  consider "takes_arg c" | "\<not> takes_arg c" "is_digit c" | "\<not> takes_arg c" "\<not> is_digit c" by blast
  then show ?case
  proof cases
    case 1
    then show ?thesis using 4 i
      by (cases args) (auto simp: usr_intToStr_min takes_arg_def args_ok_Cons is_digit_def split: option.splits)
  next
    case 2
    then show ?thesis using 4(7) by (auto simp: takes_arg_def is_digit_def Let_def)
  next
    case 3
    then show ?thesis using 4 by (auto simp: takes_arg_def)
  qed
qed (auto simp: args_ok_def)

end
