(* ===== verification/Usr_Strings.thy ===== *)
theory Usr_Strings imports Usr_Kprintf begin

text \<open>
  The string routines of \<^verbatim>\<open>user/user_kprintf.c\<close> on a memory of bytes: what they do to strings that
  are terminated, where their source and destination do not overlap.
\<close>

text \<open>The bytes of a terminated string.\<close>

definition c_string :: "mem \<Rightarrow> u32 \<Rightarrow> u8 list \<Rightarrow> bool" where
  "c_string m p cs \<longleftrightarrow> 0 \<notin> set cs \<and> (\<forall>i < length cs. m (p + of_nat i) = cs ! i) \<and> m (p + of_nat (length cs)) = 0"

definition bytes_apart :: "u32 \<Rightarrow> u32 \<Rightarrow> nat \<Rightarrow> bool" where
  "bytes_apart p q n \<longleftrightarrow> n < 2147483648 \<and> (\<forall>i < n. \<forall>j < n. p + of_nat i \<noteq> q + of_nat j)"

lemma c_string_Nil: "c_string m p [] \<longleftrightarrow> m p = 0"
  by (simp add: c_string_def)

lemma c_string_Cons: "c_string m p (c # cs) \<longleftrightarrow> c \<noteq> 0 \<and> m p = c \<and> c_string m (p + 1) cs"
proof -
  have "p + of_nat (Suc i) = p + 1 + of_nat i" for i by (simp add: add_ac)
  then show ?thesis by (auto simp: c_string_def nth_Cons less_Suc_eq_0_disj add.assoc split: nat.splits)
qed

lemma bytes_apart_Suc:
  assumes "bytes_apart p q (Suc n)"
  shows "bytes_apart (p + 1) (q + 1) n" "p \<noteq> q" "i < n \<Longrightarrow> p \<noteq> q + 1 + of_nat i" "i < n \<Longrightarrow> p \<noteq> p + 1 + of_nat i"
proof -
  have s: "x + of_nat (Suc i) = x + 1 + of_nat i" for x :: u32 and i by (simp add: add_ac)
  have b: "p + of_nat i \<noteq> q + of_nat j" if "i < Suc n" "j < Suc n" for i j
    using assms that by (auto simp: bytes_apart_def)
  show "bytes_apart (p + 1) (q + 1) n"
    using assms b [of "Suc _" "Suc _"] unfolding s by (auto simp: bytes_apart_def)
  show "p \<noteq> q" using b [of 0 0] by simp
  show "p \<noteq> q + 1 + of_nat i" if "i < n" using b [of 0 "Suc i"] that unfolding s by simp
  show "p \<noteq> p + 1 + of_nat i" if "i < n"
  proof -
    have "(of_nat 0 :: u32) \<noteq> of_nat (Suc i)"
      using that assms by (subst of_nat_eq_iff_u32) (auto simp: bytes_apart_def)
    then show ?thesis by (simp add: add.assoc)
  qed
qed

text \<open>A string survives the writing of bytes outside it.\<close>

lemma c_string_upd:
  assumes "\<And>i. i \<le> length cs \<Longrightarrow> m' (p + of_nat i) = m (p + of_nat i)"
  shows "c_string m' p cs = c_string m p cs"
  using assms by (auto simp: c_string_def)

lemma strlen_from_c_string: "c_string m (p + of_nat n) cs \<Longrightarrow> strlen_from m p n = Some (n + length cs)"
proof (induction cs arbitrary: n)
  case Nil
  then show ?case by (subst strlen_from.simps) (simp add: c_string_Nil)
next
  case (Cons c cs)
  then have "c_string m (p + of_nat (n + 1)) cs" by (simp add: c_string_Cons add_ac)
  from Cons.IH [OF this] show ?case
    using Cons.prems by (subst strlen_from.simps) (simp add: c_string_Cons)
qed

lemma strcpy_loop_c_string:
  assumes "c_string m src cs" "bytes_apart dest src (Suc (length cs))"
  shows "\<exists>m'. strcpy_loop dest src m = Some m' \<and> c_string m' dest cs \<and>
    (\<forall>a. (\<forall>i \<le> length cs. a \<noteq> dest + of_nat i) \<longrightarrow> m' a = m a)"
  using assms
proof (induction cs arbitrary: dest src m)
  case Nil
  then show ?case by (subst strcpy_loop.simps) (auto simp: c_string_Nil)
next
  case (Cons c cs)
  let ?m = "m(dest := m src)"
  have s: "x + of_nat (Suc i) = x + 1 + of_nat i" for x :: u32 and i by (simp add: add_ac)
  note d = bytes_apart_Suc [OF Cons.prems(2)]
  have c: "c \<noteq> 0" "m src = c" "c_string m (src + 1) cs" using Cons.prems(1) by (auto simp: c_string_Cons)
  have "c_string ?m (src + 1) cs = c_string m (src + 1) cs"
  proof (rule c_string_upd)
    fix i assume "i \<le> length cs"
    then have "src + 1 + of_nat i \<noteq> dest" using d(3) [of i] by auto
    then show "?m (src + 1 + of_nat i) = m (src + 1 + of_nat i)" by (rule fun_upd_other)
  qed
  then have "c_string ?m (src + 1) cs" using c(3) by simp
  then obtain m' where m': "strcpy_loop (dest + 1) (src + 1) ?m = Some m'" "c_string m' (dest + 1) cs"
      "\<And>a. (\<forall>i \<le> length cs. a \<noteq> dest + 1 + of_nat i) \<Longrightarrow> m' a = ?m a"
    using Cons.IH [of ?m "src + 1" "dest + 1"] d(1) by (auto simp del: fun_upd_apply)
  have "m' dest = c" using m'(3) [of dest] d(4) c(2) by auto
  then have "c_string m' dest (c # cs)" using c(1) m'(2) by (simp add: c_string_Cons)
  moreover have "m' a = m a" if a: "\<forall>i \<le> length (c # cs). a \<noteq> dest + of_nat i" for a
  proof -
    have "a \<noteq> dest" using a [rule_format, of 0] by simp
    moreover have "a \<noteq> dest + 1 + of_nat i" if "i \<le> length cs" for i
      using a [rule_format, of "Suc i"] that unfolding s by simp
    ultimately show ?thesis using m'(3) [of a] by auto
  qed
  moreover have "strcpy_loop dest src m = Some m'"
    using m'(1) c(1,2) by (subst strcpy_loop.simps) simp
  ultimately show ?case by blast
qed

lemma memcpy_bytes:
  assumes "bytes_apart dest src n"
  shows "(\<forall>i < n. usr_memcpy dest src (int n) m (dest + of_nat i) = m (src + of_nat i)) \<and>
    (\<forall>a. (\<forall>i < n. a \<noteq> dest + of_nat i) \<longrightarrow> usr_memcpy dest src (int n) m a = m a)"
  using assms
proof (induction n)
  case (Suc n)
  let ?m = "usr_memcpy dest src (int n) m"
  have e: "usr_memcpy dest src (int (Suc n)) m = ?m(dest + of_nat n := ?m (src + of_nat n))"
    unfolding usr_memcpy_def nat_int by simp
  have b: "bytes_apart dest src n" using Suc.prems by (auto simp: bytes_apart_def)
  note IH = Suc.IH [OF b]
  have ne: "dest + of_nat i \<noteq> dest + of_nat n" if "i < n" for i
    using that Suc.prems of_nat_eq_iff_u32 [of i n] by (simp add: bytes_apart_def)
  have src: "?m (src + of_nat n) = m (src + of_nat n)"
    using IH Suc.prems unfolding bytes_apart_def by (metis lessI less_SucI)
  have "(?m(dest + of_nat n := ?m (src + of_nat n))) (dest + of_nat i) = m (src + of_nat i)" if "i < Suc n" for i
    using that ne [of i] IH src by (cases "i = n") auto
  moreover have "(?m(dest + of_nat n := ?m (src + of_nat n))) a = m a" if "\<forall>i < Suc n. a \<noteq> dest + of_nat i" for a
    using that IH by auto
  ultimately show ?case unfolding e by blast
qed (simp add: usr_memcpy_def)

end
