(* ===== verification/Usr_Render.thy ===== *)
theory Usr_Render imports Usr_Kprintf begin

text \<open>
  A reference for \<open>usr_kprintf\<close> in two passes: the format is parsed into pieces, and the pieces are
  rendered with the arguments. The code does both in one pass with a \<open>goto\<close>, a width it computes
  and never uses, and two global flags; the reference has none of these.
\<close>

datatype piece = Lit u8 | Conv u8

text \<open>An unknown conversion is printed as it stands, a width is skipped, also in front of a percent sign.\<close>

function (sequential) parse_fmt :: "u8 list \<Rightarrow> piece list option" and parse_conv :: "u8 list \<Rightarrow> piece list option" where
  "parse_fmt [] = Some []"
| "parse_fmt (c # cs) = (if c = 0x25 then parse_conv cs else map_option ((#) (Lit c)) (parse_fmt cs))"
| "parse_conv [] = None"
| "parse_conv (c # cs) =
     (if takes_arg c then map_option ((#) (Conv c)) (parse_fmt cs)
      else if c = 0x25 then map_option ((#) (Lit c)) (parse_fmt cs)
      else if is_digit c then parse_conv (dropWhile is_digit cs)
      else map_option (\<lambda>ps. Lit 0x25 # Lit c # ps) (parse_fmt cs))"
  by pat_completeness auto
termination
  by (relation "measure (\<lambda>x. case x of Inl cs \<Rightarrow> length cs | Inr cs \<Rightarrow> length cs)")
    (auto simp: le_imp_less_Suc length_dropWhile_le)

definition decimal :: "nat \<Rightarrow> u8 list" where "decimal n = rev (map dec_char (digits 10 n))"
definition hexadecimal :: "nat \<Rightarrow> u8 list" where "hexadecimal n = rev (map hex_char (digits 16 n))"

definition conv_text :: "u8 \<Rightarrow> u32 \<Rightarrow> u8 list option" where
  "conv_text k a =
     (if k = 0x63 then Some [ucast a]
      else if k = 0x78 then Some (hexadecimal (unat a))
      else if k = 0x75 then Some (decimal (unat a))
      else if k = 0x70 then Some ([0x30, 0x78] @ hexadecimal (unat a))
      else if a = 0x80000000 then None
      else Some ((if sint a < 0 then [0x2D] else []) @ decimal (nat \<bar>sint a\<bar>)))"

fun render :: "piece list \<Rightarrow> u32 list \<Rightarrow> u8 list option" where
  "render [] args = Some []"
| "render (Lit c # ps) args = map_option ((#) c) (render ps args)"
| "render (Conv k # ps) [] = None"
| "render (Conv k # ps) (a # args) = (case conv_text k a of None \<Rightarrow> None | Some t \<Rightarrow> map_option ((@) t) (render ps args))"

definition formatted :: "u8 list \<Rightarrow> u32 list \<Rightarrow> u8 list option" where
  "formatted cs args = Option.bind (parse_fmt cs) (\<lambda>ps. render ps args)"

subsection \<open>One pass and two passes\<close>

definition continue_with :: "u8 list \<Rightarrow> u8 list option \<Rightarrow> u8 list option" where
  "continue_with pre t = map_option (\<lambda>u. pre @ u) t"

lemma bind_map_option: "Option.bind (map_option f x) g = Option.bind x (\<lambda>y. g (f y))"
  by (cases x) auto

lemma continue_bind: "continue_with pre (Option.bind x g) = Option.bind x (\<lambda>y. continue_with pre (g y))"
  by (cases x) (auto simp: continue_with_def)

lemma continue_simps:
  "continue_with pre None = None" "continue_with pre (Some u) = Some (pre @ u)"
  "continue_with pre (map_option ((#) c) t) = continue_with (pre @ [c]) t"
  "continue_with pre (map_option ((@) u) t) = continue_with (pre @ u) t"
  by (cases t; simp add: continue_with_def)+

lemmas formatted_simps = bind_map_option continue_bind continue_simps

lemma clear_width_out [simp]: "out (clear_width s) = out s"
  by (simp add: clear_width_def)

text \<open>What one conversion puts out, whatever the flags are.\<close>

lemma conv_out:
  "out (usr_decToHexStr a False s) = out s @ hexadecimal (unat a)"
  "out (usr_decToHexStr a True s) = out s @ [0x30, 0x78] @ hexadecimal (unat a)"
  "out (usr_unusr_intToStr a s) = out s @ decimal (unat a)"
  "map_option out (usr_intToStr a s) = continue_with (out s) (conv_text 0x69 a)"
proof -
  show "map_option out (usr_intToStr a s) = continue_with (out s) (conv_text 0x69 a)"
    using usr_intToStr_out [of a s] usr_intToStr_min [of s]
    by (cases "a = 0x80000000") (simp_all add: conv_text_def decimal_def continue_simps)
qed (simp_all add: usr_decToHexStr_out usr_unusr_intToStr_out hexadecimal_def decimal_def)

lemma width_out: "out (fold (\<lambda>d s. s\<lparr>offset := offset s * 10 + (ucast d - 48)\<rparr>) ds s) = out s"
  by (induction ds arbitrary: s) auto

lemma fmt_formatted:
  "map_option out (fmt cs args s) = continue_with (out s) (Option.bind (parse_fmt cs) (\<lambda>ps. render ps args))"
  "map_option out (spec cs args s) = continue_with (out s) (Option.bind (parse_conv cs) (\<lambda>ps. render ps args))"
proof (induction cs args s and cs args s rule: fmt_spec.induct)
  case (2 c cs args s)
  then show ?case
    by (auto simp: formatted_simps syscall_putc_def)
next
  case step: (4 c cs args s)
  consider "c = 0x25" | "c = 0x69" | "takes_arg c" "c \<noteq> 0x69" | "\<not> takes_arg c" "is_digit c" "c \<noteq> 0x25"
    | "\<not> takes_arg c" "\<not> is_digit c" "c \<noteq> 0x25"
    by blast
  then show ?case
  proof cases
    case 1
    then show ?thesis using step
      by (simp add: takes_arg_def formatted_simps syscall_putc_def)
  next
    case 2
    show ?thesis
    proof (cases args)
      case Nil
      with 2 show ?thesis by (simp add: takes_arg_def formatted_simps)
    next
      case (Cons a as)
      have "conv_text c a = conv_text 0x69 a" using 2 by simp
      with 2 Cons step conv_out(4) [of a s] show ?thesis
        by (cases "usr_intToStr a s"; cases "conv_text 0x69 a")
          (auto simp: takes_arg_def formatted_simps split: option.splits)
    qed
  next
    case 3
    then have "c = 0x63 \<or> c = 0x78 \<or> c = 0x75 \<or> c = 0x70" by (auto simp: takes_arg_def)
    then show ?thesis
    proof (elim disjE)
      assume c: "c = 0x63"
      show ?thesis using step(1) [OF c] c
        by (cases args) (simp_all add: takes_arg_def formatted_simps conv_text_def syscall_putc_def)
    next
      assume c: "c = 0x78"
      show ?thesis using step(2) [OF _ c] c
        by (cases args) (simp_all add: takes_arg_def formatted_simps conv_text_def conv_out)
    next
      assume c: "c = 0x75"
      show ?thesis using step(4) [OF _ _ _ c] c
        by (cases args) (simp_all add: takes_arg_def formatted_simps conv_text_def conv_out)
    next
      assume c: "c = 0x70"
      show ?thesis using step(5) [OF _ _ _ _ c] c
        by (cases args) (simp_all add: takes_arg_def formatted_simps conv_text_def conv_out)
    qed
  next
    case 4
    with step(7) show ?thesis by (auto simp: takes_arg_def Let_def width_out)
  next
    case 5
    with step show ?thesis
      by (simp add: takes_arg_def formatted_simps syscall_putc_def)
  qed
qed (simp_all add: continue_simps)

lemma usr_kprintf_out: "map_option out (usr_kprintf (Some cs) args s) = continue_with (out s) (formatted cs args)"
  using fmt_formatted(1) [of cs args "s\<lparr>pf_j := 0\<rparr>"] by (simp add: usr_kprintf_def formatted_def)

end
