(* ===== verification/Usr_Micro.thy ===== *)
theory Usr_Micro imports Usr_Render begin

text \<open>
  \<open>usr_kprintf\<close> of \<^verbatim>\<open>user/user_kprintf.c\<close> one statement at a time. Its position in the format is the
  global \<open>i\<close>, which all threads of a process share, so between two statements another call of
  \<open>usr_kprintf\<close> can move it; the arguments not taken yet and the point in the code belong to the
  call. A step gives the next point, the new \<open>i\<close>, the arguments left and the characters put out;
  \<open>None\<close> is a read behind the terminating zero, a missing argument, or a number \<open>%i\<close> cannot print.

  A call that is not disturbed puts out what the reference \<open>formatted\<close> says and leaves \<open>i\<close> at the
  terminating zero. The width and the two flags have no effect on what is put out and are left out.
\<close>

subsection \<open>The steps\<close>

datatype micro = K_begin | K_test | K_look | K_put | K_skip | K_switch | K_width | K_percent
  | K_emit "u8 list" | K_next | K_leave

text \<open>\<open>str[i]\<close>, the terminating zero included.\<close>

definition char_at :: "u8 list \<Rightarrow> nat \<Rightarrow> u8 option" where
  "char_at str i = (if i < length str then Some (str ! i) else if i = length str then Some 0 else None)"

fun micro_step :: "u8 list \<Rightarrow> micro \<Rightarrow> nat \<Rightarrow> u32 list \<Rightarrow> (micro \<times> nat \<times> u32 list \<times> u8 list) option" where
  "micro_step str K_begin i va = Some (K_test, 0, va, [])"
| "micro_step str K_test i va = do {
     c \<leftarrow> char_at str i;
     Some (if c \<noteq> 0 then K_look else K_leave, i, va, []) }"
| "micro_step str K_look i va = do {
     c \<leftarrow> char_at str i;
     Some (if c = 0x25 then K_skip else K_put, i, va, []) }"
| "micro_step str K_put i va = do {
     c \<leftarrow> char_at str i;
     Some (K_emit [c], i, va, []) }"
| "micro_step str K_skip i va = Some (K_switch, Suc i, va, [])"
| "micro_step str K_switch i va = do {
     c \<leftarrow> char_at str i;
     if takes_arg c then
       (case va of [] \<Rightarrow> None | a # va \<Rightarrow> do {
          t \<leftarrow> conv_text c a;
          Some (K_emit t, i, va, []) })
     else if c = 0x25 then Some (K_emit [0x25], i, va, [])
     else if is_digit c then Some (K_width, i, va, [])
     else Some (K_percent, i, va, []) }"
| "micro_step str K_width i va = do {
     c \<leftarrow> char_at str i;
     Some (if is_digit c then (K_width, Suc i, va, []) else (K_switch, i, va, [])) }"
| "micro_step str K_percent i va = Some (K_put, i, va, [0x25])"
| "micro_step str (K_emit cs) i va = Some (case cs of [] \<Rightarrow> (K_next, i, va, []) | c # cs \<Rightarrow> (K_emit cs, i, va, [c]))"
| "micro_step str K_next i va = Some (K_test, Suc i, va, [])"
| "micro_step str K_leave i va = None"

subsection \<open>What is still to come\<close>

definition conv_rest :: "u8 list \<Rightarrow> u32 list \<Rightarrow> u8 list option" where
  "conv_rest cs va = Option.bind (parse_conv cs) (\<lambda>ps. render ps va)"

lemma formatted_simps_Cons:
  "formatted [] va = Some []"
  "formatted (c # cs) va = (if c = 0x25 then conv_rest cs va else map_option ((#) c) (formatted cs va))"
  by (simp add: formatted_def) (cases "parse_fmt cs"; simp add: formatted_def conv_rest_def)

lemma conv_rest_Cons:
  "conv_rest [] va = None"
  "conv_rest (c # cs) va =
     (if takes_arg c then (case va of [] \<Rightarrow> None | a # va \<Rightarrow> Option.bind (conv_text c a) (\<lambda>t. map_option ((@) t) (formatted cs va)))
      else if c = 0x25 then map_option ((#) c) (formatted cs va)
      else if is_digit c then conv_rest (dropWhile is_digit cs) va
      else map_option (\<lambda>t. 0x25 # c # t) (formatted cs va))"
proof -
  show "conv_rest [] va = None" by (simp add: conv_rest_def)
  show "conv_rest (c # cs) va =
     (if takes_arg c then (case va of [] \<Rightarrow> None | a # va \<Rightarrow> Option.bind (conv_text c a) (\<lambda>t. map_option ((@) t) (formatted cs va)))
      else if c = 0x25 then map_option ((#) c) (formatted cs va)
      else if is_digit c then conv_rest (dropWhile is_digit cs) va
      else map_option (\<lambda>t. 0x25 # c # t) (formatted cs va))"
    by (cases "parse_fmt cs") (auto simp: formatted_def conv_rest_def bind_map_option option.map_comp comp_def
      split: list.splits option.splits)
qed

fun rest :: "u8 list \<Rightarrow> micro \<Rightarrow> nat \<Rightarrow> u32 list \<Rightarrow> u8 list option" where
  "rest str K_begin i va = formatted str va"
| "rest str K_test i va = (if i \<le> length str then formatted (drop i str) va else None)"
| "rest str K_look i va = (if i < length str then formatted (drop i str) va else None)"
| "rest str K_put i va = (if i < length str then map_option ((#) (str ! i)) (formatted (drop (Suc i) str) va) else None)"
| "rest str K_skip i va = (if i < length str then conv_rest (drop (Suc i) str) va else None)"
| "rest str K_switch i va = conv_rest (drop i str) va"
| "rest str K_width i va = conv_rest (dropWhile is_digit (drop i str)) va"
| "rest str K_percent i va = (if i < length str then map_option (\<lambda>t. 0x25 # str ! i # t) (formatted (drop (Suc i) str) va) else None)"
| "rest str (K_emit cs) i va = (if i < length str then map_option ((@) cs) (formatted (drop (Suc i) str) va) else None)"
| "rest str K_next i va = (if i < length str then formatted (drop (Suc i) str) va else None)"
| "rest str K_leave i va = (if i = length str then Some [] else None)"

text \<open>How many steps are left at most, with \<open>m\<close> characters still to be put out.\<close>

fun steps_left :: "u8 list \<Rightarrow> micro \<Rightarrow> nat \<Rightarrow> nat \<Rightarrow> nat" where
  "steps_left str K_begin i m = 8 * length str + m + 5"
| "steps_left str K_test i m = 8 * (length str - i) + m + 4"
| "steps_left str K_look i m = 8 * (length str - i) + m + 3"
| "steps_left str K_put i m = 8 * (length str - i) + m + 2"
| "steps_left str K_skip i m = 8 * (length str - i) + m + 2"
| "steps_left str K_switch i m = 8 * (length str - i) + m + (if i < length str \<and> is_digit (str ! i) then 3 else 5)"
| "steps_left str K_width i m = 8 * (length str - i) + m + (if i < length str \<and> is_digit (str ! i) then 2 else 6)"
| "steps_left str K_percent i m = 8 * (length str - i) + m + 4"
| "steps_left str (K_emit cs) i m = 8 * (length str - i) + m + 1"
| "steps_left str K_next i m = 8 * (length str - i) + m"
| "steps_left str K_leave i m = 0"

lemma char_at_in: "i < length str \<Longrightarrow> char_at str i = Some (str ! i)"
  by (simp add: char_at_def)

lemma nonzero_char: "0 \<notin> set str \<Longrightarrow> i < length str \<Longrightarrow> str ! i \<noteq> 0"
  by (metis nth_mem)

text \<open>As long as there is a rest, the call can go on, and the rest is what it puts out.\<close>

lemma micro_progress:
  assumes "0 \<notin> set str" "rest str p i va = Some t" "p \<noteq> K_leave"
  shows "\<exists>p' i' va' os t'. micro_step str p i va = Some (p', i', va', os) \<and> rest str p' i' va' = Some t' \<and>
    t = os @ t' \<and> steps_left str p' i' (length t') < steps_left str p i (length t)"
proof -
  note d = Cons_nth_drop_Suc [of i str, symmetric]
  show ?thesis
  proof (cases p)
    case K_test
    then have i: "i \<le> length str" using assms(2) by (simp split: if_splits)
    show ?thesis
    proof (cases "i = length str")
      case True
      then show ?thesis using assms(2) K_test by (simp add: char_at_def formatted_simps_Cons)
    next
      case False
      then show ?thesis using assms K_test i by (simp add: char_at_in nonzero_char)
    qed
  next
    case K_look
    then have i: "i < length str" using assms(2) by (simp split: if_splits)
    then show ?thesis using assms(2) K_look by (auto simp: char_at_in d formatted_simps_Cons)
  next
    case K_put
    then have i: "i < length str" using assms(2) by (simp split: if_splits)
    then show ?thesis using assms(2) K_put by (auto simp: char_at_in)
  next
    case K_skip
    then have i: "i < length str" using assms(2) by (simp split: if_splits)
    then show ?thesis using assms(2) K_skip by auto
  next
    case K_switch
    then have i: "i < length str" using assms(2) by (cases "i < length str") (simp_all add: conv_rest_Cons)
    consider "takes_arg (str ! i)" | "\<not> takes_arg (str ! i)" "str ! i = 0x25"
      | "\<not> takes_arg (str ! i)" "str ! i \<noteq> 0x25" "is_digit (str ! i)"
      | "\<not> takes_arg (str ! i)" "str ! i \<noteq> 0x25" "\<not> is_digit (str ! i)" by blast
    then show ?thesis
    proof cases
      case 1
      then have "\<not> is_digit (str ! i)" by (auto simp: takes_arg_def is_digit_def)
      with 1 show ?thesis using assms(2) K_switch i
        by (auto simp: char_at_in d conv_rest_Cons split: list.splits bind_splits)
    next
      case 2
      then have "\<not> is_digit (str ! i)" by (auto simp: is_digit_def)
      with 2 show ?thesis using assms(2) K_switch i by (auto simp: char_at_in d conv_rest_Cons)
    next
      case 3
      then show ?thesis using assms(2) K_switch i by (auto simp: char_at_in d conv_rest_Cons)
    next
      case 4
      then show ?thesis using assms(2) K_switch i by (auto simp: char_at_in d conv_rest_Cons)
    qed
  next
    case K_width
    then have i: "i < length str" using assms(2) by (cases "i < length str") (simp_all add: conv_rest_Cons)
    show ?thesis
    proof (cases "is_digit (str ! i)")
      case True
      then show ?thesis using assms(2) K_width i by (auto simp: char_at_in d)
    next
      case False
      then show ?thesis using assms(2) K_width i by (auto simp: char_at_in d)
    qed
  next
    case K_percent
    then have i: "i < length str" using assms(2) by (simp split: if_splits)
    then show ?thesis using assms(2) K_percent by auto
  next
    case (K_emit cs)
    then have i: "i < length str" using assms(2) by (simp split: if_splits)
    then show ?thesis using assms(2) K_emit by (cases cs) auto
  next
    case K_next
    then have i: "i < length str" using assms(2) by (simp split: if_splits)
    then show ?thesis using assms(2) K_next by auto
  qed (use assms in auto)
qed

lemma rest_leave: "rest str K_leave i va = Some t \<Longrightarrow> i = length str \<and> t = []"
  by (simp split: if_splits)

text \<open>A call that is not disturbed, from any point of it.\<close>

inductive undisturbed :: "u8 list \<Rightarrow> micro \<Rightarrow> nat \<Rightarrow> u32 list \<Rightarrow> u8 list \<Rightarrow> nat \<Rightarrow> bool" for str where
  undisturbed_leave: "undisturbed str K_leave i va [] i"
| undisturbed_step: "micro_step str p i va = Some (p', i', va', os) \<Longrightarrow> undisturbed str p' i' va' t n \<Longrightarrow>
     undisturbed str p i va (os @ t) n"

lemma undisturbed_rest:
  assumes "0 \<notin> set str" "rest str p i va = Some t"
  shows "undisturbed str p i va t (length str)"
  using assms(2)
proof (induction "steps_left str p i (length t)" arbitrary: p i va t rule: less_induct)
  case less
  show ?case
  proof (cases "p = K_leave")
    case True
    then have "i = length str" "t = []" using less.prems rest_leave by blast+
    then show ?thesis using True undisturbed_leave by blast
  next
    case False
    obtain p' i' va' os t' where s: "micro_step str p i va = Some (p', i', va', os)" "rest str p' i' va' = Some t'"
        "t = os @ t'" "steps_left str p' i' (length t') < steps_left str p i (length t)"
      using micro_progress [OF assms(1) less.prems False] by blast
    from undisturbed_step [OF s(1) less.hyps [OF s(4,2)]] s(3) show ?thesis by simp
  qed
qed

text \<open>Conversely a call that comes to its end has put out the rest.\<close>

lemma micro_back:
  assumes "0 \<notin> set str" "micro_step str p i va = Some (p', i', va', os)" "rest str p' i' va' = Some t'"
  shows "rest str p i va = Some (os @ t')"
proof -
  have z: "str ! i \<noteq> 0" if "i < length str" for i using nonzero_char [OF assms(1) that] .
  note d = Cons_nth_drop_Suc [of i str, symmetric]
  show ?thesis
  proof (cases p)
    case K_test
    then show ?thesis using assms(2,3) z [of i]
      by (auto simp: char_at_def formatted_simps_Cons split: if_splits)
  next
    case K_look
    then show ?thesis using assms(2,3) by (auto simp: char_at_def d formatted_simps_Cons split: if_splits)
  next
    case K_put
    then show ?thesis using assms(2,3) by (auto simp: char_at_def split: if_splits)
  next
    case K_skip
    then show ?thesis using assms(2,3) by (cases "i < length str") (auto simp: conv_rest_Cons)
  next
    case K_switch
    have i: "i < length str"
      by (rule ccontr) (use K_switch assms(2,3) in \<open>auto simp: char_at_def takes_arg_def is_digit_def split: if_splits\<close>)
    consider "takes_arg (str ! i)" | "\<not> takes_arg (str ! i)" "str ! i = 0x25"
      | "\<not> takes_arg (str ! i)" "str ! i \<noteq> 0x25" "is_digit (str ! i)"
      | "\<not> takes_arg (str ! i)" "str ! i \<noteq> 0x25" "\<not> is_digit (str ! i)" by blast
    then show ?thesis
    proof cases
      case 1
      have "drop i str = str ! i # drop (Suc i) str" by (rule d [OF i])
      with 1 show ?thesis using K_switch assms(2,3) i
        by (cases va; cases "conv_text (str ! i) (hd va)") (auto simp: char_at_in conv_rest_Cons split: bind_splits)
    qed (use K_switch assms(2,3) i d [OF i] in \<open>auto simp: char_at_in conv_rest_Cons\<close>)
  next
    case K_width
    have i: "i < length str"
      by (rule ccontr) (use K_width assms(2,3) in \<open>auto simp: char_at_def is_digit_def conv_rest_Cons split: if_splits\<close>)
    then show ?thesis using K_width assms(2,3) d [OF i] by (cases "is_digit (str ! i)") (auto simp: char_at_in)
  next
    case (K_emit cs)
    then show ?thesis using assms(2,3) by (cases cs) (auto split: if_splits)
  qed (use assms(2,3) in \<open>auto split: if_splits\<close>)
qed

lemma undisturbed_iff_rest:
  assumes "0 \<notin> set str"
  shows "undisturbed str p i va t (length str) \<longleftrightarrow> rest str p i va = Some t"
proof
  have "n = length str \<Longrightarrow> rest str p i va = Some t" if "undisturbed str p i va t n" for n
    using that
  proof induction
    case (undisturbed_step p i va p' i' va' os t n)
    then show ?case using micro_back [OF assms] by simp
  qed simp
  then show "undisturbed str p i va t (length str) \<Longrightarrow> rest str p i va = Some t" by blast
qed (rule undisturbed_rest [OF assms])

end
