(* ===== verification/Kprintf_Properties.thy ===== *)
theory Kprintf_Properties imports Usr_Strings Usr_Micro begin

text \<open>
  The properties of the user's formatted output: when a call is defined, and that what it prints
  for a number reads back as that number.
\<close>

definition blank_pf :: pf where "blank_pf = \<lparr>pf_j = 0, offset = 0, zeros = False, out = []\<rparr>"

lemma unat_u32: "unat (n :: u32) < 4294967296"
  by (rule order_less_le_trans [OF unsigned_less]) simp

text \<open>C20. A call of \<open>usr_kprintf\<close> prints exactly the rendered pieces of its format, for every format, all
  arguments and whatever width, flags and output the earlier calls left; it is undefined exactly
  where the rendering is. Widths have no effect.\<close>

theorem kprintf_prints_formatted:
  "map_option out (usr_kprintf (Some cs) args s) = map_option (\<lambda>t. out s @ t) (formatted cs args)"
  by (simp add: usr_kprintf_out continue_with_def)

text \<open>C21. One statement after the other, the way \<^verbatim>\<open>user/user_kprintf.c\<close> walks through the string with the
  global \<open>i\<close>, a call that no other call disturbs comes to its end with \<open>i\<close> at the terminating zero
  exactly if \<open>usr_kprintf\<close> is defined, and puts out the same characters; what \<open>i\<close> was before does not
  matter.\<close>

theorem statements_print_the_same:
  assumes "0 \<notin> set cs"
  shows "undisturbed cs K_begin i args t (length cs) \<longleftrightarrow>
    (\<exists>s'. usr_kprintf (Some cs) args s = Some s' \<and> out s' = out s @ t)"
proof -
  have "undisturbed cs K_begin i args t (length cs) \<longleftrightarrow> formatted cs args = Some t"
    using undisturbed_iff_rest [OF assms, of K_begin i args t] by simp
  moreover have "(\<exists>s'. usr_kprintf (Some cs) args s = Some s' \<and> out s' = out s @ t) \<longleftrightarrow> formatted cs args = Some t"
    using usr_kprintf_out [of cs args s]
    by (cases "usr_kprintf (Some cs) args s"; cases "formatted cs args") (auto simp: continue_with_def)
  ultimately show ?thesis by simp
qed

theorem statements_print_the_same_witness:
  "undisturbed [0x25, 0x75, 0x21] K_begin 9 [42] [0x34, 0x32, 0x21] 3"
proof -
  have "(0 :: u8) \<notin> set [0x25, 0x75, 0x21]" by simp
  from statements_print_the_same [OF this, of 9 "[42]" "[0x34, 0x32, 0x21]" blank_pf]
    usr_kprintf_out [of "[0x25, 0x75, 0x21]" "[42]" blank_pf]
  show ?thesis
    by (auto simp: formatted_def takes_arg_def conv_text_def decimal_def digits.simps dec_char_def continue_with_def
      blank_pf_def numeral_3_eq_3)
qed

text \<open>C27. A call of \<open>usr_kprintf\<close> with a format string is defined exactly if the string does not end
  inside a conversion, there are at least as many arguments as conversions that take one, and no
  argument printed with \<open>%i\<close> is the smallest integer. (A width too large for \<open>offset\<close>, which no code
  uses, counts as defined.)\<close>

theorem kprintf_defined_iff:
  "(usr_kprintf (Some cs) args s \<noteq> None) =
   (\<exists>ks. fmt_args cs = Some ks \<and> length ks \<le> length args \<and>
      (\<forall>i < length ks. ks ! i = 0x69 \<longrightarrow> args ! i \<noteq> 0x80000000))"
proof -
  have "(\<forall>(k, a) \<in> set (zip ks args). k = 0x69 \<longrightarrow> a \<noteq> 0x80000000) \<longleftrightarrow>
      (\<forall>i < length ks. ks ! i = 0x69 \<longrightarrow> args ! i \<noteq> 0x80000000)" if "length ks \<le> length args" for ks :: "u8 list"
    using that by (auto simp: set_zip)
  then show ?thesis
    using fmt_defined(1) [of cs args "s\<lparr>pf_j := 0\<rparr>"]
    by (auto simp: usr_kprintf_def args_ok_def split: option.splits)
qed

theorem kprintf_defined_iff_witness:
  "usr_kprintf (Some [0x25, 0x69]) [7] blank_pf \<noteq> None \<and> usr_kprintf (Some [0x25]) [] blank_pf = None"
proof -
  have "fmt_args [0x25, 0x69] = Some [0x69]" "fmt_args [0x25] = None" by (simp_all add: takes_arg_def)
  then show ?thesis
    using kprintf_defined_iff [of "[0x25, 0x69]" "[7]" blank_pf] kprintf_defined_iff [of "[0x25]" "[]" blank_pf] by simp
qed

text \<open>C29. \<open>%x\<close> prints between one and eight hexadecimal digits that read back as the argument, with no
  leading zero except for zero itself.\<close>

theorem hex_roundtrip:
  "\<exists>ds. fmt [0x25, 0x78] [n] s = Some (s\<lparr>offset := 0, zeros := False, out := out s @ ds\<rparr>) \<and>
     read_number 16 ds = unat n \<and> 1 \<le> length ds \<and> length ds \<le> 8 \<and> (n = 0 \<or> hd ds \<noteq> 0x30)"
proof -
  let ?ds = "rev (map hex_char (digits 16 (unat n)))"
  have ne: "digits 16 (unat n) \<noteq> []" by (subst digits.simps) auto
  have "unat n < 16 ^ 8" using unat_u32 [of n] by simp
  then have "length ?ds \<le> 8" using digits_length [of 16 "unat n" 8] by simp
  moreover have "1 \<le> length ?ds" using ne by (cases "digits 16 (unat n)") auto
  moreover have "read_number 16 ?ds = unat n" by (rule digits_value) (simp_all add: hex_char_value)
  moreover have "hd ?ds \<noteq> 0x30" if "n \<noteq> 0"
  proof -
    have "last (digits 16 (unat n)) \<noteq> 0" "last (digits 16 (unat n)) < 16"
      using digits_leading [of 16 "unat n"] digits_lt [of 16 _ "unat n"] that ne by (auto simp: unat_eq_0 gr0_conv_Suc [symmetric] unat_gt_0)
    then have "hex_char (last (digits 16 (unat n))) \<noteq> 0x30"
      using hex_char_value [of "last (digits 16 (unat n))"] by (auto simp: digit_value_def)
    then show ?thesis using ne by (simp add: hd_rev last_map)
  qed
  ultimately show ?thesis
    by (intro exI [of _ ?ds]) (auto simp: usr_decToHexStr_out clear_width_def)
qed

theorem hex_roundtrip_witness:
  "\<exists>ds. fmt [0x25, 0x78] [0x700000] blank_pf = Some (blank_pf\<lparr>out := ds\<rparr>) \<and> read_number 16 ds = 0x700000 \<and> hd ds \<noteq> 0x30"
  using hex_roundtrip [of "0x700000" blank_pf] by (auto simp: blank_pf_def)

text \<open>C28. \<open>%i\<close> prints a sign exactly for negative numbers and then at most ten decimal digits of the
  absolute value, for every integer except the smallest, whose negation overflows.\<close>

theorem int_roundtrip:
  assumes "n \<noteq> 0x80000000"
  shows "\<exists>ds. fmt [0x25, 0x69] [n] s =
      Some (s\<lparr>offset := 0, zeros := False, out := out s @ (if sint n < 0 then [0x2D] else []) @ ds\<rparr>) \<and>
    int (read_number 10 ds) = \<bar>sint n\<bar> \<and> length ds \<le> 10"
proof -
  let ?ds = "rev (map dec_char (digits 10 (nat \<bar>sint n\<bar>)))"
  have "nat \<bar>sint n\<bar> < 10 ^ 10" using sint_ge [of n] sint_lt [of n] by simp
  then have "length ?ds \<le> 10" using digits_length [of 10 "nat \<bar>sint n\<bar>" 10] by simp
  moreover have "read_number 10 ?ds = nat \<bar>sint n\<bar>" by (rule digits_value) (simp_all add: dec_char_value)
  ultimately show ?thesis using usr_intToStr_out [OF assms, of s]
    by (intro exI [of _ ?ds]) (simp add: clear_width_def)
qed

theorem int_roundtrip_witness:
  "\<exists>ds. fmt [0x25, 0x69] [- 42] blank_pf = Some (blank_pf\<lparr>out := 0x2D # ds\<rparr>) \<and> read_number 10 ds = 42"
  using int_roundtrip [of "- 42" blank_pf] by (auto simp: blank_pf_def)

text \<open>\<open>%u\<close> prints at most ten decimal digits that read back as the argument.\<close>

theorem unsigned_roundtrip:
  "\<exists>ds. fmt [0x25, 0x75] [n] s = Some (s\<lparr>offset := 0, zeros := False, out := out s @ ds\<rparr>) \<and>
     read_number 10 ds = unat n \<and> length ds \<le> 10"
proof -
  let ?ds = "rev (map dec_char (digits 10 (unat n)))"
  have "unat n < 10 ^ 10" using unat_u32 [of n] by simp
  then have "length ?ds \<le> 10" using digits_length [of 10 "unat n" 10] by simp
  moreover have "read_number 10 ?ds = unat n" by (rule digits_value) (simp_all add: dec_char_value)
  ultimately show ?thesis
    by (intro exI [of _ ?ds]) (simp add: usr_unusr_intToStr_out clear_width_def)
qed

subsection \<open>Strings\<close>

text \<open>C38. \<open>usr_strcpy\<close> copies a terminated string to bytes that do not overlap it and writes no other
  byte; it returns its destination, the string there has the same characters, and \<open>usr_strlen\<close>
  gives their number for both.\<close>

theorem strcpy_copies:
  assumes "c_string m src cs" "bytes_apart dest src (length cs + 1)" "dest \<noteq> - 1"
  shows "\<exists>m'. usr_strcpy dest src m = Some (dest, m') \<and> c_string m' dest cs \<and>
    usr_strlen m' dest = Some (length cs) \<and> usr_strlen m src = Some (length cs) \<and>
    (\<forall>a. (\<forall>i \<le> length cs. a \<noteq> dest + of_nat i) \<longrightarrow> m' a = m a)"
proof -
  obtain m' where m': "strcpy_loop dest src m = Some m'" "c_string m' dest cs"
      "\<forall>a. (\<forall>i \<le> length cs. a \<noteq> dest + of_nat i) \<longrightarrow> m' a = m a"
    using strcpy_loop_c_string [OF assms(1)] assms(2) by auto
  then have "usr_strcpy dest src m = Some (dest, m')" using assms(3) by (simp add: usr_strcpy_def)
  moreover have "usr_strlen m' dest = Some (length cs)" "usr_strlen m src = Some (length cs)"
    using strlen_from_c_string [of m' dest 0 cs] strlen_from_c_string [of m src 0 cs] m'(2) assms(1)
    by (simp_all add: usr_strlen_def)
  ultimately show ?thesis using m'(2,3) by blast
qed

definition hi_mem :: mem where "hi_mem = (\<lambda>_. 0)(0x100 := 0x48, 0x101 := 0x69)"

lemma below_three: "(\<forall>i < (3 :: nat). P i) \<longleftrightarrow> P 0 \<and> P 1 \<and> P 2"
  by (auto simp: numeral_3_eq_3 less_Suc_eq numeral_2_eq_2)

lemma hi_mem_string: "c_string hi_mem 0x100 [0x48, 0x69]" "bytes_apart 0x200 0x100 3"
proof -
  show "c_string hi_mem 0x100 [0x48, 0x69]" by (simp add: c_string_Cons c_string_Nil hi_mem_def)
  show "bytes_apart 0x200 0x100 3"
    by (simp add: bytes_apart_def below_three)
qed

theorem strcpy_copies_witness:
  "\<exists>m'. usr_strcpy 0x200 0x100 hi_mem = Some (0x200, m') \<and> c_string m' 0x200 [0x48, 0x69] \<and> usr_strlen m' 0x200 = Some 2"
proof -
  have "bytes_apart 0x200 0x100 (length [0x48 :: u8, 0x69] + 1)" using hi_mem_string(2) by (simp add: numeral_3_eq_3)
  from strcpy_copies [OF hi_mem_string(1) this] show ?thesis by auto
qed

end
