(* ===== verification/User_Threads.thy ===== *)
theory User_Threads imports OS_Prelude begin

text \<open>
  The counting application of \<^verbatim>\<open>user/user_thread_functions.c\<close>: a parent and two children share the
  volatile \<open>global_counter\<close> and print a line per increment. The scheduler may switch between any two
  accesses, so an increment is a read and a write, and updates can be lost. The threads are a step
  relation over their program points. \<open>Print\<close> is the call of \<open>usr_kprintf\<close>: the step evaluates its
  arguments and records them in \<open>lines_out\<close>. What the call then does, and that it is neither atomic
  nor reentrant, is in \<^verbatim>\<open>Printing_Threads\<close>, where a thread goes on only when its call has returned.
\<close>

datatype point = Reset | Set_char | Exec_child nat | Start | Check | Read | Write | Print | Sleep | Done | Not_started

record thread =
  at_point :: point
  ch :: u8
  local_counter :: u32
  held :: u32

text \<open>Thread 0 is the parent; \<open>key\<close> is the character it was started for.\<close>

record app =
  key :: u8
  global_counter :: u32
  global_char :: u8
  thr :: "nat \<Rightarrow> thread"
  lines_out :: "(u8 \<times> u32 \<times> u8 \<times> u32) list"

definition LOOP_LENGTH :: u32 where "LOOP_LENGTH = 15"

definition id_char :: "nat \<Rightarrow> u8" where "id_char t = of_nat (0x31 + t)"

definition goto :: "nat \<Rightarrow> point \<Rightarrow> app \<Rightarrow> app" where
  "goto t p s = s\<lparr>thr := (thr s)(t := (thr s t)\<lparr>at_point := p\<rparr>)\<rparr>"

text \<open>
  One access of one thread. \<open>syscall_exec\<close> may fail, and the parent does not look at its result.
\<close>

inductive app_step :: "app \<Rightarrow> app \<Rightarrow> bool" where
  do_reset: "at_point (thr s 0) = Reset \<Longrightarrow> app_step s (goto 0 Set_char (s\<lparr>global_counter := 0\<rparr>))"
| do_set_char: "at_point (thr s 0) = Set_char \<Longrightarrow>
     app_step s (goto 0 (Exec_child 1) (s\<lparr>global_char := key s, thr := (thr s)(0 := (thr s 0)\<lparr>ch := key s\<rparr>)\<rparr>))"
| exec_works: "at_point (thr s 0) = Exec_child i \<Longrightarrow> i = 1 \<or> i = 2 \<Longrightarrow>
     app_step s (goto 0 (if i = 1 then Exec_child 2 else Check)
       (s\<lparr>thr := (thr s)(i := \<lparr>at_point = Start, ch = 0, local_counter = 0, held = 0\<rparr>)\<rparr>))"
| exec_fails: "at_point (thr s 0) = Exec_child i \<Longrightarrow> i = 1 \<or> i = 2 \<Longrightarrow>
     app_step s (goto 0 (if i = 1 then Exec_child 2 else Check) s)"
| start: "t < 3 \<Longrightarrow> at_point (thr s t) = Start \<Longrightarrow>
     app_step s (goto t Check (s\<lparr>thr := (thr s)(t := (thr s t)\<lparr>ch := global_char s\<rparr>)\<rparr>))"
| check_more: "t < 3 \<Longrightarrow> at_point (thr s t) = Check \<Longrightarrow> global_counter s < LOOP_LENGTH \<Longrightarrow>
     app_step s (goto t Read (s\<lparr>thr := (thr s)(t := (thr s t)\<lparr>local_counter := local_counter (thr s t) + 1\<rparr>)\<rparr>))"
| check_done: "t < 3 \<Longrightarrow> at_point (thr s t) = Check \<Longrightarrow> \<not> global_counter s < LOOP_LENGTH \<Longrightarrow> app_step s (goto t Done s)"
| do_read: "t < 3 \<Longrightarrow> at_point (thr s t) = Read \<Longrightarrow>
     app_step s (goto t Write (s\<lparr>thr := (thr s)(t := (thr s t)\<lparr>held := global_counter s\<rparr>)\<rparr>))"
| do_write: "t < 3 \<Longrightarrow> at_point (thr s t) = Write \<Longrightarrow>
     app_step s (goto t Print (s\<lparr>global_counter := held (thr s t) + 1\<rparr>))"
| do_print: "t < 3 \<Longrightarrow> at_point (thr s t) = Print \<Longrightarrow>
     app_step s (goto t Sleep (s\<lparr>lines_out := lines_out s @
       [(ch (thr s t), global_counter s, id_char t, local_counter (thr s t))]\<rparr>))"
| do_sleep: "t < 3 \<Longrightarrow> at_point (thr s t) = Sleep \<Longrightarrow> app_step s (goto t Check s)"

inductive app_reach :: "app \<Rightarrow> app \<Rightarrow> bool" for s0 where
  app_start: "app_reach s0 s0"
| app_more: "app_reach s0 s \<Longrightarrow> app_step s s' \<Longrightarrow> app_reach s0 s'"

text \<open>The state in which the parent begins: whatever the counter holds, no child yet.\<close>

definition app_init :: "u8 \<Rightarrow> u32 \<Rightarrow> u8 \<Rightarrow> app" where
  "app_init k g gc = \<lparr>key = k, global_counter = g, global_char = gc,
     thr = (\<lambda>t. \<lparr>at_point = (if t = 0 then Reset else Not_started), ch = 0, local_counter = 0, held = 0\<rparr>),
     lines_out = []\<rparr>"

subsection \<open>The invariant\<close>

definition pending :: "app \<Rightarrow> nat" where
  "pending s = (\<Sum>t<3. if at_point (thr s t) = Print then 1 else 0)"

definition writes :: "app \<Rightarrow> nat" where
  "writes s = length (lines_out s) + pending s"

definition finished :: "app \<Rightarrow> bool" where
  "finished s \<longleftrightarrow> (\<forall>t < 3. at_point (thr s t) = Done \<or> at_point (thr s t) = Not_started)"

text \<open>A child does not run before the parent has created it.\<close>

definition phase_inv :: "app \<Rightarrow> bool" where
  "phase_inv s \<longleftrightarrow>
     (at_point (thr s 0) \<in> {Reset, Set_char, Exec_child 1} \<longrightarrow> at_point (thr s 1) = Not_started) \<and>
     (at_point (thr s 0) \<in> {Reset, Set_char, Exec_child 1, Exec_child 2} \<longrightarrow> at_point (thr s 2) = Not_started)"

text \<open>
  No value in the counter or held by a thread exceeds the number of writes, and when all threads
  have left their loops the last one has seen at least fifteen.
\<close>

definition count_inv :: "app \<Rightarrow> bool" where
  "count_inv s \<longleftrightarrow> (at_point (thr s 0) \<noteq> Reset \<longrightarrow> unat (global_counter s) \<le> writes s) \<and>
     (\<forall>t < 3. at_point (thr s t) = Write \<longrightarrow> unat (held (thr s t)) \<le> writes s)"

definition app_inv :: "app \<Rightarrow> bool" where
  "app_inv s \<longleftrightarrow> phase_inv s \<and> count_inv s \<and> (finished s \<longrightarrow> \<not> global_counter s < LOOP_LENGTH)"

lemma three_cases: "(t < 3) = (t = 0 \<or> t = 1 \<or> t = (2::nat))"
  by auto

text \<open>Only a move of the parent, or a child's leaving \<open>Not_started\<close>, can affect the phases.\<close>

lemma phase_inv_child:
  assumes "phase_inv s" "t < 3" "\<And>u. u \<noteq> t \<Longrightarrow> thr s' u = thr s u" "at_point (thr s t) \<noteq> Not_started"
    and "at_point (thr s' t) \<notin> {Reset, Set_char, Exec_child 1, Exec_child 2}"
  shows "phase_inv s'"
  using assms unfolding three_cases by (elim disjE) (simp_all add: phase_inv_def)

lemma phase_step: "app_step s s' \<Longrightarrow> phase_inv s \<Longrightarrow> phase_inv s'"
proof (induction rule: app_step.induct)
  case (do_reset s)
  then show ?case by (simp add: phase_inv_def goto_def)
next
  case (do_set_char s)
  then show ?case by (simp add: phase_inv_def goto_def)
next
  case (exec_works s i)
  from exec_works(2) show ?case by (elim disjE) (use exec_works in \<open>simp_all add: phase_inv_def goto_def\<close>)
next
  case (exec_fails s i)
  from exec_fails(2) show ?case by (elim disjE) (use exec_fails in \<open>simp_all add: phase_inv_def goto_def\<close>)
next
  case (start t s)
  show ?case by (rule phase_inv_child [of s t]) (use start in \<open>simp_all add: goto_def\<close>)
next
  case (check_more t s)
  show ?case by (rule phase_inv_child [of s t]) (use check_more in \<open>simp_all add: goto_def\<close>)
next
  case (check_done t s)
  show ?case by (rule phase_inv_child [of s t]) (use check_done in \<open>simp_all add: goto_def\<close>)
next
  case (do_read t s)
  show ?case by (rule phase_inv_child [of s t]) (use do_read in \<open>simp_all add: goto_def\<close>)
next
  case (do_write t s)
  show ?case by (rule phase_inv_child [of s t]) (use do_write in \<open>simp_all add: goto_def\<close>)
next
  case (do_print t s)
  show ?case by (rule phase_inv_child [of s t]) (use do_print in \<open>simp_all add: goto_def\<close>)
next
  case (do_sleep t s)
  show ?case by (rule phase_inv_child [of s t]) (use do_sleep in \<open>simp_all add: goto_def\<close>)
qed

lemma finished_step:
  "app_step s s' \<Longrightarrow> finished s' \<Longrightarrow> \<not> global_counter s' < LOOP_LENGTH"
proof (induction rule: app_step.induct)
  case (do_reset s)
  then show ?case by (auto simp: finished_def goto_def dest: spec [of _ 0])
next
  case (do_set_char s)
  then show ?case by (auto simp: finished_def goto_def dest: spec [of _ 0])
next
  case (exec_works s i)
  then show ?case by (auto simp: finished_def goto_def dest: spec [of _ 0])
next
  case (exec_fails s i)
  then show ?case by (auto simp: finished_def goto_def dest: spec [of _ 0])
qed (auto simp: finished_def goto_def)

lemma pending_upd:
  assumes "t < 3" "\<And>u. u \<noteq> t \<Longrightarrow> thr s' u = thr s u"
  shows "pending s' + (if at_point (thr s t) = Print then 1 else 0) =
    pending s + (if at_point (thr s' t) = Print then 1 else 0)"
proof -
  have "{..<3} = {0, 1, 2 :: nat}" by auto
  then show ?thesis using assms unfolding three_cases by (elim disjE) (simp_all add: pending_def)
qed

text \<open>A step that moves a thread between points other than \<open>Print\<close> counts nothing.\<close>

lemma writes_same:
  assumes "t < 3" "\<And>u. u \<noteq> t \<Longrightarrow> thr s' u = thr s u" "lines_out s' = lines_out s"
    and "at_point (thr s t) \<noteq> Print" "at_point (thr s' t) \<noteq> Print"
  shows "writes s' = writes s"
  using pending_upd [OF assms(1,2)] assms(3-5) by (simp add: writes_def)

lemma count_inv_move:
  assumes inv: "count_inv s" and t: "t < 3" and same: "\<And>u. u \<noteq> t \<Longrightarrow> thr s' u = thr s u"
    and rest: "lines_out s' = lines_out s" "at_point (thr s t) \<noteq> Print" "at_point (thr s' t) \<noteq> Print"
    and counter: "at_point (thr s' 0) \<noteq> Reset \<Longrightarrow> unat (global_counter s') \<le> writes s"
    and held: "at_point (thr s' t) = Write \<Longrightarrow> unat (held (thr s' t)) \<le> writes s"
  shows "count_inv s'"
proof -
  have w: "writes s' = writes s" by (rule writes_same [OF t same rest])
  have "unat (held (thr s' u)) \<le> writes s" if "u < 3" "at_point (thr s' u) = Write" for u
    by (cases "u = t") (use that held same [of u] inv in \<open>simp_all add: count_inv_def\<close>)
  then show ?thesis using counter by (simp add: count_inv_def w)
qed

lemma unat_Suc_le: "unat (x + 1 :: u32) \<le> unat x + 1"
  by (simp add: unat_word_ariths)

lemma count_step:
  assumes "app_step s s'" "phase_inv s" "count_inv s"
  shows "count_inv s'"
  using assms
proof (induction rule: app_step.induct)
  case (do_reset s)
  show ?case by (rule count_inv_move [of s 0]) (use do_reset in \<open>auto simp: goto_def count_inv_def split: if_splits\<close>)
next
  case (do_set_char s)
  show ?case by (rule count_inv_move [of s 0]) (use do_set_char in \<open>auto simp: goto_def count_inv_def split: if_splits\<close>)
next
  case (exec_works s i)
  let ?s1 = "s\<lparr>thr := (thr s)(i := \<lparr>at_point = Start, ch = 0, local_counter = 0, held = 0\<rparr>)\<rparr>"
  have i: "i < 3" "i \<noteq> 0" "at_point (thr s i) = Not_started"
    using exec_works by (auto simp: phase_inv_def)
  have inv: "count_inv ?s1"
    by (rule count_inv_move [of s i]) (use exec_works i in \<open>auto simp: count_inv_def\<close>)
  have same: "writes ?s1 = writes s"
    by (rule writes_same [of i]) (use exec_works i in auto)
  show ?case
    by (rule count_inv_move [of ?s1 0]) (use inv same exec_works i in \<open>auto simp: goto_def count_inv_def\<close>)
next
  case (exec_fails s i)
  show ?case by (rule count_inv_move [of s 0]) (use exec_fails in \<open>auto simp: goto_def count_inv_def split: if_splits\<close>)
next
  case (start t s)
  show ?case by (rule count_inv_move [of s t]) (use start in \<open>auto simp: goto_def count_inv_def split: if_splits\<close>)
next
  case (check_more t s)
  show ?case by (rule count_inv_move [of s t]) (use check_more in \<open>auto simp: goto_def count_inv_def split: if_splits\<close>)
next
  case (check_done t s)
  show ?case by (rule count_inv_move [of s t]) (use check_done in \<open>auto simp: goto_def count_inv_def split: if_splits\<close>)
next
  case (do_read t s)
  have nr: "at_point (thr s 0) \<noteq> Reset"
    using do_read unfolding three_cases by (elim disjE) (auto simp: phase_inv_def)
  show ?case
    by (rule count_inv_move [of s t]) (use nr do_read in \<open>auto simp: goto_def count_inv_def split: if_splits\<close>)
next
  case (do_write t s)
  let ?s' = "goto t Print (s\<lparr>global_counter := held (thr s t) + 1\<rparr>)"
  have "writes ?s' = writes s + 1"
    using pending_upd [of t ?s' s] do_write by (simp add: writes_def goto_def)
  then have "count_inv ?s' \<longleftrightarrow> (at_point (thr ?s' 0) \<noteq> Reset \<longrightarrow> unat (held (thr s t) + 1) \<le> writes s + 1) \<and>
      (\<forall>u < 3. at_point (thr ?s' u) = Write \<longrightarrow> unat (held (thr ?s' u)) \<le> writes s + 1)"
    by (simp add: count_inv_def goto_def)
  moreover have "unat (held (thr s t)) \<le> writes s"
    using do_write by (simp add: count_inv_def)
  then have "unat (held (thr s t) + 1) \<le> writes s + 1"
    using unat_Suc_le [of "held (thr s t)"] by linarith
  moreover have "unat (held (thr ?s' u)) \<le> writes s + 1" if "u < 3" "at_point (thr ?s' u) = Write" for u
  proof -
    have "u \<noteq> t" using that by (auto simp: goto_def)
    then have "unat (held (thr s u)) \<le> writes s"
      using do_write.prems that by (simp add: count_inv_def goto_def)
    then show ?thesis using \<open>u \<noteq> t\<close> by (simp add: goto_def)
  qed
  ultimately show ?case by blast
next
  case (do_print t s)
  let ?s' = "goto t Sleep (s\<lparr>lines_out := lines_out s @
       [(ch (thr s t), global_counter s, id_char t, local_counter (thr s t))]\<rparr>)"
  have "writes ?s' = writes s"
    using pending_upd [of t ?s' s] do_print by (simp add: writes_def goto_def)
  then show ?case using do_print by (auto simp: count_inv_def goto_def split: if_splits)
next
  case (do_sleep t s)
  show ?case by (rule count_inv_move [of s t]) (use do_sleep in \<open>auto simp: goto_def count_inv_def split: if_splits\<close>)
qed

lemma app_reach_inv:
  assumes "app_reach (app_init k g gc) s"
  shows "app_inv s"
  using assms
proof induction
  case app_start
  show ?case by (auto simp: app_inv_def phase_inv_def count_inv_def finished_def app_init_def dest: spec [of _ 0])
next
  case (app_more s s')
  then show ?case using phase_step count_step finished_step by (auto simp: app_inv_def)
qed

end
