(* ===== verification/Thread_Progress.thy ===== *)
theory Thread_Progress imports User_Threads begin

text \<open>
  Termination of the counting application under every schedule. A stale write can set the counter
  back, so the counter itself is no measure. What decreases is the weight of the values in play:
  a value below fifteen weighs three times its successor, because up to three threads may copy it
  before it is overwritten. Every write lowers the weight, and every other step lowers the rank of
  a thread's program point.
\<close>

subsection \<open>Sums over the three threads\<close>

lemma three_threads:
  assumes "t < (3 :: nat)"
  obtains u v where "u < 3" "v < 3" "u \<noteq> t" "v \<noteq> t" "u \<noteq> v"
    "\<And>f :: nat \<Rightarrow> nat. (\<Sum>x<3. f x) = f t + f u + f v"
proof -
  have s: "{..<3} = {0, 1, 2 :: nat}" by auto
  from assms have "t = 0 \<or> t = 1 \<or> t = 2" unfolding three_cases .
  then show ?thesis
  proof (elim disjE)
    assume "t = 0" then show ?thesis using that [of 1 2] by (simp add: s)
  next
    assume "t = 1" then show ?thesis using that [of 0 2] by (simp add: s)
  next
    assume "t = 2" then show ?thesis using that [of 0 1] by (simp add: s)
  qed
qed

lemma sum_upd:
  fixes f f' :: "nat \<Rightarrow> nat"
  assumes "t < 3" "\<And>u. u \<noteq> t \<Longrightarrow> f' u = f u"
  shows "(\<Sum>x<3. f' x) + f t = (\<Sum>x<3. f x) + f' t"
proof -
  obtain u v where "u \<noteq> t" "v \<noteq> t" "\<And>f :: nat \<Rightarrow> nat. (\<Sum>x<3. f x) = f t + f u + f v"
    using three_threads [OF assms(1)] by metis
  then show ?thesis using assms(2) by simp
qed

subsection \<open>The measure\<close>

definition weight :: "nat \<Rightarrow> nat" where
  "weight v = (if v < 15 then 3 ^ (15 - v) else 1)"

lemma weight_pos: "1 \<le> weight v"
  by (simp add: weight_def)

lemma weight_step: "h < 15 \<Longrightarrow> weight h = 3 * weight (Suc h)"
  by (cases "h = 14") (auto simp: weight_def Suc_diff_Suc power_Suc [symmetric] simp del: power_Suc)

text \<open>The counter, which counts as zero before the parent has reset it.\<close>

definition cval :: "app \<Rightarrow> nat" where
  "cval s = (if at_point (thr s 0) = Reset then 0 else unat (global_counter s))"

text \<open>The value a thread writes from: the one it holds, or what it would read now.\<close>

definition source :: "app \<Rightarrow> nat \<Rightarrow> nat" where
  "source s t = (if at_point (thr s t) = Write then unat (held (thr s t)) else cval s)"

definition in_increment :: "app \<Rightarrow> nat \<Rightarrow> nat" where
  "in_increment s t = (if at_point (thr s t) = Read \<or> at_point (thr s t) = Write then 1 else 0)"

definition load :: "app \<Rightarrow> nat" where
  "load s = 5 * (\<Sum>t<3. weight (source s t)) + (if cval s < 15 then 4 else \<Sum>t<3. in_increment s t)"

fun rank :: "point \<Rightarrow> nat" where
  "rank Reset = 14"
| "rank Set_char = 13"
| "rank (Exec_child i) = 13 - i"
| "rank Not_started = 9"
| "rank Start = 8"
| "rank Print = 6"
| "rank Sleep = 5"
| "rank Check = 4"
| "rank Read = 3"
| "rank Write = 2"
| "rank Done = 0"

definition ranks :: "app \<Rightarrow> nat" where
  "ranks s = (\<Sum>t<3. rank (at_point (thr s t)))"

subsection \<open>Steps without a write keep the load and lower a rank\<close>

lemma load_move:
  assumes "t < 3" "\<And>u. u \<noteq> t \<Longrightarrow> thr s' u = thr s u" "cval s' = cval s"
    and "source s' t = source s t" "cval s < 15 \<or> in_increment s' t = in_increment s t"
  shows "load s' = load s"
proof -
  have "source s' u = source s u" for u using assms(2,3,4) by (cases "u = t") (auto simp: source_def)
  moreover have "in_increment s' u = in_increment s u" if "\<not> cval s < 15" for u
    using that assms(2,5) by (cases "u = t") (auto simp: in_increment_def)
  ultimately show ?thesis using assms(3) by (simp add: load_def)
qed

lemma ranks_move:
  assumes "t < 3" "\<And>u. u \<noteq> t \<Longrightarrow> thr s' u = thr s u"
    and "rank (at_point (thr s' t)) < rank (at_point (thr s t))"
  shows "ranks s' < ranks s"
  using sum_upd [of t "\<lambda>x. rank (at_point (thr s' x))" "\<lambda>x. rank (at_point (thr s x))"] assms
  by (simp add: ranks_def)

subsection \<open>A write lowers the load\<close>

lemma load_arith: "a + 1 \<le> b \<Longrightarrow> x \<le> 4 \<Longrightarrow> 5 * a + x < 5 * b + (y :: nat)"
  by linarith

lemma load_write:
  assumes t: "t < 3" "at_point (thr s t) = Write" and ph: "phase_inv s"
    and nowrap: "unat (held (thr s t)) + 1 < 4294967296"
    and s': "s' = goto t Print (s\<lparr>global_counter := held (thr s t) + 1\<rparr>)"
  shows "load s' < load s"
proof -
  let ?h = "unat (held (thr s t))" and ?c = "cval s"
  obtain u v where uv: "u \<noteq> t" "v \<noteq> t" and sum: "\<And>f :: nat \<Rightarrow> nat. (\<Sum>x<3. f x) = f t + f u + f v"
    using three_threads [OF t(1)] by metis
  have nr: "at_point (thr s 0) \<noteq> Reset"
    using t ph unfolding three_cases by (elim disjE) (auto simp: phase_inv_def)
  have h': "unat (held (thr s t) + 1) = Suc ?h" using nowrap by (simp add: unat_word_ariths)
  have c': "cval s' = Suc ?h" using nr h' by (simp add: cval_def s' goto_def)
  have src: "source s' t = Suc ?h" "source s t = ?h"
    using t c' by (simp_all add: source_def s' goto_def)
  have oth: "source s' x = (if at_point (thr s x) = Write then source s x else Suc ?h)" 
    "at_point (thr s x) \<noteq> Write \<Longrightarrow> source s x = ?c" if "x \<noteq> t" for x
    using that c' by (auto simp: source_def s' goto_def)
  have inc: "in_increment s' t = 0" "in_increment s t = 1" "in_increment s' u = in_increment s u"
      "in_increment s' v = in_increment s v" "in_increment s u \<le> 1" "in_increment s v \<le> 1"
    using t uv by (auto simp: in_increment_def s' goto_def)
  note pos = weight_pos [of ?c] weight_pos [of "Suc ?h"]
  show ?thesis
  proof (cases "?h < 15")
    case True
    note w = weight_step [OF True]
    have "weight (source s' t) + weight (source s' u) + weight (source s' v) + 1 \<le>
        weight (source s t) + weight (source s u) + weight (source s v)"
      unfolding src w using oth [OF uv(1)] oth [OF uv(2)] pos
      by (cases "at_point (thr s u) = Write"; cases "at_point (thr s v) = Write") simp_all
    moreover have "(if cval s' < 15 then 4 else \<Sum>t<3. in_increment s' t) \<le> 4"
      unfolding sum using inc by simp
    ultimately show ?thesis unfolding load_def sum by (rule load_arith)
  next
    case False
    then have w: "weight ?h = 1" "weight (Suc ?h) = 1" by (simp_all add: weight_def)
    have "weight (source s' t) + weight (source s' u) + weight (source s' v) \<le>
        weight (source s t) + weight (source s u) + weight (source s v)"
      unfolding src w using oth [OF uv(1)] oth [OF uv(2)] pos w
      by (cases "at_point (thr s u) = Write"; cases "at_point (thr s v) = Write") simp_all
    moreover have "\<not> cval s' < 15" using False c' by simp
    ultimately show ?thesis using inc unfolding load_def sum by (cases "?c < 15") simp_all
  qed
qed

subsection \<open>Every step\<close>

lemma ranks_write:
  assumes "t < 3" "at_point (thr s t) = Write" "\<And>u. u \<noteq> t \<Longrightarrow> thr s' u = thr s u" "at_point (thr s' t) = Print"
  shows "ranks s' = ranks s + 4"
  using sum_upd [of t "\<lambda>x. rank (at_point (thr s' x))" "\<lambda>x. rank (at_point (thr s x))"] assms
  by (simp add: ranks_def)

text \<open>What a step does to the two measures, if the counter does not wrap.\<close>

definition lowers :: "app \<Rightarrow> app \<Rightarrow> bool" where
  "lowers s s' \<longleftrightarrow> (load s' = load s \<and> ranks s' < ranks s \<and> writes s' = writes s) \<or>
     (load s' < load s \<and> ranks s' = ranks s + 4 \<and> writes s' = writes s + 1)"

lemma lowers_move:
  assumes "t < 3" "\<And>u. u \<noteq> t \<Longrightarrow> thr s' u = thr s u" "cval s' = cval s"
    and "source s' t = source s t" "cval s < 15 \<or> in_increment s' t = in_increment s t"
    and "rank (at_point (thr s' t)) < rank (at_point (thr s t))" "writes s' = writes s"
  shows "lowers s s'"
  using load_move [OF assms(1-5)] ranks_move [OF assms(1,2,6)] assms(7) by (simp add: lowers_def)

lemma not_reset: "phase_inv s \<Longrightarrow> t < 3 \<Longrightarrow> at_point (thr s t) \<notin> {Reset, Not_started} \<Longrightarrow> at_point (thr s 0) \<noteq> Reset"
  unfolding three_cases by (elim disjE) (auto simp: phase_inv_def)

lemma step_lowers:
  assumes "app_step s s'" "phase_inv s" "\<forall>t < 3. at_point (thr s t) = Write \<longrightarrow> unat (held (thr s t)) + 1 < 4294967296"
  shows "lowers s s'"
  using assms
proof (induction rule: app_step.induct)
  case (do_reset s)
  then show ?case
    by (intro lowers_move [of 0] writes_same [of 0]) (auto simp: goto_def cval_def source_def in_increment_def)
next
  case (do_set_char s)
  then show ?case
    by (intro lowers_move [of 0] writes_same [of 0]) (auto simp: goto_def cval_def source_def in_increment_def)
next
  case (exec_works s i)
  let ?s1 = "s\<lparr>thr := (thr s)(i := \<lparr>at_point = Start, ch = 0, local_counter = 0, held = 0\<rparr>)\<rparr>"
  have i: "i < 3" "i \<noteq> 0" "at_point (thr s i) = Not_started"
    using exec_works by (auto simp: phase_inv_def)
  let ?s2 = "goto 0 (if i = 1 then Exec_child 2 else Check) ?s1"
  have "load ?s1 = load s"
    by (rule load_move [of i]) (use i in \<open>auto simp: cval_def source_def in_increment_def\<close>)
  moreover have "load ?s2 = load ?s1"
    by (rule load_move [of 0])
      (use exec_works i in \<open>auto simp: goto_def cval_def source_def in_increment_def\<close>)
  moreover have "ranks ?s1 < ranks s" by (rule ranks_move [of i]) (use i in auto)
  moreover have "ranks ?s2 < ranks ?s1"
    by (rule ranks_move [of 0]) (use exec_works i in \<open>auto simp: goto_def\<close>)
  moreover have "writes ?s1 = writes s" by (rule writes_same [of i]) (use i in auto)
  moreover have "writes ?s2 = writes ?s1"
    by (rule writes_same [of 0]) (use exec_works i in \<open>auto simp: goto_def\<close>)
  ultimately show ?case by (simp add: lowers_def)
next
  case (exec_fails s i)
  then show ?case
    by (intro lowers_move [of 0] writes_same [of 0]) (auto simp: goto_def cval_def source_def in_increment_def)
next
  case (start t s)
  then show ?case using not_reset [of s t]
    by (intro lowers_move [of t] writes_same [of t]) (auto simp: goto_def cval_def source_def in_increment_def)
next
  case (check_more t s)
  have "cval s < 15" using check_more by (auto simp: cval_def LOOP_LENGTH_def word_less_nat_alt)
  then show ?case using check_more not_reset [of s t]
    by (intro lowers_move [of t] writes_same [of t]) (auto simp: goto_def cval_def source_def)
next
  case (check_done t s)
  then show ?case using not_reset [of s t]
    by (intro lowers_move [of t] writes_same [of t]) (auto simp: goto_def cval_def source_def in_increment_def)
next
  case (do_read t s)
  then show ?case using not_reset [of s t]
    by (intro lowers_move [of t] writes_same [of t]) (auto simp: goto_def cval_def source_def in_increment_def)
next
  case (do_write t s)
  let ?s' = "goto t Print (s\<lparr>global_counter := held (thr s t) + 1\<rparr>)"
  have "load ?s' < load s" using do_write by (intro load_write [of t]) auto
  moreover have "ranks ?s' = ranks s + 4" using do_write by (intro ranks_write [of t]) (auto simp: goto_def)
  moreover have "writes ?s' = writes s + 1"
    using pending_upd [of t ?s' s] do_write by (simp add: writes_def goto_def)
  ultimately show ?case by (simp add: lowers_def)
next
  case (do_print t s)
  let ?s' = "goto t Sleep (s\<lparr>lines_out := lines_out s @
       [(ch (thr s t), global_counter s, id_char t, local_counter (thr s t))]\<rparr>)"
  have "writes ?s' = writes s"
    using pending_upd [of t ?s' s] do_print by (simp add: writes_def goto_def)
  then show ?case using do_print not_reset [of s t]
    by (intro lowers_move [of t]) (auto simp: goto_def cval_def source_def in_increment_def)
next
  case (do_sleep t s)
  then show ?case using not_reset [of s t]
    by (intro lowers_move [of t] writes_same [of t]) (auto simp: goto_def cval_def source_def in_increment_def)
qed

subsection \<open>Runs\<close>

definition max_load :: nat where "max_load = 215233609"

definition max_steps :: nat where "max_steps = 5 * max_load + 32"

lemma load_init: "load (app_init k g gc) = max_load" "ranks (app_init k g gc) = 32"
proof -
  have s: "{..<3} = {0, 1, 2 :: nat}" by auto
  show "load (app_init k g gc) = max_load" "ranks (app_init k g gc) = 32"
    by (simp_all add: load_def ranks_def s app_init_def source_def cval_def in_increment_def weight_def max_load_def)
qed

lemma run_measure:
  assumes "(app_step ^^ n) (app_init k g gc) s"
  shows "app_inv s \<and> writes s + load s \<le> max_load \<and> n + 5 * load s + ranks s \<le> max_steps"
  using assms
proof (induction n arbitrary: s)
  case 0
  then have s: "s = app_init k g gc" by simp
  have "writes (app_init k g gc) = 0" by (simp add: writes_def pending_def app_init_def)
  then show ?case
    using app_reach_inv [OF app_start, of k g gc] unfolding s by (simp add: load_init max_steps_def)
next
  case (Suc n)
  from Suc.prems obtain s0 where r: "(app_step ^^ n) (app_init k g gc) s0" "app_step s0 s" by auto
  note IH = Suc.IH [OF r(1)]
  then have inv: "phase_inv s0" "count_inv s0" by (simp_all add: app_inv_def)
  have "unat (held (thr s0 t)) + 1 < 4294967296" if "t < 3" "at_point (thr s0 t) = Write" for t
  proof -
    have "unat (held (thr s0 t)) \<le> writes s0" using inv(2) that by (simp add: count_inv_def)
    also have "writes s0 \<le> max_load" using IH by simp
    finally show ?thesis by (simp add: max_load_def)
  qed
  then have low: "lowers s0 s" using step_lowers [OF r(2) inv(1)] by simp
  have "app_inv s"
    using phase_step [OF r(2) inv(1)] count_step [OF r(2) inv] finished_step [OF r(2)] by (simp add: app_inv_def)
  then show ?case using low IH unfolding lowers_def by auto
qed

subsection \<open>No deadlock\<close>

text \<open>The parent is the only thread that resets the counter and creates children.\<close>

definition role_inv :: "app \<Rightarrow> bool" where
  "role_inv s \<longleftrightarrow> (\<forall>t < 3. (case at_point (thr s t) of Reset \<Rightarrow> t = 0 | Set_char \<Rightarrow> t = 0
     | Exec_child i \<Rightarrow> t = 0 \<and> (i = 1 \<or> i = 2) | _ \<Rightarrow> True))"

lemma role_goto:
  assumes "role_inv s" "\<And>u. u \<noteq> t \<Longrightarrow> at_point (thr s1 u) \<in> {at_point (thr s u), Start}"
    and "(case q of Reset \<Rightarrow> t = 0 | Set_char \<Rightarrow> t = 0 | Exec_child i \<Rightarrow> t = 0 \<and> (i = 1 \<or> i = 2) | _ \<Rightarrow> True)"
  shows "role_inv (goto t q s1)"
  unfolding role_inv_def
proof (intro allI impI)
  fix u assume u: "u < (3 :: nat)"
  have "at_point (thr (goto t q s1) u) = (if u = t then q else at_point (thr s1 u))" by (simp add: goto_def)
  then show "(case at_point (thr (goto t q s1) u) of Reset \<Rightarrow> u = 0 | Set_char \<Rightarrow> u = 0
     | Exec_child i \<Rightarrow> u = 0 \<and> (i = 1 \<or> i = 2) | _ \<Rightarrow> True)"
    using u assms(1,3) assms(2) [of u] by (auto simp: role_inv_def split: if_splits)
qed

lemma role_step: "app_step s s' \<Longrightarrow> role_inv s \<Longrightarrow> role_inv s'"
  by (induction rule: app_step.induct) (erule role_goto; simp)+

lemma run_role: "(app_step ^^ n) (app_init k g gc) s \<Longrightarrow> role_inv s"
proof (induction n arbitrary: s)
  case 0
  then have "s = app_init k g gc" by simp
  then show ?case by (simp add: role_inv_def app_init_def)
next
  case (Suc n)
  then show ?case using role_step by auto
qed

lemma thread_moves:
  assumes "role_inv s" "t < 3" "at_point (thr s t) \<noteq> Done" "at_point (thr s t) \<noteq> Not_started"
  shows "\<exists>s'. app_step s s'"
proof (cases "at_point (thr s t)")
  case Check
  then show ?thesis using check_more [OF assms(2)] check_done [OF assms(2)] by blast
next
  case (Exec_child i)
  then show ?thesis using assms(1,2) exec_fails [of s i] by (auto simp: role_inv_def dest!: spec [of _ t])
qed (use assms(1,2) do_reset do_set_char start do_read do_write do_print do_sleep assms(3,4) in
    \<open>auto simp: role_inv_def dest!: spec [of _ t] split: point.splits; blast\<close>)+

lemma finished_stuck:
  assumes "finished s"
  shows "\<not> app_step s s'"
proof
  assume "app_step s s'"
  moreover have "at_point (thr s t) = Done \<or> at_point (thr s t) = Not_started" if "t < 3" for t
    using assms that by (simp add: finished_def)
  ultimately show False
    by (cases rule: app_step.cases) (metis point.distinct(1,3,5,7,9,11,13,15,17,19) point.distinct zero_less_numeral)+
qed

end
