(* ===== verification/Printing_Threads.thy ===== *)
theory Printing_Threads imports Thread_Progress Usr_Micro begin

text \<open>
  The counting application with its output: the threads of \<^verbatim>\<open>user/user_thread_functions.c\<close> print with
  \<open>usr_kprintf\<close>, whose position in the format is one global variable for all of them. \<open>app_step\<close> has
  the accesses of the threads to their variables and the calls of \<open>usr_kprintf\<close>; here a call takes
  the steps of \<open>micro_step\<close>, and the scheduler may switch between any two of them, to a thread that
  moves the position of the one it interrupts.

  A run is calm if no thread calls \<open>usr_kprintf\<close> while another is inside. Calm runs print their lines
  whole; every run of \<open>app_step\<close> is the run of the calls of a calm one. Without this a thread can be
  led behind the end of the format.

  A step here is a whole statement or condition. The scheduler can also switch within one (\<open>i++\<close> is a
  read and a write). In a calm run no other thread touches what the statement works on, so this
  makes no difference; and the run that leads a thread behind the format needs no such switch.
\<close>

subsection \<open>The steps\<close>

record printing =
  base :: app
  index :: nat
  inside :: "nat \<Rightarrow> (micro \<times> u32 list) option"
  written :: "u8 list"

text \<open>\<^verbatim>\<open>"%c:%x (%c:%i)\n"\<close>\<close>

definition line_format :: "u8 list" where
  "line_format = [0x25, 0x63, 0x3A, 0x25, 0x78, 0x20, 0x28, 0x25, 0x63, 0x3A, 0x25, 0x69, 0x29, 0x0A]"

fun line_args :: "u8 \<times> u32 \<times> u8 \<times> u32 \<Rightarrow> u32 list" where
  "line_args (c, g, i, l) = [ucast c, g, ucast i, l]"

text \<open>
  An access outside of \<open>usr_kprintf\<close>, by a thread that is not inside; the call, with the arguments as
  they are then; a statement of \<open>usr_kprintf\<close>; its return. A thread inside is already at its next
  point, \<open>Sleep\<close>.
\<close>

inductive fine_step :: "printing \<Rightarrow> printing \<Rightarrow> bool" where
  access: "app_step (base s) b \<Longrightarrow> lines_out b = lines_out (base s) \<Longrightarrow>
     \<forall>t. inside s t \<noteq> None \<longrightarrow> thr b t = thr (base s) t \<Longrightarrow> fine_step s (s\<lparr>base := b\<rparr>)"
| call_print: "t < 3 \<Longrightarrow> at_point (thr (base s) t) = Print \<Longrightarrow> inside s t = None \<Longrightarrow>
     l = (ch (thr (base s) t), global_counter (base s), id_char t, local_counter (thr (base s) t)) \<Longrightarrow>
     fine_step s (s\<lparr>base := goto t Sleep ((base s)\<lparr>lines_out := lines_out (base s) @ [l]\<rparr>),
       inside := (inside s)(t := Some (K_begin, line_args l))\<rparr>)"
| print_put: "inside s t = Some (p, va) \<Longrightarrow> micro_step line_format p (index s) va = Some (p', i, va', cs) \<Longrightarrow>
     fine_step s (s\<lparr>index := i, inside := (inside s)(t := Some (p', va')), written := written s @ cs\<rparr>)"
| return_print: "inside s t = Some (K_leave, va) \<Longrightarrow> fine_step s (s\<lparr>inside := (inside s)(t := None)\<rparr>)"

inductive_cases fine_stepE: "fine_step s s'"

definition print_init :: "u8 \<Rightarrow> u32 \<Rightarrow> u8 \<Rightarrow> nat \<Rightarrow> printing" where
  "print_init k g gc i = \<lparr>base = app_init k g gc, index = i, inside = (\<lambda>_. None), written = []\<rparr>"

definition all_done :: "printing \<Rightarrow> bool" where
  "all_done s \<longleftrightarrow> finished (base s) \<and> (\<forall>t. inside s t = None)"

text \<open>A thread whose next statement is undefined: it reads behind the format.\<close>

definition overruns :: "printing \<Rightarrow> nat \<Rightarrow> bool" where
  "overruns s t \<longleftrightarrow> (\<exists>p va. inside s t = Some (p, va) \<and> p \<noteq> K_leave \<and> micro_step line_format p (index s) va = None)"

definition one_inside :: "printing \<Rightarrow> bool" where
  "one_inside s \<longleftrightarrow> (\<forall>t u. inside s t \<noteq> None \<longrightarrow> inside s u \<noteq> None \<longrightarrow> t = u)"

definition calm_step :: "printing \<Rightarrow> printing \<Rightarrow> bool" where
  "calm_step s s' \<longleftrightarrow> fine_step s s' \<and> one_inside s'"

subsection \<open>The calls\<close>

text \<open>Whatever the schedule, the calls and the accesses are a run of \<open>app_step\<close>.\<close>

lemma fine_base: "fine_step s s' \<Longrightarrow> base s' = base s \<or> app_step (base s) (base s')"
  by (erule fine_stepE) (auto intro: app_step.do_print)

lemma local_le_steps:
  "(app_step ^^ m) (app_init k g gc) b \<Longrightarrow> unat (local_counter (thr b t)) \<le> m"
proof (induction m arbitrary: b)
  case 0
  then have "b = app_init k g gc" by simp
  then show ?case by (simp add: app_init_def)
next
  case (Suc m)
  then obtain a where r: "(app_step ^^ m) (app_init k g gc) a" "app_step a b" by auto
  have "unat (local_counter (thr b t)) \<le> unat (local_counter (thr a t)) + 1"
    using r(2) unat_Suc_le [of "local_counter (thr a t)"] by cases (auto simp: goto_def)
  then show ?case using Suc.IH [OF r(1)] by linarith
qed

subsection \<open>A line\<close>

fun line_text :: "u8 \<times> u32 \<times> u8 \<times> u32 \<Rightarrow> u8 list" where
  "line_text (c, g, i, l) = [c, 0x3A] @ hexadecimal (unat g) @ [0x20, 0x28, i, 0x3A] @ decimal (unat l) @ [0x29, 0x0A]"

lemma ucast_u8_u32: "ucast (ucast c :: u32) = (c :: u8)"
  by (rule bit_word_eqI) (auto simp: bit_ucast_iff)

lemma line_formatted:
  assumes "unat l < 2147483648"
  shows "formatted line_format (line_args (c, g, i, l)) = Some (line_text (c, g, i, l))"
proof -
  have u: "uint l = int (unat l)" by simp
  have e: "(2 :: int) ^ 31 = 2147483648" by simp
  have "signed_take_bit 31 (uint l) = uint l"
    unfolding u by (rule signed_take_bit_int_eq_self; unfold e; use assms in linarith)
  then have "sint l = int (unat l)" by (simp add: sint_uint)
  moreover have "l \<noteq> 0x80000000"
  proof
    assume "l = 0x80000000"
    then have "unat l = 2147483648" by simp
    with assms show False by simp
  qed
  ultimately have "conv_text 0x69 l = Some (decimal (unat l))" by (simp add: conv_text_def)
  then show ?thesis
    by (simp add: line_format_def formatted_simps_Cons conv_rest_Cons takes_arg_def)
      (simp add: conv_text_def ucast_u8_u32)
qed

lemma line_text_length: "length (line_text (c, g, i, l)) \<le> 26"
proof -
  have "unat g < 4294967296" "unat l < 4294967296" using unsigned_less [of g] unsigned_less [of l] by simp_all
  then have "length (digits 16 (unat g)) \<le> 8" "length (digits 10 (unat l)) \<le> 10"
    using digits_length [of 16 "unat g" 8] digits_length [of 10 "unat l" 10] by simp_all
  then show ?thesis by (simp add: hexadecimal_def decimal_def)
qed

lemma line_format_zero: "0 \<notin> set line_format" "length line_format = 14"
  by (simp_all add: line_format_def)

subsection \<open>Calm runs\<close>

definition lines_text :: "printing \<Rightarrow> u8 list" where
  "lines_text s = concat (map line_text (lines_out (base s)))"

text \<open>
  After \<open>n\<close> calm steps: \<open>m\<close> of them were steps of \<open>app_step\<close>, and each call has at most 200. What is
  written is all lines called for, but for the rest of the line a thread is just printing.
\<close>

definition calm_inv :: "printing \<Rightarrow> nat \<Rightarrow> nat \<Rightarrow> printing \<Rightarrow> bool" where
  "calm_inv s0 n m s \<longleftrightarrow> (app_step ^^ m) (base s0) (base s) \<and>
     (inside s = (\<lambda>_. None) \<and> written s = lines_text s \<and> n \<le> 200 * m \<or>
      (\<exists>t p va tx. inside s = (\<lambda>_. None)(t := Some (p, va)) \<and> rest line_format p (index s) va = Some tx \<and>
         written s @ tx = lines_text s \<and> n + 1 + steps_left line_format p (index s) (length tx) \<le> 200 * m))"

lemma one_inside_single:
  "one_inside s \<Longrightarrow> inside s t = Some x \<Longrightarrow> inside s = (\<lambda>_. None)(t := Some x)"
  by (rule ext) (metis fun_upd_apply not_None_eq one_inside_def option.distinct(1))

lemma calm_invE:
  assumes "calm_inv s0 n m s"
  obtains (outside) "inside s = (\<lambda>_. None)" "written s = lines_text s" "n \<le> 200 * m"
  | (within) t p va tx where "inside s = (\<lambda>_. None)(t := Some (p, va))" "rest line_format p (index s) va = Some tx"
      "written s @ tx = lines_text s" "n + 1 + steps_left line_format p (index s) (length tx) \<le> 200 * m"
  using assms unfolding calm_inv_def by blast

lemma calm_inv_run: "calm_inv s0 n m s \<Longrightarrow> (app_step ^^ m) (base s0) (base s)"
  by (simp add: calm_inv_def)

lemma calm_inv_within:
  assumes "(app_step ^^ m) (base s0) (base s)" "inside s = (\<lambda>_. None)(t := Some (p, va))"
    and "rest line_format p (index s) va = Some tx" "written s @ tx = lines_text s"
    and "n + 1 + steps_left line_format p (index s) (length tx) \<le> 200 * m"
  shows "calm_inv s0 n m s"
  using assms unfolding calm_inv_def by blast

lemma single_inside: "inside s = (\<lambda>_. None)(t := Some x) \<Longrightarrow> inside s u = Some y \<Longrightarrow> u = t \<and> y = x"
  by (simp split: if_splits)

lemma calm_inv_inside:
  assumes "calm_inv s0 n m s" "inside s t = Some (p, va)"
  obtains tx where "inside s = (\<lambda>_. None)(t := Some (p, va))" "rest line_format p (index s) va = Some tx"
    "written s @ tx = lines_text s" "n + 1 + steps_left line_format p (index s) (length tx) \<le> 200 * m"
  using assms(1)
proof (cases rule: calm_invE)
  case (within u q vb tx)
  have "t = u" "p = q" "va = vb" using single_inside [OF within(1) assms(2)] by simp_all
  with within that show ?thesis by blast
qed (use assms(2) in simp)

lemma base_init: "base (print_init k g gc i) = app_init k g gc"
  by (simp add: print_init_def)

lemma calm_inv_access:
  assumes "calm_inv s0 n m s" "app_step (base s) b" "lines_out b = lines_out (base s)"
  shows "calm_inv s0 (Suc n) (Suc m) (s\<lparr>base := b\<rparr>)"
  using assms(1)
proof (cases rule: calm_invE)
  case outside
  then show ?thesis using calm_inv_run [OF assms(1)] assms(2,3) by (auto simp: calm_inv_def lines_text_def)
next
  case (within t p va tx)
  then show ?thesis using calm_inv_run [OF assms(1)] assms(2,3)
    by (intro calm_inv_within [of "Suc m" _ _ t p va tx]) (auto simp: lines_text_def)
qed

lemma calm_inv_call:
  assumes inv: "calm_inv (print_init k g gc i) n m s" "inside s = (\<lambda>_. None)" and t: "t < 3" "at_point (thr (base s) t) = Print"
    and l: "l = (ch (thr (base s) t), global_counter (base s), id_char t, local_counter (thr (base s) t))"
    and s': "s' = s\<lparr>base := goto t Sleep ((base s)\<lparr>lines_out := lines_out (base s) @ [l]\<rparr>),
       inside := (inside s)(t := Some (K_begin, line_args l))\<rparr>"
  shows "calm_inv (print_init k g gc i) (Suc n) (Suc m) s'"
proof -
  have r: "(app_step ^^ m) (app_init k g gc) (base s)" and w: "written s = lines_text s" "n \<le> 200 * m"
    using calm_inv_run [OF inv(1)] inv by (auto simp: print_init_def elim: calm_invE)
  have "app_step (base s) (base s')" using app_step.do_print [OF t] by (simp add: s' l)
  then have r': "(app_step ^^ Suc m) (app_init k g gc) (base s')" using r by auto
  have "unat (local_counter (thr (base s) t)) < 2147483648"
    using local_le_steps [OF r, of t] run_measure [OF r] by (simp add: max_steps_def max_load_def)
  then have f: "rest line_format K_begin (index s') (line_args l) = Some (line_text l)"
    using line_formatted by (simp add: l)
  have "length (line_text l) \<le> 26" unfolding l by (rule line_text_length)
  then have "Suc n + 1 + steps_left line_format K_begin (index s') (length (line_text l)) \<le> 200 * Suc m"
    using w(2) by (simp add: line_format_zero(2))
  moreover have "inside s' = (\<lambda>_. None)(t := Some (K_begin, line_args l))"
    using inv(2) by (auto simp: s' fun_eq_iff)
  moreover have "written s' @ line_text l = lines_text s'"
    using w(1) by (simp add: s' lines_text_def goto_def)
  ultimately show ?thesis using calm_inv_within [of "Suc m" "print_init k g gc i" s' t K_begin "line_args l" "line_text l" "Suc n"] r' f
    unfolding base_init by blast
qed

lemma calm_inv_step:
  assumes "calm_inv (print_init k g gc i) n m s" "calm_step s s'"
  shows "\<exists>m'. calm_inv (print_init k g gc i) (Suc n) m' s'"
proof -
  let ?s0 = "print_init k g gc i"
  from assms(2) have st: "fine_step s s'" and one: "one_inside s'" by (simp_all add: calm_step_def)
  from st show ?thesis
  proof (cases rule: fine_step.cases)
    case (access b)
    then show ?thesis using calm_inv_access [OF assms(1)] by blast
  next
    case (call_print t l)
    have "inside s u = None" for u
    proof (cases "u = t")
      case False
      then have "inside s' u = inside s u" "inside s' t \<noteq> None" using call_print(1) by simp_all
      then show ?thesis using one False unfolding one_inside_def by metis
    qed (use call_print(4) in simp)
    then have "inside s = (\<lambda>_. None)" by (simp add: fun_eq_iff)
    then show ?thesis using calm_inv_call [OF assms(1) _ call_print(2,3,5,1)] by blast
  next
    case (print_put t p va p' j va' cs)
    obtain tx where i: "inside s = (\<lambda>_. None)(t := Some (p, va))"
        "rest line_format p (index s) va = Some tx" "written s @ tx = lines_text s"
        "n + 1 + steps_left line_format p (index s) (length tx) \<le> 200 * m"
      using calm_inv_inside [OF assms(1) print_put(2)] .
    have "p \<noteq> K_leave" using print_put(3) by auto
    from micro_progress [OF line_format_zero(1) i(2) this] print_put(3) obtain tx' where tx:
        "rest line_format p' j va' = Some tx'" "tx = cs @ tx'"
        "steps_left line_format p' j (length tx') < steps_left line_format p (index s) (length tx)" by auto
    have "calm_inv ?s0 (Suc n) m s'"
      by (rule calm_inv_within [of _ _ _ t p' va' tx'])
        (use calm_inv_run [OF assms(1)] i tx in \<open>simp_all add: print_put(1) lines_text_def fun_eq_iff\<close>)
    then show ?thesis ..
  next
    case (return_print t va)
    obtain tx where i0: "inside s = (\<lambda>_. None)(t := Some (K_leave, va))" "rest line_format K_leave (index s) va = Some tx"
        "written s @ tx = lines_text s" "n + 1 + steps_left line_format K_leave (index s) (length tx) \<le> 200 * m"
      using calm_inv_inside [OF assms(1) return_print(2)] .
    then have i: "written s = lines_text s" "n + 1 \<le> 200 * m" using rest_leave [OF i0(2)] by simp_all
    have "inside s' = (\<lambda>_. None)" using i0(1) by (simp add: return_print(1) fun_eq_iff)
    then have "calm_inv ?s0 (Suc n) m s'"
      using calm_inv_run [OF assms(1)] i unfolding calm_inv_def return_print(1) lines_text_def by simp
    then show ?thesis ..
  qed
qed

lemma calm_run_inv: "(calm_step ^^ n) (print_init k g gc i) s \<Longrightarrow> \<exists>m. calm_inv (print_init k g gc i) n m s"
proof (induction n arbitrary: s)
  case 0
  then have "s = print_init k g gc i" by simp
  then have "calm_inv (print_init k g gc i) 0 0 s"
    by (simp add: calm_inv_def print_init_def lines_text_def app_init_def)
  then show ?case ..
next
  case (Suc n)
  then obtain s1 where "(calm_step ^^ n) (print_init k g gc i) s1" "calm_step s1 s" by auto
  then show ?case using Suc.IH calm_inv_step by blast
qed

lemma calm_progress:
  assumes inv: "calm_inv (print_init k g gc i) n m s" and "\<not> all_done s"
  shows "\<exists>s'. calm_step s s'"
  using inv
proof (cases rule: calm_invE)
  case outside
  have r: "(app_step ^^ m) (app_init k g gc) (base s)" using calm_inv_run [OF inv] by (simp add: print_init_def)
  obtain t where t: "t < 3" "at_point (thr (base s) t) \<noteq> Done" "at_point (thr (base s) t) \<noteq> Not_started"
    using assms(2) outside by (auto simp: all_done_def finished_def)
  then obtain b where b: "app_step (base s) b" using thread_moves [OF run_role [OF r]] by blast
  have o: "one_inside (s\<lparr>base := b\<rparr>)" using outside by (simp add: one_inside_def)
  show ?thesis
  proof (cases "\<exists>u < 3. at_point (thr (base s) u) = Print")
    case p: True
    then obtain u where u: "u < 3" "at_point (thr (base s) u) = Print" by blast
    have "inside s u = None" using outside(1) by simp
    from call_print [OF u this refl] outside(1) show ?thesis
      unfolding calm_step_def by (intro exI conjI) (auto simp: one_inside_def split: if_splits)
  next
    case False
    with b have "lines_out b = lines_out (base s)" by cases (simp_all add: goto_def)
    then have "fine_step s (s\<lparr>base := b\<rparr>)" by (rule access [OF b]) (simp add: outside(1))
    then show ?thesis using o unfolding calm_step_def by blast
  qed
next
  case (within t p va tx)
  note i = within(1,2)
  have it: "inside s t = Some (p, va)" using i(1) by simp
  show ?thesis
  proof (cases "p = K_leave")
    case True
    then show ?thesis using return_print [of s t va] it i(1) unfolding calm_step_def one_inside_def
      by (intro exI [of _ "s\<lparr>inside := (inside s)(t := None)\<rparr>"]) auto
  next
    case False
    from micro_progress [OF line_format_zero(1) i(2) False] obtain p' j va' cs where
      "micro_step line_format p (index s) va = Some (p', j, va', cs)" by blast
    from print_put [OF it this] i(1) show ?thesis
      unfolding calm_step_def by (intro exI conjI) (auto simp: one_inside_def split: if_splits)
  qed
qed

lemma calm_no_overrun: "calm_inv s0 n m s \<Longrightarrow> \<not> overruns s t"
proof (erule calm_invE)
  fix u p va tx
  assume i: "inside s = (\<lambda>_. None)(u := Some (p, va))" "rest line_format p (index s) va = Some tx"
  then show ?thesis using micro_progress [OF line_format_zero(1) i(2)] by (auto simp: overruns_def split: if_splits)
qed (simp add: overruns_def)

lemma done_stuck: "all_done s \<Longrightarrow> \<not> fine_step s s'"
  unfolding all_done_def by (auto elim!: fine_stepE simp: finished_stuck finished_def)

subsection \<open>Calls that are not disturbed\<close>

text \<open>A thread inside can be run to the end of its call, whether another is inside or not.\<close>

definition own_step :: "printing \<Rightarrow> printing \<Rightarrow> bool" where
  "own_step s s' \<longleftrightarrow> fine_step s s' \<and> (one_inside s \<longrightarrow> one_inside s')"

lemma own_step_put:
  assumes "inside s t = Some (p, va)" "micro_step line_format p (index s) va = Some (p', i, va', cs)"
  shows "own_step s (s\<lparr>index := i, inside := (inside s)(t := Some (p', va')), written := written s @ cs\<rparr>)"
  using print_put [OF assms] assms(1) unfolding own_step_def one_inside_def by (auto split: if_splits)

lemma undisturbed_steps:
  assumes "undisturbed line_format p i va cs n" "inside s t = Some (p, va)" "index s = i"
  shows "\<exists>va'. own_step\<^sup>*\<^sup>* s (s\<lparr>index := n, inside := (inside s)(t := Some (K_leave, va')), written := written s @ cs\<rparr>)"
  using assms
proof (induction arbitrary: s rule: undisturbed.induct)
  case (undisturbed_leave i va)
  then have "s\<lparr>index := i, inside := (inside s)(t := Some (K_leave, va)), written := written s @ []\<rparr> = s"
    by (simp add: fun_upd_idem)
  then show ?case by (metis rtranclp.rtrancl_refl)
next
  case (undisturbed_step p i va p' i' va' cs' cs n)
  let ?s = "s\<lparr>index := i', inside := (inside s)(t := Some (p', va')), written := written s @ cs'\<rparr>"
  have "own_step s ?s" using own_step_put undisturbed_step.prems undisturbed_step.hyps(1) by blast
  moreover have "inside ?s t = Some (p', va')" "index ?s = i'" by simp_all
  from undisturbed_step.IH [OF this] obtain va1 where "own_step\<^sup>*\<^sup>* ?s (?s\<lparr>index := n, inside := (inside ?s)(t := Some (K_leave, va1)), written := written ?s @ cs\<rparr>)"
    by blast
  ultimately have "own_step\<^sup>*\<^sup>* s (?s\<lparr>index := n, inside := (inside ?s)(t := Some (K_leave, va1)), written := written ?s @ cs\<rparr>)"
    by (rule converse_rtranclp_into_rtranclp)
  moreover have "?s\<lparr>index := n, inside := (inside ?s)(t := Some (K_leave, va1)), written := written ?s @ cs\<rparr> =
      s\<lparr>index := n, inside := (inside s)(t := Some (K_leave, va1)), written := written s @ (cs' @ cs)\<rparr>" by simp
  ultimately show ?case by (intro exI [of _ va1]) (simp only:)
qed

lemma own_steps_fine: "own_step\<^sup>*\<^sup>* s s' \<Longrightarrow> fine_step\<^sup>*\<^sup>* s s'"
  by (erule rtranclp_mono [THEN predicate2D, rotated]) (auto simp: own_step_def)

lemma own_steps_calm:
  assumes "own_step\<^sup>*\<^sup>* s s'" "one_inside s"
  shows "calm_step\<^sup>*\<^sup>* s s'"
proof -
  have "calm_step\<^sup>*\<^sup>* s s' \<and> one_inside s'"
    using assms by (induction rule: rtranclp_induct) (auto simp: own_step_def calm_step_def intro: rtranclp.rtrancl_into_rtrancl)
  then show ?thesis ..
qed

text \<open>The text of a line is there for every call that a run of \<open>app_step\<close> makes.\<close>

lemma app_reach_run: "app_reach s0 s \<Longrightarrow> \<exists>m. (app_step ^^ m) s0 s"
proof (induction rule: app_reach.induct)
  case app_start
  show ?case by (rule exI [of _ 0]) simp
next
  case (app_more s s')
  then obtain m where "(app_step ^^ m) s0 s" by blast
  then have "(app_step ^^ Suc m) s0 s'" using app_more(2) by auto
  then show ?case by blast
qed

lemma reached_line:
  assumes "app_reach (app_init k g gc) b" "l = (ch (thr b t), global_counter b, id_char t, local_counter (thr b t))"
  shows "undisturbed line_format K_begin i (line_args l) (line_text l) 14"
proof -
  obtain m where r: "(app_step ^^ m) (app_init k g gc) b" using app_reach_run [OF assms(1)] by blast
  have "unat (local_counter (thr b t)) < 2147483648"
    using local_le_steps [OF r, of t] run_measure [OF r] by (simp add: max_steps_def max_load_def)
  then have "rest line_format K_begin i (line_args l) = Some (line_text l)" using line_formatted by (simp add: assms(2))
  from undisturbed_rest [OF line_format_zero(1) this] show ?thesis by (simp add: line_format_zero(2))
qed

text \<open>Every run of \<open>app_step\<close> is the run of the calls of a calm one.\<close>

lemma calm_realises:
  assumes "app_reach (app_init k g gc) b"
  shows "\<exists>s. calm_step\<^sup>*\<^sup>* (print_init k g gc i) s \<and> base s = b \<and> inside s = (\<lambda>_. None)"
  using assms
proof induction
  case app_start
  show ?case by (rule exI [of _ "print_init k g gc i"]) (simp add: print_init_def)
next
  case (app_more b b')
  then obtain s where s: "calm_step\<^sup>*\<^sup>* (print_init k g gc i) s" "base s = b" "inside s = (\<lambda>_. None)" by blast
  show ?case
  proof (cases "lines_out b' = lines_out b")
    case True
    have "fine_step s (s\<lparr>base := b'\<rparr>)" by (rule access) (use app_more(2) s True in simp_all)
    then have "calm_step s (s\<lparr>base := b'\<rparr>)" using s(3) by (simp add: calm_step_def one_inside_def)
    with s show ?thesis by (intro exI [of _ "s\<lparr>base := b'\<rparr>"]) auto
  next
    case False
    with app_more(2) obtain t l where t: "t < 3" "at_point (thr b t) = Print"
        "l = (ch (thr b t), global_counter b, id_char t, local_counter (thr b t))"
        "b' = goto t Sleep (b\<lparr>lines_out := lines_out b @ [l]\<rparr>)"
      by cases (auto simp: goto_def)
    let ?s1 = "s\<lparr>base := b', inside := (inside s)(t := Some (K_begin, line_args l))\<rparr>"
    have "fine_step s ?s1" using call_print [of t s l] t s by simp
    moreover have one: "one_inside ?s1" using s(3) by (auto simp: one_inside_def split: if_splits)
    ultimately have c1: "calm_step s ?s1" by (simp add: calm_step_def)
    obtain va where c2: "own_step\<^sup>*\<^sup>* ?s1 (?s1\<lparr>index := 14, inside := (inside ?s1)(t := Some (K_leave, va)), written := written ?s1 @ line_text l\<rparr>)"
      using undisturbed_steps [OF reached_line [OF app_more(1) t(3), of "index s"], of ?s1 t] by auto
    let ?s2 = "?s1\<lparr>index := 14, inside := (inside ?s1)(t := Some (K_leave, va)), written := written ?s1 @ line_text l\<rparr>"
    let ?s3 = "?s2\<lparr>inside := (inside ?s2)(t := None)\<rparr>"
    have "calm_step ?s2 ?s3"
      using return_print [of ?s2 t va] s(3) by (auto simp: calm_step_def one_inside_def)
    with own_steps_calm [OF c2 one] c1 s(1) have "calm_step\<^sup>*\<^sup>* (print_init k g gc i) ?s3"
      by (meson rtranclp.rtrancl_into_rtrancl rtranclp_trans)
    moreover have "inside ?s3 = (\<lambda>_. None)" "base ?s3 = b'" using s(3) by (simp_all add: fun_eq_iff)
    ultimately show ?thesis by blast
  qed
qed

subsection \<open>Calls that disturb each other\<close>

lemma begin_to_skip:
  assumes "inside s u = Some (K_begin, va)"
  shows "\<exists>s'. fine_step\<^sup>*\<^sup>* s s' \<and> inside s' = (inside s)(u := Some (K_skip, va)) \<and> base s' = base s"
proof -
  have step: "\<exists>s'. fine_step s s' \<and> inside s' = (inside s)(u := Some (p', va)) \<and> base s' = base s \<and> index s' = 0"
    if "inside s u = Some (p, va)" "micro_step line_format p (index s) va = Some (p', 0, va, [])" for s p p'
    using print_put [OF that]
    by (intro exI [of _ "s\<lparr>index := 0, inside := (inside s)(u := Some (p', va)), written := written s @ []\<rparr>"]) simp
  have c0: "char_at line_format 0 = Some 0x25" by (simp add: char_at_def line_format_def)
  obtain s1 where s1: "fine_step s s1" "inside s1 = (inside s)(u := Some (K_test, va))" "base s1 = base s" "index s1 = 0"
    using step [OF assms, of K_test] by auto
  obtain s2 where s2: "fine_step s1 s2" "inside s2 = (inside s)(u := Some (K_look, va))" "base s2 = base s" "index s2 = 0"
    using step [of s1 K_test K_look] s1 c0 by auto
  obtain s3 where s3: "fine_step s2 s3" "inside s3 = (inside s)(u := Some (K_skip, va))" "base s3 = base s"
    using step [of s2 K_look K_skip] s2 c0 by auto
  have "fine_step\<^sup>*\<^sup>* s s3" using s1(1) s2(1) s3(1) by (meson converse_rtranclp_into_rtranclp rtranclp.rtrancl_refl)
  then show ?thesis using s3 by blast
qed

lemma skip_overruns:
  assumes "inside s u = Some (K_skip, va)" "index s = 14"
  shows "\<exists>s'. fine_step s s' \<and> overruns s' u"
proof -
  let ?s = "s\<lparr>index := 15, inside := (inside s)(u := Some (K_switch, va)), written := written s @ []\<rparr>"
  have "fine_step s ?s" by (rule print_put [OF assms(1)]) (simp add: assms(2))
  moreover have "overruns ?s u" by (simp add: overruns_def char_at_def line_format_zero(2))
  ultimately show ?thesis by blast
qed

text \<open>Two threads at their calls can always get one of them behind the end of the format.\<close>

lemma two_calls_overrun:
  assumes "app_reach (app_init k g gc) (base s)" "inside s = (\<lambda>_. None)" "t < 3" "u < 3" "t \<noteq> u"
    and "at_point (thr (base s) t) = Print" "at_point (thr (base s) u) = Print"
  shows "\<exists>s'. fine_step\<^sup>*\<^sup>* s s' \<and> overruns s' u"
proof -
  define l where "l = (ch (thr (base s) u), global_counter (base s), id_char u, local_counter (thr (base s) u))"
  define b1 where "b1 = goto u Sleep ((base s)\<lparr>lines_out := lines_out (base s) @ [l]\<rparr>)"
  define s1 where "s1 = s\<lparr>base := b1, inside := (inside s)(u := Some (K_begin, line_args l))\<rparr>"
  have f1: "fine_step s s1" using call_print [OF assms(4,7) _ l_def] assms(2) by (simp add: b1_def s1_def)
  have r1: "app_reach (app_init k g gc) b1"
    using app_reach.app_more [OF assms(1) app_step.do_print [OF assms(4,7)]] by (simp add: b1_def l_def)
  obtain s2 where s2: "fine_step\<^sup>*\<^sup>* s1 s2" "inside s2 = (inside s1)(u := Some (K_skip, line_args l))" "base s2 = b1"
    using begin_to_skip [of s1 u "line_args l"] by (auto simp: s1_def)
  define m where "m = (ch (thr b1 t), global_counter b1, id_char t, local_counter (thr b1 t))"
  define s3 where "s3 = s2\<lparr>base := goto t Sleep (b1\<lparr>lines_out := lines_out b1 @ [m]\<rparr>),
     inside := (inside s2)(t := Some (K_begin, line_args m))\<rparr>"
  have "at_point (thr (base s2) t) = Print" using assms(5,6) s2(3) by (simp add: b1_def goto_def)
  moreover have "inside s2 t = None" using assms(2,5) s2(2) by (simp add: s1_def)
  ultimately have f3: "fine_step s2 s3" using call_print [OF assms(3), of s2 m] s2(3) by (simp add: m_def s3_def)
  have t3: "inside s3 t = Some (K_begin, line_args m)" "inside s3 u = Some (K_skip, line_args l)"
    using s2(2) assms(5) by (simp_all add: s3_def)
  obtain va where f4: "own_step\<^sup>*\<^sup>* s3 (s3\<lparr>index := 14, inside := (inside s3)(t := Some (K_leave, va)), written := written s3 @ line_text m\<rparr>)"
    using undisturbed_steps [OF reached_line [OF r1 m_def] t3(1) refl] by blast
  obtain s5 where f5: "fine_step (s3\<lparr>index := 14, inside := (inside s3)(t := Some (K_leave, va)), written := written s3 @ line_text m\<rparr>) s5"
      "overruns s5 u"
    using skip_overruns [of "s3\<lparr>index := 14, inside := (inside s3)(t := Some (K_leave, va)), written := written s3 @ line_text m\<rparr>" u]
      t3(2) assms(5) by auto
  have "fine_step\<^sup>*\<^sup>* s s3" using f1 s2(1) f3 by (meson converse_rtranclp_into_rtranclp rtranclp.rtrancl_into_rtrancl)
  then have "fine_step\<^sup>*\<^sup>* s s5" using own_steps_fine [OF f4] f5(1) by (meson rtranclp.rtrancl_into_rtrancl rtranclp_trans)
  then show ?thesis using f5(2) by blast
qed

text \<open>A run of the accesses that brings the parent and its first child to their calls.\<close>

definition two_threads :: "u8 \<Rightarrow> u8 \<Rightarrow> u32 \<Rightarrow> thread \<Rightarrow> thread \<Rightarrow> app" where
  "two_threads k gc c p q = (app_init k c gc)\<lparr>thr := (thr (app_init k c gc))(0 := p, 1 := q)\<rparr>"

lemma app_more_eq: "app_reach s0 s \<Longrightarrow> app_step s s' \<Longrightarrow> s' = s1 \<Longrightarrow> app_reach s0 s1"
  using app_reach.app_more by blast

lemma two_threads_at: "thr (two_threads k gc c p q) 0 = p" "thr (two_threads k gc c p q) 1 = q"
    "thr (two_threads k gc c p q) (Suc 0) = q" "global_counter (two_threads k gc c p q) = c"
    "global_char (two_threads k gc c p q) = gc"
  by (simp_all add: two_threads_def app_init_def)

lemma two_threads_reached:
  "\<exists>b. app_reach (app_init k g gc) b \<and> at_point (thr b 0) = Print \<and> at_point (thr b 1) = Print"
proof -
  note e = two_threads_def goto_def app_init_def fun_eq_iff
  let ?N = "\<lparr>at_point = Not_started, ch = 0, local_counter = 0, held = 0\<rparr>"
  let ?P = "\<lambda>p l. \<lparr>at_point = p, ch = k, local_counter = l, held = 0\<rparr>"
  let ?r = "\<lambda>c p q. app_reach (app_init k g gc) (two_threads k k c p q)"
  have "app_reach (app_init k g gc) (two_threads k gc 0 \<lparr>at_point = Set_char, ch = 0, local_counter = 0, held = 0\<rparr> ?N)"
    by (rule app_more_eq [OF app_start do_reset]) (simp_all add: e)
  then have "?r 0 (?P (Exec_child 1) 0) ?N"
    by (rule app_more_eq [OF _ do_set_char]) (simp_all add: e)
  then have "?r 0 (?P (Exec_child 2) 0) \<lparr>at_point = Start, ch = 0, local_counter = 0, held = 0\<rparr>"
    by (rule app_more_eq [OF _ exec_works [where i = 1]]) (simp_all add: e)
  then have "?r 0 (?P Check 0) \<lparr>at_point = Start, ch = 0, local_counter = 0, held = 0\<rparr>"
    by (rule app_more_eq [OF _ exec_fails [where i = 2]]) (simp_all add: e)
  then have "?r 0 (?P Check 0) (?P Check 0)"
    by (rule app_more_eq [OF _ start [where t = 1]]) (simp_all add: e)
  then have "?r 0 (?P Check 0) (?P Read 1)"
    by (rule app_more_eq [OF _ check_more [where t = 1]]) (simp_all add: e LOOP_LENGTH_def)
  then have "?r 0 (?P Read 1) (?P Read 1)"
    by (rule app_more_eq [OF _ check_more [where t = 0]]) (simp_all add: e LOOP_LENGTH_def)
  then have "?r 0 (?P Read 1) (?P Write 1)"
    by (rule app_more_eq [OF _ do_read [where t = 1]]) (simp_all add: e)
  then have "?r 0 (?P Write 1) (?P Write 1)"
    by (rule app_more_eq [OF _ do_read [where t = 0]]) (simp_all add: e)
  then have "?r 1 (?P Write 1) (?P Print 1)"
    by (rule app_more_eq [OF _ do_write [where t = 1]]) (simp_all add: e)
  then have "?r 1 (?P Print 1) (?P Print 1)"
    by (rule app_more_eq [OF _ do_write [where t = 0]]) (simp_all add: e)
  then show ?thesis using two_threads_at(1,2) by (intro exI conjI) (assumption, simp_all)
qed

end
