(* ===== verification/User_Apps.thy ===== *)
theory User_Apps imports OS_Prelude begin

text \<open>
  The user's programs around the malloc process: the start thread of \<^verbatim>\<open>user/src/usr_start.c\<close> that
  waits for keys, the choice of an application in \<^verbatim>\<open>user/user_thread.c\<close>, and the violations of the
  memory protection in \<^verbatim>\<open>user/user_thread_routine.c\<close>. A run is the list of its calls: prints, system
  calls and volatile reads. A run finishes, jumps to an address, or never returns.
\<close>

datatype ufunc = F_malloc_loop | F_user_parent_runner | F_read_null_pointer | F_read_unordered_address

datatype ucall =
    Usr_kprintf string "u8 list"
  | Syscall_exec ufunc "u8 list" u32 u32
  | Syscall_getc
  | Volatile_read u32

datatype run = Finishes "ucall list" | Jumps_to u32 "ucall list" | Never_returns "ucall list"

subsection \<open>user_thread.c\<close>

text \<open>The argument of the new thread is the key itself, one byte that the kernel copies.\<close>

definition anwendung :: "u8 \<Rightarrow> ucall list" where
  "anwendung c = (if c = 0x6D then
       [Usr_kprintf (''creating new process with malloc loop'' @ nl) [], Syscall_exec F_malloc_loop [] 0 0]
     else
       [Usr_kprintf (''Anwendung: creating process for %c'' @ nl) [c], Syscall_exec F_user_parent_runner [c] 1 0])"

subsection \<open>usr_start.c\<close>

definition start_usr_greeting :: "ucall list" where
  "start_usr_greeting =
     [Usr_kprintf (''.'' @ nl @ ''.'' @ nl @ ''.... welcome to User Mode ....'' @ nl @ ''.'' @ nl @ ''.'' @ nl) [],
      Usr_kprintf (''press any button to start a normal Aufgabe 6 process '' @ nl) [],
      Usr_kprintf (''press m to start a malloc process'' @ nl) []]"

text \<open>The \<open>while(1)\<close> loop over the characters \<open>syscall_getc\<close> returns one after the other.\<close>

fun start_usr_loop :: "u8 list \<Rightarrow> ucall list" where
  "start_usr_loop [] = []"
| "start_usr_loop (c # cs) =
     Syscall_getc # (if c > 0 \<and> c < 128 then anwendung c else []) @ start_usr_loop cs"

definition start_usr :: "u8 list \<Rightarrow> ucall list" where
  "start_usr cs = start_usr_greeting @ start_usr_loop cs"

subsection \<open>user_thread_routine.c\<close>

definition read_null_pointer :: "(u32 \<Rightarrow> u8) \<Rightarrow> ucall list" where
  "read_null_pointer rd = [Volatile_read 0, Usr_kprintf (''not supposed to read anything %c'' @ nl) [rd 0]]"

definition read_unordered_address :: "(u32 \<Rightarrow> u8) \<Rightarrow> ucall list" where
  "read_unordered_address rd =
     [Volatile_read 0xFFFFFFF1, Usr_kprintf (''not supposed to read anything %c'' @ nl) [rd 0xFFFFFFF1]]"

text \<open>\<open>stackOverFlow\<close> calls itself and nothing else: as a recursive definition it has no value.\<close>

partial_function (option) stackOverFlow :: "unit \<Rightarrow> unit option" where
  "stackOverFlow u = stackOverFlow u"

definition create_security_breach :: "(u32 \<Rightarrow> u8) \<Rightarrow> u8 \<Rightarrow> run" where
  "create_security_breach rd c = (let say = (\<lambda>t. Usr_kprintf (''%c pressed. '' @ t @ nl) [c]) in
     if c = 0x6E then Finishes [say ''initiate Zugriff auf Null-Pointer'',
       Syscall_exec F_read_null_pointer [] 0 0, Volatile_read 0,
       Usr_kprintf (''not supposed to read anything %c'' @ nl) [rd 0]]
     else if c = 0x70 then Jumps_to 0 [say ''initiate Sprung auf Null-Pointer'']
     else if c = 0x64 then Finishes [say ''initiate lesender Zugriff auf Kernel-Daten'']
     else if c = 0x6B then Finishes [say ''initiate lesender Zugriff auf Kernel-Code'']
     else if c = 0x4B then Finishes [say ''initiate lesender Zugriff auf Kernel-Stack'']
     else if c = 0x67 then Finishes [say (''initiate lesender Zugriff auf Peripherie-Ger'' @ [CHR 0xC3, CHR 0xA4] @ ''t'')]
     else if c = 0x63 then Finishes [say ''initiate schreibender Zugriff auf eigenen Code'']
     else if c = 0x73 then (case stackOverFlow () of
         None \<Rightarrow> Never_returns [say ''initiate stackOverFlow'']
       | Some _ \<Rightarrow> Finishes [say ''initiate stackOverFlow''])
     else if c = 0x75 then Finishes [say ''initiate lesender Zugriff auf nicht zugeordnete Adresse'',
       Syscall_exec F_read_unordered_address [] 0 0]
     else if c = 0x78 then Finishes [say ''Sprung auf eigene Daten oder Stack'']
     else Finishes [])"

lemma stackOverFlow_None: "stackOverFlow u = None"
proof (rule ccontr)
  assume "stackOverFlow u \<noteq> None"
  then obtain y where "stackOverFlow u = Some y" by auto
  then show False
    by (rule stackOverFlow.raw_induct [of "\<lambda>_ _. False", rotated]) blast
qed

lemma start_usr_loop_append: "start_usr_loop (xs @ ys) = start_usr_loop xs @ start_usr_loop ys"
  by (induction xs) auto

end
