(* ===== verification/Boot.thy ===== *)
theory Boot imports Mmu begin

text \<open>
  The start of the kernel: the stacks that \<^verbatim>\<open>system/start.c\<close> hands to the library, and the LED driver
  of \<^verbatim>\<open>driver/led.c\<close>, whose registers are words of physical memory.
\<close>

subsection \<open>The stacks\<close>

definition STACK_BASE :: u32 where "STACK_BASE = 0xF0000"
definition STACK_SIZE :: u32 where "STACK_SIZE = 1024"
definition STACK_IRQ :: u32 where "STACK_IRQ = STACK_BASE + STACK_SIZE * 0"
definition STACK_SYS :: u32 where "STACK_SYS = STACK_BASE + STACK_SIZE * 1"
definition STACK_UND :: u32 where "STACK_UND = STACK_BASE + STACK_SIZE * 2 + STACK_SIZE * 32"
definition STACK_ABT :: u32 where "STACK_ABT = STACK_BASE + STACK_SIZE * 3 + STACK_SIZE * 32"
definition STACK_SVC :: u32 where "STACK_SVC = STACK_BASE + STACK_SIZE * 4 + STACK_SIZE * 32"
lemmas stack_consts = STACK_IRQ_def STACK_SYS_def STACK_UND_def STACK_ABT_def STACK_SVC_def
  STACK_BASE_def STACK_SIZE_def

record stack_setup =
  abt_sp :: u32
  svc_sp :: u32
  und_sp :: u32
  irq_sp :: u32
  tasks_sp :: u32
  tasks_sp_size :: u32
  tasks_same_stack :: u32

definition start_kernel_stacks :: stack_setup where
  "start_kernel_stacks = \<lparr>
     abt_sp = STACK_ABT,
     svc_sp = STACK_SVC,
     und_sp = STACK_UND,
     irq_sp = STACK_IRQ,
     tasks_sp = STACK_SYS,
     tasks_sp_size = STACK_SIZE,
     tasks_same_stack = 0\<rparr>"

text \<open>\<open>start_kernel\<close> calls the library twice; the second call does not return and runs \<open>init\<close>.\<close>

datatype boot_call = Kernel_setup stack_setup | Kernel_init

definition start_kernel :: "boot_call list" where
  "start_kernel = [Kernel_setup start_kernel_stacks, Kernel_init]"

text \<open>
  The bytes of the stacks of the threads, as \<^verbatim>\<open>include/scheduler.h\<close> lays them out: \<open>tasks_sp\<close> is the
  highest address, and below it 32 stacks of \<open>tasks_sp_size\<close> bytes.
\<close>

definition in_task_stacks :: "stack_setup \<Rightarrow> nat \<Rightarrow> bool" where
  "in_task_stacks st a \<longleftrightarrow> unat (tasks_sp st) - 32 * unat (tasks_sp_size st) \<le> a \<and> a < unat (tasks_sp st)"

subsection \<open>The LED\<close>

definition GPIO_BASE :: u32 where "GPIO_BASE = 0x7E200000 - 0x3F000000"
definition YELLOW_LED :: nat where "YELLOW_LED = 7"
definition GPF_BITS :: nat where "GPF_BITS = 3"
definition gpio_output :: u32 where "gpio_output = 1"

text \<open>\<open>struct gpio\<close>, as the byte offsets of its words.\<close>

definition gpio_func :: "nat \<Rightarrow> nat" where "gpio_func i = 4 * i"
definition gpio_unused0 :: nat where "gpio_unused0 = gpio_func 6"
definition gpio_set :: "nat \<Rightarrow> nat" where "gpio_set i = gpio_unused0 + 4 + 4 * i"
definition gpio_unused1 :: nat where "gpio_unused1 = gpio_set 2"
definition gpio_clr :: "nat \<Rightarrow> nat" where "gpio_clr i = gpio_unused1 + 4 + 4 * i"

definition gpio_port :: u32 where "gpio_port = GPIO_BASE"

definition yellow_on :: "mem \<Rightarrow> mem" where
  "yellow_on m = (let
     m = store32 (gpio_port + of_nat (gpio_func 0)) (push_bit (YELLOW_LED * GPF_BITS) gpio_output) m
     in store32 (gpio_port + of_nat (gpio_set 0)) (push_bit YELLOW_LED 1) m)"

end
