(* ===== verification/Heap_Walk.thy ===== *)
theory Heap_Walk imports Heap_Interface begin

text \<open>
  The two debugging routines of \<^verbatim>\<open>user/heap.c\<close>: \<open>debug_heap\<close>, which prints a block and its neighbours,
  and \<open>draw_heap\<close>, which walks over all blocks. Output is the list of \<open>usr_kprintf\<close> calls. The walk
  ends exactly when it meets a block whose top flag is set.
\<close>

type_synonym print_call = "string \<times> u32 list"

definition block_line :: "string \<Rightarrow> u32 \<Rightarrow> mem \<Rightarrow> print_call" where
  "block_line name p m = (name @ '' at %p'' @ tab @ '' size %i'' @ tab @ '' FREE %i TOP %i'' @ tab @ '' prev_size %i'' @ nl,
     [p, ctrl m p AND BLOCK_SIZE_BITS, ctrl m p AND FREE_BLOCK, ctrl m p AND TOP_BLOCK, prev_size m p])"

definition debug_heap :: "u32 \<Rightarrow> heap \<Rightarrow> print_call list" where
  "debug_heap p h = (let
     m = hmem h;
     pre = p - prev_size m p - RB_HEADER_SIZE;
     nx = p + (ctrl m p AND BLOCK_SIZE_BITS) + RB_HEADER_SIZE
     in [(''memory available: %i'' @ tab @ ''first_free_block %p'' @ nl,
          [ctrl m (first_free_block h) AND BLOCK_SIZE_BITS, first_free_block h]),
         block_line ''Block'' p m, block_line ''Prev'' pre m,
         (fst (block_line ''Next'' nx m) @ nl, snd (block_line ''Next'' nx m))])"

definition draw_block :: "mem \<Rightarrow> u32 \<Rightarrow> u32 \<Rightarrow> print_call list" where
  "draw_block m HB HB_next =
     (if BLOCK_IS_FREE m HB then
        [(''block at %p           -----------'' @ tab @ tab @ '' next_free at %p'' @ nl, [HB, next_free m HB]),
         (''size %i p_size %i    [        ]'' @ nl, [ctrl m HB AND BLOCK_SIZE_BITS, prev_size m HB]),
         (''TOP %i                         ----------- next %p size %i'' @ nl,
           [ctrl m HB AND TOP_BLOCK, HB_next, ctrl m HB_next AND BLOCK_SIZE_BITS])]
      else
        [(''block at %p        -----------'' @ nl, [HB]),
         (''size %i p_size %i    [xxxxxxxxx]'' @ nl, [ctrl m HB AND BLOCK_SIZE_BITS, prev_size m HB]),
         (''TOP %i                         ----------- next %p size %i'' @ nl,
           [ctrl m HB AND TOP_BLOCK, HB_next, ctrl m HB_next AND BLOCK_SIZE_BITS])])"

text \<open>The loop with its flag, which is set when the top block has been met, and the output so far.\<close>

partial_function (option) draw_loop :: "mem \<Rightarrow> u32 \<Rightarrow> u32 \<Rightarrow> print_call list \<Rightarrow> print_call list option" where
  "draw_loop m HB HB_next acc =
     (let flag = (if BLOCK_IS_TOP m HB then 2 else 1 :: int);
          acc = acc @ draw_block m HB HB_next;
          HB = HB + bsize m HB + RB_HEADER_SIZE;
          HB_next = HB + bsize m HB + RB_HEADER_SIZE
      in if flag \<noteq> 2 then draw_loop m HB HB_next acc else Some acc)"

definition draw_heap :: "mem \<Rightarrow> print_call list option" where
  "draw_heap m = draw_loop m HEAP_BASE (HEAP_BASE + bsize m HEAP_BASE + RB_HEADER_SIZE) []"

fun block_addresses :: "nat \<Rightarrow> block list \<Rightarrow> nat list" where
  "block_addresses a [] = [a]"
| "block_addresses a ((s, f) # bs) = a # block_addresses (a + s + 8) bs"

lemma draw_loop_blocks:
  assumes "heap_tiles m a p bs" "sizes_ok bs" "4 dvd a"
  shows "draw_loop m (of_nat a) (of_nat a + bsize m (of_nat a) + RB_HEADER_SIZE) acc =
    Some (acc @ concat (map (\<lambda>x. draw_block m (of_nat x) (of_nat x + bsize m (of_nat x) + RB_HEADER_SIZE))
      (block_addresses a bs)))"
  using assms
proof (induction bs arbitrary: a p acc)
  case Nil
  then show ?case using top_is_free(2) [OF Nil] by (subst draw_loop.simps) simp
next
  case (Cons b bs)
  obtain s f where b: "b = (s, f)" by (cases b)
  with Cons.prems have h: "hdr m a s f False p" "4 dvd s" and d: "4 dvd a + s + 8"
    by (auto intro!: dvd_add)
  note ops = hdr_ops [OF h]
  have IH: "draw_loop m (of_nat (a + s + 8)) (of_nat (a + s + 8) + bsize m (of_nat (a + s + 8)) + RB_HEADER_SIZE) acc' =
    Some (acc' @ concat (map (\<lambda>x. draw_block m (of_nat x) (of_nat x + bsize m (of_nat x) + RB_HEADER_SIZE))
      (block_addresses (a + s + 8) bs)))" for acc'
    using Cons.prems b d by (intro Cons.IH [of _ s]) auto
  show ?case
    by (subst draw_loop.simps)
      (simp add: Let_def ops step_addr IH b del: of_nat_add)
qed

lemma draw_heap_blocks:
  assumes "heap_rep h bs"
  shows "draw_heap (hmem h) = Some (concat (map (\<lambda>x. draw_block (hmem h) (of_nat x)
      (of_nat x + bsize (hmem h) (of_nat x) + RB_HEADER_SIZE)) (block_addresses hbase bs)))"
  using assms draw_loop_blocks [of "hmem h" hbase 0 bs "[]"]
  unfolding draw_heap_def heap_bounds_nat(1) by (simp add: heap_rep_def)

lemma block_addresses_length: "length (block_addresses a bs) = Suc (length bs)"
  by (induction a bs rule: block_addresses.induct) auto

lemma draw_block_length: "length (draw_block m p q) = 3"
  by (simp add: draw_block_def)

lemma draw_heap_length:
  assumes "heap_rep h bs"
  shows "\<exists>out. draw_heap (hmem h) = Some out \<and> length out = 3 * (length bs + 1)"
proof -
  have "length (concat (map (\<lambda>x. draw_block m (f x) (g x)) xs)) = 3 * length xs" for m f g and xs :: "nat list"
    by (induction xs) (auto simp: draw_block_length)
  then show ?thesis using draw_heap_blocks [OF assms] by (simp add: block_addresses_length)
qed

end
