(* ===== verification/App_Properties.thy ===== *)
theory App_Properties imports Printing_Threads User_Apps Boot Heap_Walk begin

text \<open>
  The properties of the user's applications and of the start of the board: the counting threads
  and their output, the deliberate violations, the stacks, the LED, the picture of the heap.
\<close>

subsection \<open>The counting threads\<close>

text \<open>C12. However the scheduler interleaves the accesses of the parent and its two children to the
  shared counter, as long as no thread is inside \<open>usr_kprintf\<close> when another calls it: when all of them
  have left their loops the counter is at least fifteen, at least fifteen lines have been asked for,
  and the characters put out are exactly those lines, one behind the other and each of them whole.
  Updates of the counter can be lost, lines cannot.\<close>

theorem counting_prints_every_line:
  assumes "calm_step\<^sup>*\<^sup>* (print_init k g gc i) s" "all_done s"
  shows "15 \<le> unat (global_counter (base s)) \<and> 15 \<le> length (lines_out (base s)) \<and>
    unat (global_counter (base s)) \<le> length (lines_out (base s)) \<and>
    written s = concat (map line_text (lines_out (base s)))"
proof -
  obtain n m where m: "calm_inv (print_init k g gc i) n m s"
    using rtranclp_imp_relpowp [OF assms(1)] calm_run_inv by blast
  have "(app_step ^^ m) (app_init k g gc) (base s)" using calm_inv_run [OF m] by (simp add: base_init)
  then have inv: "app_inv (base s)" using run_measure by blast
  have fin: "finished (base s)" "inside s = (\<lambda>_. None)" using assms(2) by (auto simp: all_done_def)
  then have c: "\<not> global_counter (base s) < LOOP_LENGTH" using inv by (simp add: app_inv_def)
  then have "15 \<le> unat (global_counter (base s))" by (simp add: LOOP_LENGTH_def word_less_nat_alt)
  moreover have "pending (base s) = 0" using fin by (auto simp: pending_def finished_def)
  moreover have "at_point (thr (base s) 0) \<noteq> Reset" using fin by (auto simp: finished_def dest: spec [of _ 0])
  moreover have "written s = concat (map line_text (lines_out (base s)))"
    using m fin(2) by (cases rule: calm_invE) (simp_all add: lines_text_def)
  ultimately show ?thesis using inv by (simp add: app_inv_def count_inv_def writes_def)
qed

text \<open>C11. The counting application terminates under every such schedule, fair or not, and never deadlocks,
  its output included: no run is longer than a fixed number of steps, although lost updates can set
  the counter back; in no state is the next statement of a thread undefined; and a state without a
  next step is one in which all threads have left their loops and their calls.\<close>

theorem counting_terminates:
  assumes "(calm_step ^^ n) (print_init k g gc i) s"
  shows "n \<le> 200 * max_steps \<and> (\<forall>t. \<not> overruns s t) \<and> ((\<forall>s'. \<not> calm_step s s') \<longleftrightarrow> all_done s)"
proof -
  obtain m where m: "calm_inv (print_init k g gc i) n m s" using calm_run_inv [OF assms] by blast
  have "(app_step ^^ m) (app_init k g gc) (base s)" using calm_inv_run [OF m] by (simp add: base_init)
  then have "m \<le> max_steps" using run_measure by fastforce
  moreover have "n \<le> 200 * m" using m by (cases rule: calm_invE) simp_all
  ultimately have "n \<le> 200 * max_steps" by linarith
  then show ?thesis using calm_no_overrun [OF m] calm_progress [OF m] done_stuck unfolding calm_step_def by blast
qed

theorem counting_terminates_witness:
  "\<exists>s. (calm_step ^^ 0) (print_init 0x61 0 0 5) s \<and> (\<exists>s'. calm_step s s')"
proof -
  have "(calm_step ^^ 0) (print_init 0x61 0 0 5) (print_init 0x61 0 0 5)" by simp
  moreover have "\<not> all_done (print_init 0x61 0 0 5)"
    by (auto simp: all_done_def finished_def print_init_def app_init_def dest: spec [of _ 0])
  ultimately show ?thesis using counting_terminates [of 0 "0x61" 0 0 5 "print_init 0x61 0 0 5"] by blast
qed



text \<open>A run of the parent alone, when both children are refused.\<close>

definition alone :: "point \<Rightarrow> nat \<Rightarrow> (u8 \<times> u32 \<times> u8 \<times> u32) list \<Rightarrow> u32 \<Rightarrow> app" where
  "alone p n ls hv = (app_init 0x61 0 0)\<lparr>global_counter := of_nat n, global_char := 0x61,
     thr := (thr (app_init 0x61 0 0))(0 := \<lparr>at_point = p, ch = 0x61, local_counter = of_nat n, held = hv\<rparr>), lines_out := ls\<rparr>"

lemma alone_round:
  assumes "app_reach s0 (alone Check n ls h)" "n < 15"
  shows "\<exists>ls h. app_reach s0 (alone Check (Suc n) ls h)"
proof -
  let ?s1 = "goto 0 Read ((alone Check n ls h)\<lparr>thr := (thr (alone Check n ls h))(0 := (thr (alone Check n ls h) 0)\<lparr>local_counter := local_counter (thr (alone Check n ls h) 0) + 1\<rparr>)\<rparr>)"
  have "(of_nat n :: u32) < 15" using assms(2) by (simp add: word_less_nat_alt unat_of_nat)
  then have "app_step (alone Check n ls h) ?s1"
    by (intro check_more) (simp_all add: alone_def LOOP_LENGTH_def)
  note r1 = app_more [OF assms(1) this]
  let ?s2 = "goto 0 Write (?s1\<lparr>thr := (thr ?s1)(0 := (thr ?s1 0)\<lparr>held := global_counter ?s1\<rparr>)\<rparr>)"
  have "app_step ?s1 ?s2" by (rule do_read) (simp_all add: goto_def)
  note r2 = app_more [OF r1 this]
  let ?s3 = "goto 0 Print (?s2\<lparr>global_counter := held (thr ?s2 0) + 1\<rparr>)"
  have "app_step ?s2 ?s3" by (rule do_write) (simp_all add: goto_def)
  note r3 = app_more [OF r2 this]
  let ?s4 = "goto 0 Sleep (?s3\<lparr>lines_out := lines_out ?s3 @ [(ch (thr ?s3 0), global_counter ?s3, id_char 0, local_counter (thr ?s3 0))]\<rparr>)"
  have "app_step ?s3 ?s4" by (rule do_print) (simp_all add: goto_def)
  note r4 = app_more [OF r3 this]
  have "app_step ?s4 (goto 0 Check ?s4)" by (rule do_sleep) (simp_all add: goto_def)
  from app_more [OF r4 this] have "app_reach s0 (goto 0 Check ?s4)" .
  moreover have "goto 0 Check ?s4 = alone Check (Suc n) (lines_out ?s4) (of_nat n)"
    by (simp add: goto_def alone_def fun_eq_iff add.commute)
  ultimately show ?thesis by metis
qed

lemma alone_finishes: "\<exists>s. app_reach (app_init 0x61 0 0) s \<and> finished s"
proof -
  let ?s0 = "app_init 0x61 0 0 :: app"
  let ?s1 = "goto 0 Set_char (?s0\<lparr>global_counter := 0\<rparr>)"
  have "app_step ?s0 ?s1" by (rule do_reset) (simp add: app_init_def)
  note r1 = app_more [OF app_start this]
  let ?s2 = "goto 0 (Exec_child 1) (?s1\<lparr>global_char := key ?s1, thr := (thr ?s1)(0 := (thr ?s1 0)\<lparr>ch := key ?s1\<rparr>)\<rparr>)"
  have "app_step ?s1 ?s2" by (rule do_set_char) (simp add: goto_def)
  note r2 = app_more [OF r1 this]
  have "app_step ?s2 (goto 0 (if (1::nat) = 1 then Exec_child 2 else Check) ?s2)"
    by (rule exec_fails) (simp_all add: goto_def)
  then have "app_step ?s2 (goto 0 (Exec_child 2) ?s2)" by simp
  note r3 = app_more [OF r2 this]
  let ?s3 = "goto 0 (Exec_child 2) ?s2"
  have "app_step ?s3 (goto 0 (if (2::nat) = 1 then Exec_child 2 else Check) ?s3)"
    by (rule exec_fails) (simp_all add: goto_def)
  then have "app_step ?s3 (goto 0 Check ?s3)" by simp
  note r4 = app_more [OF r3 this]
  have e: "goto 0 Check ?s3 = alone Check 0 [] 0"
    by (simp add: goto_def alone_def app_init_def fun_eq_iff)
  have "\<exists>ls h. app_reach ?s0 (alone Check n ls h)" if "n \<le> 15" for n
    using that
  proof (induction n)
    case 0
    then show ?case using r4 unfolding e by blast
  next
    case (Suc n)
    then show ?case using alone_round by (metis Suc_leD Suc_le_eq)
  qed
  then obtain ls h where r: "app_reach ?s0 (alone Check 15 ls h)" by blast
  have "app_step (alone Check 15 ls h) (goto 0 Done (alone Check 15 ls h))"
    by (rule check_done) (simp_all add: alone_def LOOP_LENGTH_def)
  note r' = app_more [OF r this]
  moreover have "finished (goto 0 Done (alone Check 15 ls h))"
    by (simp add: finished_def goto_def alone_def app_init_def)
  ultimately show ?thesis by blast
qed

theorem counting_prints_every_line_witness:
  "\<exists>s. calm_step\<^sup>*\<^sup>* (print_init 0x61 0 0 5) s \<and> all_done s \<and> 15 \<le> length (lines_out (base s))"
proof -
  obtain b where b: "app_reach (app_init 0x61 0 0) b" "finished b" using alone_finishes by blast
  obtain s where s: "calm_step\<^sup>*\<^sup>* (print_init 0x61 0 0 5) s" "base s = b" "inside s = (\<lambda>_. None)"
    using calm_realises [OF b(1)] by blast
  then have "all_done s" using b(2) by (simp add: all_done_def)
  with s(1) counting_prints_every_line [OF s(1)] show ?thesis by blast
qed

subsection \<open>Violations\<close>

text \<open>Of the violations only the stack overflow never returns and only the jump through the null
  pointer leaves the program; every other character comes back.\<close>

theorem breach_outcomes:
  "(\<exists>cs. create_security_breach rd c = Never_returns cs) = (c = 0x73) \<and>
   (\<exists>a cs. create_security_breach rd c = Jumps_to a cs) = (c = 0x70)"
  by (simp add: create_security_breach_def Let_def stackOverFlow_None)

subsection \<open>The board\<close>

text \<open>The interrupt stack overlaps the stacks of the threads: the 1024 bytes below its top, into
  which it grows, all belong to the area of the 32 thread stacks, while the bytes below the tops
  of the other three exception stacks do not.\<close>

theorem irq_stack_in_task_stacks:
  "list_all (\<lambda>i. in_task_stacks start_kernel_stacks (unat (irq_sp start_kernel_stacks) - i) \<and>
     \<not> in_task_stacks start_kernel_stacks (unat (abt_sp start_kernel_stacks) - i) \<and>
     \<not> in_task_stacks start_kernel_stacks (unat (svc_sp start_kernel_stacks) - i) \<and>
     \<not> in_task_stacks start_kernel_stacks (unat (und_sp start_kernel_stacks) - i)) [1..<1025]"
  by (auto simp: list_all_iff in_task_stacks_def start_kernel_stacks_def stack_consts)

text \<open>The LED driver makes pin 7 an output and then sets it, and writes no other byte.\<close>

theorem yellow_on_registers:
  "load32 (yellow_on m) 0x3F200000 = 0x200000 \<and> load32 (yellow_on m) 0x3F20001C = 0x80 \<and>
   yellow_on m = store32 0x3F20001C 0x80 (store32 0x3F200000 0x200000 m)"
proof -
  have e: "yellow_on m = store32 0x3F20001C 0x80 (store32 0x3F200000 0x200000 m)"
    by (simp add: yellow_on_def gpio_port_def gpio_func_def gpio_set_def gpio_unused0_def GPIO_BASE_def YELLOW_LED_def
      GPF_BITS_def gpio_output_def push_bit_eq_mult)
  have "aligned4 0x3F20001C" "aligned4 0x3F200000" by (simp_all add: aligned4_def)
  then show ?thesis unfolding e by (simp add: load32_store32_same load32_store32_other)
qed

subsection \<open>The picture of the heap\<close>

text \<open>C39. \<open>draw_heap\<close> stops on every well formed heap, at the top block, and prints three lines for
  each block.\<close>

theorem draw_heap_stops:
  assumes "heap_rep h bs"
  shows "\<exists>out. draw_heap (hmem h) = Some out \<and> length out = 3 * (length bs + 1)"
  using draw_heap_length [OF assms] .

theorem draw_heap_stops_witness:
  "\<exists>h out. malloc 16 (heap_boot (\<lambda>_. 0)) = Some (HEAP_BASE, h) \<and> draw_heap (hmem h) = Some out \<and> length out = 6"
proof -
  obtain h where h: "malloc 16 (heap_boot (\<lambda>_. 0)) = Some (HEAP_BASE, h)" "heap_rep h [(16, False)]"
    using malloc_first_rep [of 16 "\<lambda>_. 0"] by (auto simp: rounded_def)
  then show ?thesis using draw_heap_stops [OF h(2)] by auto
qed

end
