(* ===== verification/Kernel_Init.thy ===== *)
theory Kernel_Init imports Boot Syscalls Process_Count begin

text \<open>
  \<open>init\<close> of \<^verbatim>\<open>system/start.c\<close>, the first thread: it sets the kernel up and starts the user's first
  thread with a system call. The messages of the kernel itself are in \<open>klog\<close>, the calls into the
  library in the trace.
\<close>

definition init :: "u32 \<Rightarrow> u32 \<Rightarrow> (mem \<times> kernel) lib \<Rightarrow> u32 \<Rightarrow> (mem \<times> kernel) machine \<Rightarrow>
    (mem \<times> kernel) machine option" where
  "init table_address start_usr lib p s = (let
     (m, k) = env s;
     k = kprintf (esc @ ''[1;33m initialize essentials '' @ esc @ ''[0m'' @ nl) [] k;
     k = boot_kernel table_address k;
     s = do_calls lib [Uart_irq_enable, Timer_start] (s\<lparr>env := (m, k)\<rparr>)
     in syscall_exec lib p (s\<lparr>frame := (frame s)\<lparr>r0 := start_usr, r1 := 0, r2 := 0, r3 := 0\<rparr>\<rparr>))"

lemma kprintf_loaded: "kernel_loaded k \<Longrightarrow> kernel_loaded (kprintf f a k)"
  by (simp add: kernel_loaded_def kprintf_def)

lemma boot_kernel_table: "L1_TABLE (boot_kernel a (kprintf f x k)) = L1_TABLE (L1_TABLE_init k)"
proof -
  have "L1_TABLE (boot_kernel a (kprintf f x k)) = L1_TABLE (mmu_init a (kprintf f x k))"
    by (simp add: boot_kernel_def process_init_def init_thread_process_arr_def init_processes_array_def
        init_thread_stack_arrays_def kprintf_def Let_def)
  also have "\<dots> = L1_TABLE (L1_TABLE_init (kprintf f x k))" by (rule mmu_init_table)
  finally show ?thesis by (simp add: L1_TABLE_init_def kprintf_def Let_def)
qed

end
