(* ===== verification/Boot_Properties.thy ===== *)
theory Boot_Properties imports Kernel_Init Syscall_Properties begin

text \<open>
  The property of \<open>init\<close>, which spans the kernel and the user's side: the first thread.
\<close>

text \<open>C7. \<open>init\<close> sets the translation table, the arrays of the processes and the devices up and starts
  the user's first thread as the last step, with one system call and no argument. It returns with
  that thread as the only one of process 0, with the counts of all processes right, and with the
  table as \<open>L1_TABLE_init\<close> made it: from here on the invariants of the hooks hold.\<close>

theorem init_starts_process_0:
  assumes "kernel_loaded k" "keeps_all lib" "announces_as lib t lim W" "0 \<le> t" "t < 32"
    and "aligned4 (sp (frame s))" "env s = (m, k)" "saved_bytes (frame s) \<inter> W = {}"
  shows "\<exists>s' k'. init a start_usr lib p s = Some s' \<and> snd (env s') = k' \<and> pc (frame s') = lr (frame s) \<and>
    trace s' = trace s @ [Uart_irq_enable, Timer_start, Svc_exec start_usr 0 0 PARENT] \<and>
    kernel_ok k' \<and> counts_ok k' \<and> L1_TABLE k' = L1_TABLE (L1_TABLE_init k) \<and>
    (\<forall>t'. get_process_id t' k' = (if t' = t then 0 else -1))"
proof -
  define k0 where "k0 = boot_kernel a (kprintf (esc @ ''[1;33m initialize essentials '' @ esc @ ''[0m'' @ nl) [] k)"
  define s1 where "s1 = do_calls lib [Uart_irq_enable, Timer_start] (s\<lparr>env := (m, k0)\<rparr>)"
  define s2 where "s2 = s1\<lparr>frame := (frame s1)\<lparr>r0 := start_usr, r1 := 0, r2 := 0, r3 := 0\<rparr>\<rparr>"
  have i: "init a start_usr lib p s = syscall_exec lib p s2"
    using assms(7) by (simp add: init_def Let_def k0_def s1_def s2_def del: append_Cons)
  have s1: "frame s1 = frame s" "env s1 = (m, k0)" "trace s1 = trace s @ [Uart_irq_enable, Timer_start]"
    using do_call_quiet [OF assms(2), of Uart_irq_enable] do_call_quiet [OF assms(2), of Timer_start]
    by (simp_all add: s1_def)
  note loaded = kprintf_loaded [OF assms(1)]
  have k0: "kernel_ok k0" "\<And>t. get_process_id t k0 = -1" "counts_ok k0" "find_free_process_address k0 = 0"
      "L1_TABLE k0 = L1_TABLE (L1_TABLE_init k)"
    unfolding k0_def
    by (rule boot_kernel_ok(1,2) [OF loaded] boot_kernel_counts [OF loaded] boot_kernel_table)+
  obtain k' where k': "scheduler_on_create t PARENT k0 = Some (0, k')" "counts_ok k'" "get_process_id t k' = 0"
    using create_parent_counts [OF k0(1,3) assms(4,5) k0(2)] k0(4) by auto
  note o = scheduler_on_create_ok [OF k0(1) k'(1)]
  have "scheduler_on_create t (r3 (frame s2)) k0 = Some (0, k')" using k'(1) by (simp add: s2_def PARENT_def)
  moreover have "saved_bytes (frame s2) \<inter> W = {}" using assms(8) by (simp add: s2_def s1 saved_bytes_def)
  ultimately obtain s' where
      "syscall_exec lib p s2 = Some s'" "snd (env s') = k'" "pc (frame s') = lr (frame s2)"
      "trace s' = trace s2 @ [Svc_exec start_usr 0 0 PARENT]"
    using exec_announced [OF assms(3), where s = s2 and k = k0 and r = 0 and k' = k' and m = m and p = p] assms(6) s1 by (force simp: s2_def PARENT_def)
  then show ?thesis using i s1 o k' k0(2,5) by (auto simp: s2_def)
qed

theorem init_starts_process_0_witness:
  "\<exists>s'. init 0x4000 0x400000 announcing_lib 0 (user_world blank_kernel) = Some s' \<and>
     get_process_id 2 (snd (env s')) = 0 \<and> counts_ok (snd (env s'))"
  using init_starts_process_0 [OF blank_loaded(1) announcing_lib_ok(1,2) _ _ user_world_stack, where a = "0x4000" and start_usr = "0x400000" and p = 0]
  by auto

end
