(* ===== verification/Process_Table.thy ===== *)
theory Process_Table imports Process_Count begin

text \<open>
  What the hooks of \<^verbatim>\<open>scheduler/scheduler.c\<close> are for, without their arrays: a table of the threads
  and the processes they are in. The hooks implement the table for every sequence of events the
  scheduler may produce, as long as a child is created only while the process created last still
  has a thread, a parent only while one of the eight processes is free, thread 1 and threads
  without a process do not end, and no thread without a process is switched to from one that has a
  process. Which sequences these are is said on the table alone. The second condition, the one on
  threads that end and the last are what keeps the hooks from indexing \<open>process_array[-1]\<close>.
\<close>

subsection \<open>Events\<close>

datatype sched_event = Ev_create int u32 | Ev_exit | Ev_switch int

text \<open>The hook of each event, with the scheduler's own record of the living threads.\<close>

fun do_event :: "sched_event \<Rightarrow> sys \<Rightarrow> sys option" where
  "do_event (Ev_create t flags) s = do {
     (r, k) \<leftarrow> scheduler_on_create t flags (kern s);
     Some (s\<lparr>kern := k, alive := if r = 0 then insert t (alive s) else alive s\<rparr>) }"
| "do_event Ev_exit s = do {
     k \<leftarrow> scheduler_on_exit (current s) (kern s);
     Some (s\<lparr>kern := k, alive := alive s - {current s}\<rparr>) }"
| "do_event (Ev_switch n) s = do {
     k \<leftarrow> scheduler_on_schedule (current s) n (kern s);
     Some (s\<lparr>kern := k, current := n\<rparr>) }"

fun run_events :: "sched_event list \<Rightarrow> sys \<Rightarrow> sys option" where
  "run_events [] s = Some s"
| "run_events (e # es) s = do { s \<leftarrow> do_event e s; run_events es s }"

subsection \<open>The table\<close>

record process_table =
  owner :: "int \<Rightarrow> nat option"
  newest :: nat
  living :: "int set"
  running :: int

definition in_use :: "process_table \<Rightarrow> nat \<Rightarrow> bool" where
  "in_use T p \<longleftrightarrow> list_ex (\<lambda>t. owner T (int t) = Some p) [0..<32]"

definition first_free :: "process_table \<Rightarrow> nat option" where
  "first_free T = find (\<lambda>p. \<not> in_use T p) [0..<8]"

text \<open>A thread with the flags of a parent gets the first process without a thread.\<close>

fun table_step :: "sched_event \<Rightarrow> process_table \<Rightarrow> process_table" where
  "table_step (Ev_create t flags) T =
     (if flags = PARENT then
        (case first_free T of
           None \<Rightarrow> T
         | Some p \<Rightarrow> T\<lparr>owner := (owner T)(t := Some p), newest := p, living := insert t (living T)\<rparr>)
      else T\<lparr>owner := if flags = CHILD then (owner T)(t := Some (newest T)) else owner T,
             living := insert t (living T)\<rparr>)"
| "table_step Ev_exit T = T\<lparr>owner := (owner T)(running T := None), living := living T - {running T}\<rparr>"
| "table_step (Ev_switch n) T = T\<lparr>running := n\<rparr>"

fun admitted :: "sched_event \<Rightarrow> process_table \<Rightarrow> bool" where
  "admitted (Ev_create t flags) T \<longleftrightarrow> (running T \<in> living T \<or> running T = -1) \<and> t \<notin> living T \<and> 0 \<le> t \<and> t < 32 \<and>
     (flags = CHILD \<longrightarrow> in_use T (newest T)) \<and> (flags = PARENT \<longrightarrow> first_free T \<noteq> None)"
| "admitted Ev_exit T \<longleftrightarrow> running T \<in> living T \<and> running T \<noteq> 1 \<and> owner T (running T) \<noteq> None"
| "admitted (Ev_switch n) T \<longleftrightarrow> n = -1 \<or> n \<in> living T \<and> (owner T n \<noteq> None \<or> owner T (running T) = None)"

fun table_run :: "sched_event list \<Rightarrow> process_table \<Rightarrow> process_table" where
  "table_run [] T = T"
| "table_run (e # es) T = table_run es (table_step e T)"

fun all_admitted :: "sched_event list \<Rightarrow> process_table \<Rightarrow> bool" where
  "all_admitted [] T \<longleftrightarrow> True"
| "all_admitted (e # es) T \<longleftrightarrow> admitted e T \<and> all_admitted es (table_step e T)"

text \<open>The table after \<open>init\<close>: one living thread, in no process.\<close>

definition boot_table :: "int \<Rightarrow> process_table" where
  "boot_table t = \<lparr>owner = (\<lambda>_. None), newest = 0, living = {t}, running = t\<rparr>"

subsection \<open>The table of a kernel\<close>

definition process_of :: "kernel \<Rightarrow> int \<Rightarrow> nat option" where
  "process_of k t = (if 0 \<le> get_process_id t k then Some (nat (get_process_id t k)) else None)"

definition abs_sys :: "sys \<Rightarrow> process_table" where
  "abs_sys s = \<lparr>owner = process_of (kern s), newest = nat (scheduler_pid (kern s)), living = alive s, running = current s\<rparr>"

definition table_inv :: "sys \<Rightarrow> bool" where
  "table_inv s \<longleftrightarrow> sys_inv s \<and> counts_ok (kern s) \<and> (\<forall>t. t \<notin> alive s \<longrightarrow> get_process_id t (kern s) = -1)"

lemma process_of_update:
  assumes "\<And>t'. t' \<noteq> t \<Longrightarrow> get_process_id t' k' = get_process_id t' k"
  shows "process_of k' = (process_of k)(t := process_of k' t)"
  using assms by (auto simp: process_of_def fun_eq_iff)

lemma process_of_None: "kernel_ok k \<Longrightarrow> process_of k t = None \<longleftrightarrow> get_process_id t k = -1"
  using get_process_id_range [of k t] by (auto simp: process_of_def)

lemma in_use_reserved:
  assumes "kernel_ok (kern s)" "counts_ok (kern s)" "p < 8"
  shows "in_use (abs_sys s) p \<longleftrightarrow> reserved (process_array (kern s) ! p) \<noteq> 0"
proof -
  have "(\<exists>t < 32. process_of (kern s) (int t) = Some p) \<longleftrightarrow> (\<exists>t. get_process_id t (kern s) = int p)"
  proof
    assume "\<exists>t. get_process_id t (kern s) = int p"
    then obtain t where t: "get_process_id t (kern s) = int p" ..
    then have "0 \<le> t" "t < 32" by (auto simp: get_process_id_def split: if_splits)
    then show "\<exists>t < 32. process_of (kern s) (int t) = Some p"
      using t by (intro exI [of _ "nat t"]) (auto simp: process_of_def)
  qed (auto simp: process_of_def split: if_splits intro: exI)
  then show ?thesis
    using reserved_iff_thread [OF assms] by (auto simp: in_use_def abs_sys_def list_ex_iff)
qed

lemma threads_of_one:
  assumes "kernel_ok k" "\<And>j. j \<noteq> i \<Longrightarrow> process_of k j \<noteq> Some p" "process_of k i = Some p"
  shows "threads_of k (int p) = 1"
proof -
  have g: "get_process_id i k = int p" "\<And>j. get_process_id j k = int p \<Longrightarrow> j = i"
  proof -
    show "get_process_id i k = int p" using assms(3) by (auto simp: process_of_def split: if_splits)
    show "j = i" if "get_process_id j k = int p" for j using assms(2) [of j] that by (auto simp: process_of_def)
  qed
  from g(1) have i: "0 \<le> i" "i < 32" by (auto simp: get_process_id_def split: if_splits)
  have l: "length (thread_process_arr k) = 32" using assms(1) by (simp add: kernel_ok_def)
  have "int p = thread_process_arr k ! j \<longleftrightarrow> j = nat i" if "j < 32" for j
  proof
    show "j = nat i" if "int p = thread_process_arr k ! j"
      using g(2) [of "int j"] that \<open>j < 32\<close> by (simp add: get_process_id_def)
    show "int p = thread_process_arr k ! j" if "j = nat i" using g(1) that i by (simp add: get_process_id_def)
  qed
  then have "{j. j < 32 \<and> int p = thread_process_arr k ! j} = {nat i}" using i by (auto simp del: of_nat_eq_iff)
  moreover have "threads_of k (int p) = card {j. j < 32 \<and> int p = thread_process_arr k ! j}"
    unfolding threads_of_def count_mset count_list_eq_length_filter length_filter_conv_card l by simp
  ultimately show ?thesis by simp
qed

lemma find_free_from_find:
  "find_free_from is k = (case find (\<lambda>i. reserved (process_array k ! i) = 0) is of None \<Rightarrow> -1 | Some i \<Rightarrow> int i)"
  by (induction "is" k rule: find_free_from.induct) auto

lemma first_free_abs:
  assumes "kernel_ok (kern s)" "counts_ok (kern s)"
  shows "first_free (abs_sys s) = (if find_free_process_address (kern s) = -1 then None
     else Some (nat (find_free_process_address (kern s))))"
proof -
  have "find (\<lambda>p. \<not> in_use (abs_sys s) p) [0..<8] = find (\<lambda>i. reserved (process_array (kern s) ! i) = 0) [0..<8]"
    by (rule find_cong) (use in_use_reserved [OF assms] in auto)
  then show ?thesis
    by (simp add: first_free_def find_free_process_address_def MAX_PROCESSES_def find_free_from_find split: option.split)
qed

subsection \<open>What the hooks leave alone\<close>

lemma create_child_frame:
  assumes "scheduler_on_create t CHILD k = Some (r, k')"
  shows "r = 0" "scheduler_pid k' = scheduler_pid k" "map reserved (process_array k') = map reserved (process_array k)"
proof -
  have u: "scheduler_pid k2 = scheduler_pid k1 \<and> map reserved (process_array k2) = map reserved (process_array k1)"
    if "upd_proc i (\<lambda>p. p\<lparr>threads_active := threads_active p + 1\<rparr>) k1 = Some k2" for i k1 k2
    using that by (auto simp: upd_proc_def upd_Some idx_Some split: if_splits bind_splits
      intro!: nth_equalityI simp: nth_list_update)
  have "r = 0 \<and> scheduler_pid k' = scheduler_pid k \<and> map reserved (process_array k') = map reserved (process_array k)"
    using assms
    by (auto simp: scheduler_on_create_def CHILD_def PARENT_def set_thread_process_def split: if_splits bind_splits dest!: u)
  then show "r = 0" "scheduler_pid k' = scheduler_pid k" "map reserved (process_array k') = map reserved (process_array k)"
    by simp_all
qed

lemma exit_pid:
  assumes "scheduler_on_exit t k = Some k'"
  shows "scheduler_pid k' = scheduler_pid k"
proof -
  have u: "scheduler_pid k2 = scheduler_pid k1" if "upd_proc i f k1 = Some k2" for i f k1 k2
    using that by (auto simp: upd_proc_def split: if_splits bind_splits)
  show ?thesis using assms
    by (auto simp: scheduler_on_exit_def reset_thread_process_relation_def set_thread_process_def free_process_def Let_def
      split: if_splits bind_splits dest!: u)
qed

lemma schedule_frame:
  assumes "scheduler_on_schedule old n k = Some k'"
  shows "process_array k' = process_array k" "thread_process_arr k' = thread_process_arr k" "scheduler_pid k' = scheduler_pid k"
proof -
  have "process_array k2 = process_array k1 \<and> thread_process_arr k2 = thread_process_arr k1 \<and> scheduler_pid k2 = scheduler_pid k1"
    if "process_switch i k1 = Some k2" for i k1 k2
    using that by (auto simp: process_switch_def elim: map_userdata_to_Some split: bind_splits)
  then have "process_array k' = process_array k \<and> thread_process_arr k' = thread_process_arr k \<and> scheduler_pid k' = scheduler_pid k"
    using assms by (auto simp: scheduler_on_schedule_def Let_def split: if_splits)
  then show "process_array k' = process_array k" "thread_process_arr k' = thread_process_arr k" "scheduler_pid k' = scheduler_pid k"
    by simp_all
qed

lemma boot_kernel_pid: "kernel_loaded k \<Longrightarrow> scheduler_pid (boot_kernel a k) = 0"
  by (simp add: kernel_loaded_def boot_kernel_def process_init_def init_thread_process_arr_def
    init_processes_array_def init_thread_stack_arrays_def kprintf_def Let_def mmu_init_fields)

lemma counts_cong:
  "process_array k' = process_array k \<Longrightarrow> thread_process_arr k' = thread_process_arr k \<Longrightarrow> counts_ok k' = counts_ok k"
  by (simp add: counts_ok_def threads_of_def)

subsection \<open>One event\<close>

lemma create_simulates:
  assumes inv: "table_inv s" and adm: "admitted (Ev_create t flags) (abs_sys s)"
  shows "\<exists>r k'. scheduler_on_create t flags (kern s) = Some (r, k') \<and> counts_ok k' \<and>
    (r \<noteq> 0 \<longrightarrow> get_process_id t k' = -1) \<and>
    abs_sys (s\<lparr>kern := k', alive := if r = 0 then insert t (alive s) else alive s\<rparr>) =
      table_step (Ev_create t flags) (abs_sys s)"
proof -
  let ?k = "kern s"
  have ok: "kernel_ok ?k" "counts_ok ?k" and t: "0 \<le> t" "t < 32" "get_process_id t ?k = -1" "t \<noteq> -1"
    using inv adm by (auto simp: table_inv_def sys_inv_def abs_sys_def)
  have none: "process_of ?k t = None" using process_of_None [OF ok(1)] t(3) by blast
  have free: "flags = PARENT \<Longrightarrow> find_free_process_address ?k \<noteq> -1"
    using adm first_free_abs [OF ok] by auto
  consider (new) "flags = PARENT" "find_free_process_address ?k \<noteq> -1"
    | (child) "flags = CHILD" | (other) "flags \<noteq> PARENT" "flags \<noteq> CHILD"
    using free by blast
  then show ?thesis
  proof cases
    case new
    obtain k' where k': "scheduler_on_create t PARENT ?k = Some (0, k')" "counts_ok k'"
        "get_process_id t k' = find_free_process_address ?k" "scheduler_pid k' = find_free_process_address ?k"
      using create_parent_counts [OF ok t(1-3) new(2)] by blast
    have p: "0 \<le> find_free_process_address ?k" using find_free_process_range [of ?k] new(2) by auto
    have "process_of k' = (process_of ?k)(t := process_of k' t)"
      by (rule process_of_update) (rule scheduler_on_create_ok(3) [OF ok(1) k'(1)])
    moreover have "process_of k' t = Some (nat (find_free_process_address ?k))" using k'(3) p by (simp add: process_of_def)
    ultimately have "process_of k' = (process_of ?k)(t := Some (nat (find_free_process_address ?k)))" by simp
    moreover have "first_free (abs_sys s) = Some (nat (find_free_process_address ?k))" using first_free_abs [OF ok] new(2) by simp
    ultimately show ?thesis using k' new(1) by (simp add: abs_sys_def)
  next
    case child
    have r: "0 \<le> scheduler_pid ?k" "scheduler_pid ?k < 8" using ok(1) by (auto simp: kernel_ok_def)
    have "in_use (abs_sys s) (nat (scheduler_pid ?k))" using adm child by (simp add: abs_sys_def)
    then have res: "reserved (process_array ?k ! nat (scheduler_pid ?k)) \<noteq> 0"
      using in_use_reserved [OF ok, of "nat (scheduler_pid ?k)"] r by simp
    obtain k' where k': "scheduler_on_create t CHILD ?k = Some (0, k')" "counts_ok k'" "get_process_id t k' = scheduler_pid ?k"
      using create_child_counts [OF ok t(1-3) res] by blast
    have "process_of k' = (process_of ?k)(t := process_of k' t)"
      by (rule process_of_update) (rule scheduler_on_create_ok(3) [OF ok(1) k'(1)])
    moreover have "process_of k' t = Some (nat (scheduler_pid ?k))" using k'(3) r by (simp add: process_of_def)
    ultimately have "process_of k' = (process_of ?k)(t := Some (nat (scheduler_pid ?k)))" by simp
    then show ?thesis
      using k' child create_child_frame(2) [OF k'(1)] by (simp add: abs_sys_def CHILD_def PARENT_def)
  next
    case other
    then have "scheduler_on_create t flags ?k = Some (0, ?k)" by (simp add: scheduler_on_create_def)
    then show ?thesis using other ok by (simp add: abs_sys_def)
  qed
qed

lemma exit_simulates:
  assumes inv: "table_inv s" and adm: "admitted Ev_exit (abs_sys s)"
  shows "\<exists>k'. scheduler_on_exit (current s) (kern s) = Some k' \<and> counts_ok k' \<and> get_process_id (current s) k' = -1 \<and>
    abs_sys (s\<lparr>kern := k', alive := alive s - {current s}\<rparr>) = table_step Ev_exit (abs_sys s)"
proof -
  let ?k = "kern s" and ?t = "current s"
  have ok: "kernel_ok ?k" "counts_ok ?k" and t: "0 \<le> ?t" "?t < 32" "?t \<noteq> 1" "?t \<noteq> -1"
    using inv adm by (auto simp: table_inv_def sys_inv_def abs_sys_def)
  have "process_of ?k ?t \<noteq> None" using adm by (simp add: abs_sys_def)
  then have p: "0 \<le> get_process_id ?t ?k" by (auto simp: process_of_def split: if_splits)
  then obtain k' where k': "scheduler_on_exit ?t ?k = Some k'" using exit_defined [OF ok(1), of ?t] t by auto
  note o = scheduler_on_exit_ok [OF ok(1) k']
  have "counts_ok k'"
    using exit_counts [OF ok t(1-3) refl p] k' by auto
  moreover have "process_of k' = (process_of ?k)(?t := process_of k' ?t)"
    by (rule process_of_update) (use o(4) in blast)
  ultimately show ?thesis
    using k' o(3) t(3,4) process_of_None [OF o(1), of ?t] exit_pid [OF k'] by (simp add: abs_sys_def)
qed

lemma switch_simulates:
  assumes inv: "table_inv s" and adm: "admitted (Ev_switch n) (abs_sys s)"
  shows "\<exists>k'. scheduler_on_schedule (current s) n (kern s) = Some k' \<and> counts_ok k' \<and>
    (\<forall>t. get_process_id t k' = get_process_id t (kern s)) \<and>
    abs_sys (s\<lparr>kern := k', current := n\<rparr>) = table_step (Ev_switch n) (abs_sys s)"
proof -
  let ?k = "kern s"
  have ok: "kernel_ok ?k" "counts_ok ?k" using inv by (auto simp: table_inv_def sys_inv_def)
  have "n = -1 \<or> process_of ?k n \<noteq> None \<or> process_of ?k (current s) = None" using adm by (auto simp: abs_sys_def)
  then have "n = -1 \<or> 0 \<le> get_process_id n ?k \<or> get_process_id (current s) ?k = get_process_id n ?k"
    unfolding process_of_None [OF ok(1)] using get_process_id_range [OF ok(1), of n] by linarith
  from schedule_defined [OF ok(1) this] obtain k' where k': "scheduler_on_schedule (current s) n ?k = Some k'" by blast
  note f = schedule_frame [OF k']
  have g: "get_process_id t k' = get_process_id t ?k" for t by (rule get_process_id_cong) (rule f(2))
  then have "process_of k' = process_of ?k" by (simp add: process_of_def fun_eq_iff)
  then show ?thesis using k' g counts_cong [OF f(1,2)] f(3) ok(2) by (simp add: abs_sys_def)
qed

text \<open>The hooks are defined for every admitted event, follow the table and keep the invariant.\<close>

lemma event_simulates:
  assumes "table_inv s" "admitted e (abs_sys s)"
  shows "\<exists>s'. do_event e s = Some s' \<and> sys_step s s' \<and> table_inv s' \<and> abs_sys s' = table_step e (abs_sys s)"
proof -
  have "\<exists>s'. do_event e s = Some s' \<and> sys_step s s' \<and> counts_ok (kern s') \<and>
    (\<forall>t. t \<notin> alive s' \<longrightarrow> get_process_id t (kern s') = -1) \<and> abs_sys s' = table_step e (abs_sys s)"
  proof (cases e)
    case (Ev_create t flags)
    then have adm: "admitted (Ev_create t flags) (abs_sys s)" using assms(2) by simp
    obtain r k' where k': "scheduler_on_create t flags (kern s) = Some (r, k')" "counts_ok k'"
        "r \<noteq> 0 \<longrightarrow> get_process_id t k' = -1"
        "abs_sys (s\<lparr>kern := k', alive := if r = 0 then insert t (alive s) else alive s\<rparr>) = table_step e (abs_sys s)"
      using create_simulates [OF assms(1) adm] Ev_create by blast
    have "sys_step s (s\<lparr>kern := k', alive := if r = 0 then insert t (alive s) else alive s\<rparr>)"
      by (rule sys_step.create [OF _ _ _ _ k'(1)]) (use adm in \<open>auto simp: abs_sys_def\<close>)
    moreover have "get_process_id t' k' = -1" if "t' \<notin> alive s" "t' \<noteq> t \<or> r \<noteq> 0" for t'
      using that k'(3) scheduler_on_create_ok(3) [OF _ k'(1), of t'] assms(1)
      by (cases "t' = t") (auto simp: table_inv_def sys_inv_def)
    ultimately show ?thesis using k' Ev_create by (intro exI conjI) auto
  next
    case Ev_exit
    then have adm: "admitted Ev_exit (abs_sys s)" using assms(2) by simp
    obtain k' where k': "scheduler_on_exit (current s) (kern s) = Some k'" "counts_ok k'" "get_process_id (current s) k' = -1"
        "abs_sys (s\<lparr>kern := k', alive := alive s - {current s}\<rparr>) = table_step e (abs_sys s)"
      using exit_simulates [OF assms(1) adm] Ev_exit by blast
    have "sys_step s (s\<lparr>kern := k', alive := alive s - {current s}\<rparr>)"
      by (rule sys_step.exit [OF _ k'(1)]) (use adm in \<open>auto simp: abs_sys_def\<close>)
    moreover have "get_process_id t' k' = -1" if "t' \<notin> alive s - {current s}" for t'
      using that k'(3) scheduler_on_exit_ok(4) [OF _ k'(1), of t'] assms(1)
      by (cases "t' = current s") (auto simp: table_inv_def sys_inv_def)
    ultimately show ?thesis using k' Ev_exit by (intro exI conjI) auto
  next
    case (Ev_switch n)
    then have adm: "admitted (Ev_switch n) (abs_sys s)" using assms(2) by simp
    obtain k' where k': "scheduler_on_schedule (current s) n (kern s) = Some k'" "counts_ok k'"
        "\<forall>t. get_process_id t k' = get_process_id t (kern s)"
        "abs_sys (s\<lparr>kern := k', current := n\<rparr>) = table_step e (abs_sys s)"
      using switch_simulates [OF assms(1) adm] Ev_switch by blast
    have "sys_step s (s\<lparr>kern := k', current := n\<rparr>)"
      by (rule sys_step.schedule [OF _ k'(1)]) (use adm in \<open>auto simp: abs_sys_def\<close>)
    then show ?thesis using k' Ev_switch assms(1) by (intro exI conjI) (auto simp: table_inv_def)
  qed
  then show ?thesis using sys_step_inv assms(1) unfolding table_inv_def by blast
qed

subsection \<open>Runs\<close>

lemma run_simulates:
  assumes "table_inv s" "all_admitted es (abs_sys s)"
  shows "\<exists>s'. run_events es s = Some s' \<and> table_inv s' \<and> abs_sys s' = table_run es (abs_sys s)"
  using assms
proof (induction es arbitrary: s)
  case (Cons e es)
  obtain s1 where s1: "do_event e s = Some s1" "table_inv s1" "abs_sys s1 = table_step e (abs_sys s)"
    using event_simulates [OF Cons.prems(1)] Cons.prems(2) by auto
  then show ?case using Cons.IH [OF s1(2)] Cons.prems(2) by auto
qed simp

lemma boot_table_inv:
  assumes "kernel_loaded k" "0 \<le> t" "t < 32"
  shows "table_inv (boot_sys a t k)" "abs_sys (boot_sys a t k) = boot_table t"
proof -
  note b = boot_kernel_ok [OF assms(1), where a = a]
  show "table_inv (boot_sys a t k)"
    using boot_sys_inv [OF assms] boot_kernel_counts(1) [OF assms(1)] b(2) by (simp add: table_inv_def boot_sys_def)
  show "abs_sys (boot_sys a t k) = boot_table t"
    using boot_kernel_pid [OF assms(1)] b(2) by (simp add: abs_sys_def boot_table_def boot_sys_def process_of_def fun_eq_iff)
qed

lemma run_events_append: "run_events (es @ fs) s = Option.bind (run_events es s) (run_events fs)"
  by (induction es arbitrary: s) (auto split: bind_split)

lemma run_events_snoc: "run_events (es @ [e]) s = Option.bind (run_events es s) (do_event e)"
proof -
  have "run_events [e] s' = do_event e s'" for s' by (cases "do_event e s'") simp_all
  then show ?thesis unfolding run_events_append by presburger
qed

lemma all_admitted_append: "all_admitted (es @ fs) T \<longleftrightarrow> all_admitted es T \<and> all_admitted fs (table_run es T)"
  by (induction es arbitrary: T) auto

subsection \<open>The first free process, without the counts\<close>

lemma find_free_cong:
  assumes "map reserved (process_array k') = map reserved (process_array k)" "length (process_array k) = 8"
  shows "find_free_process_address k' = find_free_process_address k"
proof -
  have "reserved (process_array k' ! i) = reserved (process_array k ! i)" if "i < 8" for i
    using assms that by (metis length_map nth_map)
  then have "find (\<lambda>i. reserved (process_array k' ! i) = 0) [0..<8] = find (\<lambda>i. reserved (process_array k ! i) = 0) [0..<8]"
    by (intro find_cong) auto
  then show ?thesis by (simp add: find_free_process_address_def MAX_PROCESSES_def find_free_from_find)
qed

lemma child_joins_newest:
  assumes "kernel_ok k" "0 \<le> t" "t < 32" "scheduler_on_create t CHILD k = Some (r, k')"
  shows "get_process_id t k' = scheduler_pid k"
proof -
  have r: "0 \<le> scheduler_pid k" "scheduler_pid k < 8" using assms(1) by (auto simp: kernel_ok_def)
  obtain k1 where k1: "set_thread_process t (scheduler_pid k) k = Some k1"
    using set_thread_Some [OF assms(1-3)] by blast
  note o = set_thread_process_ok [OF assms(1) k1 _ r(2)]
  have "upd_proc (scheduler_pid k) (\<lambda>p. p\<lparr>threads_active := threads_active p + 1\<rparr>) k1 = Some k'"
    using assms(2,4) r k1 o(3) by (auto simp: scheduler_on_create_def CHILD_def PARENT_def split: bind_splits)
  then have "thread_process_arr k' = thread_process_arr k1" by (auto simp: upd_proc_def split: if_splits bind_splits)
  then show ?thesis using get_process_id_cong [of k' k1 t] o(4) r by simp
qed

lemma parent_gets_first_free:
  assumes "kernel_ok k" "0 \<le> t" "t < 32" "find_free_process_address k \<noteq> -1" "scheduler_on_create t PARENT k = Some (r, k')"
  shows "r = 0" "get_process_id t k' = find_free_process_address k"
proof -
  define p where "p = find_free_process_address k"
  have p: "0 \<le> p" "p < 8" "p \<noteq> -1" using find_free_process_range [of k] assms(4) by (auto simp: p_def)
  have arr: "thread_process_arr k2 = thread_process_arr k1" if "upd_proc i f k1 = Some k2" for i f k1 k2
    using that by (auto simp: upd_proc_def split: if_splits bind_splits)
  have cpy: "thread_process_arr k2 = thread_process_arr k1" if "copy_userdata_template a k1 = Some k2" for a k1 k2
    using that by (auto simp: copy_userdata_template_def split: bind_splits)
  obtain k1 where k1: "process_create t k = Some (p, k1)"
    using process_create_defined [OF assms(1-3)] p by (auto simp: process_create_def Let_def p_def [symmetric] split: bind_splits)
  obtain k0 where k0: "set_thread_process t p k = Some k0" using set_thread_Some [OF assms(1-3)] by blast
  have a1: "thread_process_arr k1 = thread_process_arr k0"
    using k1 k0 p(3) by (auto simp: process_create_def Let_def p_def [symmetric] split: bind_splits dest!: arr cpy)
  obtain k2 where k2: "upd_proc p (\<lambda>p. p\<lparr>threads_active := threads_active p + 1\<rparr>) k1 = Some k2"
      "r = 0" "k' = k2\<lparr>scheduler_pid := p\<rparr>"
    using assms(2,5) k1 p(3) by (auto simp: scheduler_on_create_def split: bind_splits)
  show "r = 0" by (rule k2(2))
  have "thread_process_arr k' = thread_process_arr k0" using k2(3) arr [OF k2(1)] a1 by simp
  then show "get_process_id t k' = find_free_process_address k"
    using get_process_id_cong [of k' k0 t] set_thread_process_ok(4) [OF assms(1) k0, of t] p by (simp add: p_def)
qed

end
