(* ===== verification/Process_Properties.thy ===== *)
theory Process_Properties imports Process_Table Kernel_Properties begin

text \<open>
  The properties of the processes over whole runs of the scheduler: the hooks implement the table
  of \<^verbatim>\<open>Process_Table\<close>, and what follows for processes being shared.
\<close>

text \<open>C4. From the boot state, every sequence of events that the table admits runs without leaving an
  array of the kernel (an access outside one, \<open>process_array[-1]\<close> included, would make the run \<open>None\<close>),
  and the hooks and the table stay in step: the threads are in the processes
  the table says, each process counts exactly its threads and is reserved exactly while it has
  some, and the mapped sections are those of the current thread's process.\<close>

theorem hooks_refine_process_table:
  assumes "kernel_loaded k" "0 \<le> t" "t < 32" "all_admitted es (boot_table t)"
  shows "\<exists>s. run_events es (boot_sys a t k) = Some s \<and> abs_sys s = table_run es (boot_table t) \<and> counts_ok (kern s) \<and>
    (\<forall>p. process_of (kern s) (current s) = Some p \<longrightarrow> maps_process (kern s) (int p))"
proof -
  note b = boot_table_inv [OF assms(1-3), where a = a]
  obtain s where s: "run_events es (boot_sys a t k) = Some s" "table_inv s" "abs_sys s = table_run es (boot_table t)"
    using run_simulates [OF b(1)] b(2) assms(4) by auto
  have "maps_process (kern s) (int p)" if "process_of (kern s) (current s) = Some p" for p
    using that s(2) by (auto simp: process_of_def table_inv_def sys_inv_def split: if_splits)
  then show ?thesis using s by (auto simp: table_inv_def)
qed

text \<open>Two parents; the second has a child, and both end.\<close>

definition two_parents :: "sched_event list" where
  "two_parents = [Ev_create 2 PARENT, Ev_switch 2, Ev_create 3 PARENT, Ev_switch 3, Ev_create 4 CHILD, Ev_exit,
     Ev_switch 4, Ev_exit]"

theorem hooks_refine_process_table_witness:
  "\<exists>s. run_events two_parents (boot_sys 0 0 blank_kernel) = Some s \<and> counts_ok (kern s) \<and>
     process_of (kern s) 2 = Some 0 \<and> process_of (kern s) 3 = None"
proof -
  have "all_admitted two_parents (boot_table 0)" by code_simp
  moreover have "owner (table_run two_parents (boot_table 0)) 2 = Some 0" by code_simp
  moreover have "owner (table_run two_parents (boot_table 0)) 3 = None" by code_simp
  ultimately show ?thesis
    using hooks_refine_process_table [OF blank_loaded(1), of 0 two_parents 0] by (auto simp: abs_sys_def dest!: sym [of _ "table_run _ _"])
qed

text \<open>C5. In such a run a thread that is created with the flags of a parent shares its process with no
  other thread, and the process counts this one thread: whatever threads have come and gone
  before, a process is given out again only when nobody is left in it.\<close>

theorem new_process_unshared:
  assumes "kernel_loaded k" "0 \<le> t" "t < 32" "all_admitted (es @ [Ev_create i PARENT]) (boot_table t)"
    and "run_events (es @ [Ev_create i PARENT]) (boot_sys a t k) = Some s" "process_of (kern s) i = Some p"
  shows "(\<forall>j. j \<noteq> i \<longrightarrow> process_of (kern s) j \<noteq> Some p) \<and> p < 8 \<and>
    reserved (process_array (kern s) ! p) = 1 \<and> threads_active (process_array (kern s) ! p) = 1"
proof -
  let ?T = "table_run es (boot_table t)"
  note b = boot_table_inv [OF assms(1-3), where a = a]
  have adm: "all_admitted es (boot_table t)" "admitted (Ev_create i PARENT) ?T"
    using assms(4) by (simp_all add: all_admitted_append)
  obtain s1 where s1: "run_events es (boot_sys a t k) = Some s1" "table_inv s1" "abs_sys s1 = ?T"
    using run_simulates [OF b(1)] b(2) adm(1) by auto
  then have s: "do_event (Ev_create i PARENT) s1 = Some s" using assms(5) by (simp add: run_events_snoc del: do_event.simps)
  then have st: "table_inv s" "abs_sys s = table_step (Ev_create i PARENT) (abs_sys s1)"
    using event_simulates [OF s1(2) adm(2) [folded s1(3)]] by (metis option.inject)+
  have ok: "kernel_ok (kern s1)" "counts_ok (kern s1)" "kernel_ok (kern s)" "counts_ok (kern s)"
    using s1(2) st(1) by (simp_all add: table_inv_def sys_inv_def)
  have i: "get_process_id i (kern s1) = -1" using adm(2) [folded s1(3)] s1(2) by (simp add: table_inv_def abs_sys_def)
  then have "process_of (kern s1) i = None" by (simp add: process_of_def)
  then obtain q where q: "first_free (abs_sys s1) = Some q" "process_of (kern s) = (process_of (kern s1))(i := Some q)"
    using st(2) assms(6) by (cases "first_free (abs_sys s1)") (auto simp: abs_sys_def)
  then have p: "p = q" "p < 8" "\<not> in_use (abs_sys s1) p"
    using assms(6) by (auto simp: first_free_def find_Some_iff)
  then have "reserved (process_array (kern s1) ! p) = 0" using in_use_reserved [OF ok(1,2)] by simp
  then have alone: "\<forall>j. j \<noteq> i \<longrightarrow> process_of (kern s) j \<noteq> Some p"
    using reserved_iff_thread [OF ok(1,2) p(2)] q(2) by (auto simp: process_of_def split: if_splits)
  have one: "threads_of (kern s) (int p) = 1"
    by (rule threads_of_one [OF ok(3) _ assms(6)]) (use alone in blast)
  then show ?thesis using alone p(2) ok(4) by (auto simp: counts_ok_def)
qed

theorem new_process_unshared_witness:
  "\<exists>s p. run_events (two_parents @ [Ev_switch 2, Ev_create 5 PARENT]) (boot_sys 0 0 blank_kernel) = Some s \<and>
     process_of (kern s) 5 = Some p \<and> process_of (kern s) 2 \<noteq> Some p"
proof -
  let ?es = "(two_parents @ [Ev_switch 2]) @ [Ev_create 5 PARENT]"
  have adm: "all_admitted ?es (boot_table 0)" by code_simp
  have "owner (table_run ?es (boot_table 0)) 5 = Some 1" by code_simp
  moreover obtain s where s: "run_events ?es (boot_sys 0 0 blank_kernel) = Some s" "abs_sys s = table_run ?es (boot_table 0)"
    using run_simulates [OF boot_table_inv(1) [OF blank_loaded(1)], of 0 ?es 0] boot_table_inv(2) [OF blank_loaded(1), of 0 0] adm
    by auto
  ultimately have "process_of (kern s) 5 = Some 1" by (metis abs_sys_def process_table.select_convs(1))
  moreover from new_process_unshared [OF blank_loaded(1) _ _ adm s(1) this] have "process_of (kern s) 2 \<noteq> Some 1" by simp
  ultimately show ?thesis using s(1) by auto
qed

text \<open>C18. What the table excludes goes wrong: when the process created last is empty again, a child
  still joins it, but does not reserve it. The next parent gets the same process, so two
  applications that were to be separate have one data and one heap section.\<close>

theorem freed_process_shared:
  assumes "kernel_loaded k"
  shows "\<exists>s. run_events [Ev_create 2 PARENT, Ev_create 3 PARENT, Ev_switch 3, Ev_exit, Ev_switch 2, Ev_create 4 CHILD,
      Ev_create 5 PARENT] (boot_sys a 0 k) = Some s \<and> alive s = {0, 2, 4, 5} \<and>
    get_process_id 4 (kern s) = get_process_id 5 (kern s) \<and> get_process_id 2 (kern s) \<noteq> get_process_id 4 (kern s)"
proof -
  define es where "es = [Ev_create 2 PARENT, Ev_create 3 PARENT, Ev_switch 3, Ev_exit, Ev_switch 2]"
  let ?T = "table_run es (boot_table 0)"
  have T: "all_admitted es (boot_table 0)" "owner ?T 2 = Some 0" "newest ?T = 1" "first_free ?T = Some 1"
    unfolding es_def by code_simp+
  have l: "living ?T = {0, 2}" unfolding es_def by code_simp
  note b = boot_table_inv [OF assms, of 0, where a = a]
  obtain s where s: "run_events es (boot_sys a 0 k) = Some s" "table_inv s" "abs_sys s = ?T"
    using run_simulates [OF b(1)] b(2) T(1) by auto
  have ok: "kernel_ok (kern s)" "counts_ok (kern s)" using s(2) by (auto simp: table_inv_def sys_inv_def)
  have "first_free (abs_sys s) = Some 1" using T(4) by (simp only: s(3))
  then have free: "find_free_process_address (kern s) = 1"
    using first_free_abs [OF ok] find_free_process_range [of "kern s"] by (auto split: if_splits)
  have "nat (scheduler_pid (kern s)) = 1" "process_of (kern s) 2 = Some 0" "alive s = {0, 2}"
    using T(2,3) l unfolding s(3) [symmetric] by (simp_all add: abs_sys_def)
  then have pid: "scheduler_pid (kern s) = 1" and two: "get_process_id 2 (kern s) = 0" and al: "alive s = {0, 2}"
    by (auto simp: process_of_def split: if_splits)
  obtain r k1 where k1: "scheduler_on_create 4 CHILD (kern s) = Some (r, k1)" using create_defined [OF ok(1), of 4 CHILD] by (auto simp: CHILD_def PARENT_def)
  note c = create_child_frame [OF k1] and o1 = scheduler_on_create_ok [OF ok(1) k1]
  have g4: "get_process_id 4 k1 = 1" using child_joins_newest [OF ok(1) _ _ k1] pid by simp
  have f1: "find_free_process_address k1 = 1" using find_free_cong [OF c(3)] ok(1) free by (simp add: kernel_ok_def)
  obtain r2 k2 where k2: "scheduler_on_create 5 PARENT k1 = Some (r2, k2)" using create_defined [OF o1(1), of 5 PARENT] f1 by auto
  have g5: "r2 = 0" "get_process_id 5 k2 = 1" using parent_gets_first_free [OF o1(1) _ _ _ k2] f1 by simp_all
  note o2 = scheduler_on_create_ok [OF o1(1) k2]
  let ?s = "s\<lparr>kern := k2, alive := {0, 2, 4, 5}\<rparr>"
  have "run_events [Ev_create 4 CHILD, Ev_create 5 PARENT] s = Some ?s"
    using k1 k2 c(1) g5(1) al by (simp add: insert_commute)
  then have "run_events (es @ [Ev_create 4 CHILD, Ev_create 5 PARENT]) (boot_sys a 0 k) = Some ?s"
    unfolding run_events_append s(1) by simp
  then show ?thesis unfolding es_def using g4 g5(2) two o1(3) [of 2] o2(3) [of 2] o2(3) [of 4] by simp
qed

theorem freed_process_shared_witness:
  "\<exists>s. run_events [Ev_create 2 PARENT, Ev_create 3 PARENT, Ev_switch 3, Ev_exit, Ev_switch 2, Ev_create 4 CHILD,
      Ev_create 5 PARENT] (boot_sys 0 0 blank_kernel) = Some s \<and> get_process_id 4 (kern s) = get_process_id 5 (kern s)"
  using freed_process_shared [OF blank_loaded(1), of 0] by blast




end
