(* ===== verification/Entry.thy ===== *)
theory Entry imports OS_Prelude begin

text \<open>
  The first instructions of the kernel, \<^verbatim>\<open>system/entry.S\<close>, as a machine with the instructions that
  occur there. The program counter is the number of the instruction, \<open>None\<close> once control is in
  \<open>start_kernel\<close>; registers hold addresses, and the linker puts the code at 0x100000
  (\<^verbatim>\<open>kernel.lds\<close>).
\<close>

subsection \<open>The machine\<close>

datatype reg = R0 | R1 | SP | LR

datatype instr =
    Mrs_cpsr reg
  | And_imm reg reg u32
  | Bic_imm reg reg u32
  | Orr_imm reg reg u32
  | Mov_imm reg u32
  | Ldr_const reg u32
  | Cmp reg reg
  | Tst_imm reg u32
  | Beq nat
  | Bne nat
  | B nat
  | Bl_start_kernel
  | Mrc_mpidr reg
  | Msr_elr_hyp reg
  | Msr_spsr_hyp reg
  | Eret
  | Wfi

record cpu =
  rg :: "reg \<Rightarrow> u32"
  cpsr :: u32
  elr_hyp :: u32
  spsr_hyp :: u32
  mpidr :: u32
  at :: "nat option"

definition set_reg :: "reg \<Rightarrow> u32 \<Rightarrow> cpu \<Rightarrow> cpu" where
  "set_reg d v c = c\<lparr>rg := (rg c)(d := v)\<rparr>"

text \<open>The condition flags N, Z, C and V are the bits 31 to 28 of CPSR.\<close>

definition set_flags :: "bool \<Rightarrow> bool \<Rightarrow> bool \<Rightarrow> bool \<Rightarrow> cpu \<Rightarrow> cpu" where
  "set_flags n z cy v c = c\<lparr>cpsr := (cpsr c AND mask 28) OR push_bit 31 (of_bool n) OR push_bit 30 (of_bool z) OR
     push_bit 29 (of_bool cy) OR push_bit 28 (of_bool v)\<rparr>"

definition z_flag :: "cpu \<Rightarrow> bool" where "z_flag c \<longleftrightarrow> bit (cpsr c) 30"

definition code_address :: "nat \<Rightarrow> u32" where "code_address i = 0x100000 + 4 * of_nat i"
definition code_index :: "u32 \<Rightarrow> nat" where "code_index a = (unat a - 0x100000) div 4"

text \<open>Execution of the instruction \<open>i\<close>; the ones that do not branch go on with the next.\<close>

fun exec_instr :: "nat \<Rightarrow> instr \<Rightarrow> cpu \<Rightarrow> cpu" where
  "exec_instr i (Mrs_cpsr d) c = set_reg d (cpsr c) (c\<lparr>at := Some (i + 1)\<rparr>)"
| "exec_instr i (And_imm d a v) c = set_reg d (rg c a AND v) (c\<lparr>at := Some (i + 1)\<rparr>)"
| "exec_instr i (Bic_imm d a v) c = set_reg d (rg c a AND NOT v) (c\<lparr>at := Some (i + 1)\<rparr>)"
| "exec_instr i (Orr_imm d a v) c = set_reg d (rg c a OR v) (c\<lparr>at := Some (i + 1)\<rparr>)"
| "exec_instr i (Mov_imm d v) c = set_reg d v (c\<lparr>at := Some (i + 1)\<rparr>)"
| "exec_instr i (Ldr_const d v) c = set_reg d v (c\<lparr>at := Some (i + 1)\<rparr>)"
| "exec_instr i (Cmp a b) c = (let x = rg c a; y = rg c b in
     set_flags (bit (x - y) 31) (x = y) (y \<le> x) (sint (x - y) \<noteq> sint x - sint y) (c\<lparr>at := Some (i + 1)\<rparr>))"
| "exec_instr i (Tst_imm a v) c = (let x = rg c a AND v in
     set_flags (bit x 31) (x = 0) (bit (cpsr c) 29) (bit (cpsr c) 28) (c\<lparr>at := Some (i + 1)\<rparr>))"
| "exec_instr i (Beq j) c = c\<lparr>at := Some (if z_flag c then j else i + 1)\<rparr>"
| "exec_instr i (Bne j) c = c\<lparr>at := Some (if z_flag c then i + 1 else j)\<rparr>"
| "exec_instr i (B j) c = c\<lparr>at := Some j\<rparr>"
| "exec_instr i Bl_start_kernel c = set_reg LR (code_address (i + 1)) (c\<lparr>at := None\<rparr>)"
| "exec_instr i (Mrc_mpidr d) c = set_reg d (mpidr c) (c\<lparr>at := Some (i + 1)\<rparr>)"
| "exec_instr i (Msr_elr_hyp a) c = c\<lparr>elr_hyp := rg c a, at := Some (i + 1)\<rparr>"
| "exec_instr i (Msr_spsr_hyp a) c = c\<lparr>spsr_hyp := rg c a, at := Some (i + 1)\<rparr>"
| "exec_instr i Eret c = c\<lparr>cpsr := spsr_hyp c, at := Some (code_index (elr_hyp c))\<rparr>"
| "exec_instr i Wfi c = c\<lparr>at := Some (i + 1)\<rparr>"

subsection \<open>entry.S\<close>

definition loopCores :: nat where "loopCores = 5"
definition Lend :: nat where "Lend = 10"
definition exitHyper :: nat where "exitHyper = 12"

definition entry_code :: "instr list" where
  "entry_code =
    [Mrs_cpsr R0,
     And_imm R0 R0 0x1F,
     Mov_imm R1 0x1A,
     Cmp R0 R1,
     Beq exitHyper,
     Mrc_mpidr R0,
     Tst_imm R0 3,
     Bne Lend,
     Ldr_const SP 0x20000,
     Bl_start_kernel,
     Wfi,
     B Lend,
     Ldr_const LR (code_address loopCores),
     Msr_elr_hyp LR,
     Mrs_cpsr R0,
     Bic_imm R0 R0 0x1F,
     Orr_imm R0 R0 0x13,
     Msr_spsr_hyp R0,
     Eret]"

lemmas entry_labels = loopCores_def Lend_def exitHyper_def

definition cpu_step :: "cpu \<Rightarrow> cpu" where
  "cpu_step c = (case at c of None \<Rightarrow> c | Some i \<Rightarrow> exec_instr i (entry_code ! i) c)"

text \<open>The processor begins at \<open>_start\<close>, with whatever is in its registers.\<close>

definition at_start :: "cpu \<Rightarrow> cpu" where "at_start c = c\<lparr>at := Some 0\<rparr>"

subsection \<open>Stretches of the code\<close>

lemma code_index_address: "i < 100 \<Longrightarrow> code_index (code_address i) = i"
  by (simp add: code_index_def code_address_def unat_word_ariths unat_of_nat)

lemma flags_fields [simp]:
  "z_flag (set_flags n z cy v c) = z" "rg (set_flags n z cy v c) = rg c" "mpidr (set_flags n z cy v c) = mpidr c"
  "at (set_flags n z cy v c) = at c"
  by (simp_all add: set_flags_def z_flag_def bit_simps)

text \<open>CPSR without the condition flags.\<close>

definition control_bits :: "u32 \<Rightarrow> u32" where "control_bits p = p AND mask 28"

lemma flags_keep [simp]: "control_bits (cpsr (set_flags n z cy v c)) = control_bits (cpsr c)"
  unfolding set_flags_def cpu.simps control_bits_def by (rule bit_word_eqI) (auto simp: bit_simps)

lemma reg_fields [simp]:
  "rg (set_reg d v c) d = v" "d' \<noteq> d \<Longrightarrow> rg (set_reg d v c) d' = rg c d'" "z_flag (set_reg d v c) = z_flag c"
  "cpsr (set_reg d v c) = cpsr c" "mpidr (set_reg d v c) = mpidr c" "at (set_reg d v c) = at c"
  "elr_hyp (set_reg d v c) = elr_hyp c" "spsr_hyp (set_reg d v c) = spsr_hyp c"
  by (simp_all add: set_reg_def z_flag_def)

text \<open>What the code keeps: the control bits and the number of the core.\<close>

definition same_core :: "cpu \<Rightarrow> cpu \<Rightarrow> bool" where
  "same_core c c' \<longleftrightarrow> control_bits (cpsr c') = control_bits (cpsr c) \<and> mpidr c' = mpidr c"

lemmas run_code = cpu_step_def entry_code_def entry_labels same_core_def

lemma run_start:
  assumes "at c = Some 0"
  shows "at ((cpu_step ^^ 5) c) = Some (if cpsr c AND 0x1F = 0x1A then exitHyper else loopCores)"
    "same_core c ((cpu_step ^^ 5) c)"
  using assms by (simp_all add: run_code eval_nat_numeral Let_def)

lemma run_exitHyper:
  assumes "at c = Some exitHyper"
  shows "at ((cpu_step ^^ 7) c) = Some loopCores" "cpsr ((cpu_step ^^ 7) c) = (cpsr c AND NOT 0x1F) OR 0x13"
    "mpidr ((cpu_step ^^ 7) c) = mpidr c"
  using assms by (simp_all add: run_code eval_nat_numeral Let_def code_index_address)

lemma run_loopCores:
  assumes "at c = Some loopCores"
  shows "at ((cpu_step ^^ 3) c) = Some (if mpidr c AND 3 = 0 then 8 else Lend)" "same_core c ((cpu_step ^^ 3) c)"
  using assms by (simp_all add: run_code eval_nat_numeral Let_def)

lemma run_bsprak:
  assumes "at c = Some 8"
  shows "at ((cpu_step ^^ 2) c) = None" "rg ((cpu_step ^^ 2) c) SP = 0x20000" "same_core c ((cpu_step ^^ 2) c)"
  using assms by (simp_all add: run_code eval_nat_numeral Let_def)

lemma run_parked:
  assumes "at c \<in> {Some Lend, Some (Lend + 1)}"
  shows "at ((cpu_step ^^ n) c) \<in> {Some Lend, Some (Lend + 1)}"
proof (induction n)
  case (Suc n)
  then show ?case by (auto simp: run_code)
qed (use assms in simp)

lemma run_left:
  assumes "at c = None"
  shows "(cpu_step ^^ n) c = c"
  by (induction n) (use assms in \<open>simp_all add: cpu_step_def\<close>)

subsection \<open>The mode of the processor\<close>

lemma mode_of_control: "control_bits p = control_bits q \<Longrightarrow> p AND 0x1F = q AND 0x1F"
proof -
  have "p AND 0x1F = control_bits p AND 0x1F" for p
  proof -
    have m: "(0x1F :: u32) = mask 5" by (simp add: mask_eq_exp_minus_1)
    show ?thesis unfolding m control_bits_def by (rule bit_word_eqI) (auto simp: bit_simps)
  qed
  then show "control_bits p = control_bits q \<Longrightarrow> p AND 0x1F = q AND 0x1F" by metis
qed

lemma supervisor_mode:
  "((p AND NOT 0x1F) OR 0x13) AND 0x1F = (0x13 :: u32)"
  "control_bits ((p AND NOT 0x1F) OR 0x13) AND NOT 0x1F = control_bits p AND NOT 0x1F"
proof -
  have "(p AND NOT 0x1F) AND 0x1F = 0" by (simp add: and.assoc)
  then show "((p AND NOT 0x1F) OR 0x13) AND 0x1F = (0x13 :: u32)" by (simp add: bit.conj_disj_distrib2)
  have m: "(0x1F :: u32) = mask 5" "(0x13 :: u32) = 0x13 AND mask 5" by (simp_all add: mask_eq_exp_minus_1)
  have "(((p AND NOT (mask 5)) OR (x AND mask 5)) AND mask 28) AND NOT (mask 5) = (p AND mask 28) AND NOT (mask 5)" for x :: u32
    by (rule bit_word_eqI) (auto simp: bit_simps)
  from this [of "0x13"] show "control_bits ((p AND NOT 0x1F) OR 0x13) AND NOT 0x1F = control_bits p AND NOT 0x1F"
    by (simp only: control_bits_def m(2) [symmetric] m(1))
qed

text \<open>At \<open>_loopCores\<close> the processor is no longer in the hypervisor's mode.\<close>

lemma reach_loopCores:
  "\<exists>m \<in> {5, 12}. let c' = (cpu_step ^^ m) (at_start c) in at c' = Some loopCores \<and> mpidr c' = mpidr c \<and>
     cpsr c' AND 0x1F = (if cpsr c AND 0x1F = 0x1A then 0x13 else cpsr c AND 0x1F) \<and>
     control_bits (cpsr c') AND NOT 0x1F = control_bits (cpsr c) AND NOT 0x1F"
proof -
  let ?c1 = "(cpu_step ^^ 5) (at_start c)"
  have f: "at (at_start c) = Some 0" "cpsr (at_start c) = cpsr c" "mpidr (at_start c) = mpidr c" by (simp_all add: at_start_def)
  have s: "control_bits (cpsr ?c1) = control_bits (cpsr c)" "mpidr ?c1 = mpidr c"
    using run_start(2) [OF f(1)] f by (simp_all add: same_core_def)
  show ?thesis
  proof (cases "cpsr c AND 0x1F = 0x1A")
    case False
    then have "at ?c1 = Some loopCores" using run_start(1) [OF f(1)] f(2) by simp
    then show ?thesis using s mode_of_control [OF s(1)] False by (intro bexI [of _ 5]) (simp_all add: Let_def)
  next
    case True
    then have h: "at ?c1 = Some exitHyper" using run_start(1) [OF f(1)] f(2) by simp
    have "(cpu_step ^^ 12) (at_start c) = (cpu_step ^^ 7) ?c1" using funpow_add [of 7 5 cpu_step] by simp
    then show ?thesis
      using run_exitHyper [OF h] s True supervisor_mode [of "cpsr ?c1"] by (intro bexI [of _ 12]) (simp_all add: Let_def)
  qed
qed

subsection \<open>All cores\<close>

lemma entry_runs:
  "let c' = (cpu_step ^^ (17 + n)) (at_start c) in
     if mpidr c AND 3 = 0 then
       at c' = None \<and> rg c' SP = 0x20000 \<and>
       cpsr c' AND 0x1F = (if cpsr c AND 0x1F = 0x1A then 0x13 else cpsr c AND 0x1F) \<and>
       control_bits (cpsr c') AND NOT 0x1F = control_bits (cpsr c) AND NOT 0x1F
     else at c' \<in> {Some Lend, Some (Lend + 1)}"
proof -
  obtain m where m: "m = 5 \<or> m = 12" and c1: "at ((cpu_step ^^ m) (at_start c)) = Some loopCores"
      "mpidr ((cpu_step ^^ m) (at_start c)) = mpidr c"
      "cpsr ((cpu_step ^^ m) (at_start c)) AND 0x1F = (if cpsr c AND 0x1F = 0x1A then 0x13 else cpsr c AND 0x1F)"
      "control_bits (cpsr ((cpu_step ^^ m) (at_start c))) AND NOT 0x1F = control_bits (cpsr c) AND NOT 0x1F"
    using reach_loopCores [of c] by (auto simp: Let_def)
  define c1 where "c1 = (cpu_step ^^ m) (at_start c)"
  define c2 where "c2 = (cpu_step ^^ 3) c1"
  define r where "r = 14 + n - m"
  have r: "17 + n = r + (3 + m)" "2 \<le> r" using m by (auto simp: r_def)
  have end_: "(cpu_step ^^ (17 + n)) (at_start c) = (cpu_step ^^ r) c2"
    unfolding r(1) funpow_add by (simp add: c1_def c2_def)
  note l = run_loopCores [OF c1(1), folded c1_def, folded c2_def]
  show ?thesis
  proof (cases "mpidr c AND 3 = 0")
    case False
    then have "at c2 \<in> {Some Lend, Some (Lend + 1)}" using l(1) c1(2) by (simp add: c1_def)
    then show ?thesis using run_parked [of c2 r] False by (simp add: Let_def end_)
  next
    case True
    then have "at c2 = Some 8" using l(1) c1(2) by (simp add: c1_def)
    note b = run_bsprak [OF this]
    have "(cpu_step ^^ r) c2 = (cpu_step ^^ (r - 2)) ((cpu_step ^^ 2) c2)"
      using r(2) by (metis comp_apply funpow_add le_add_diff_inverse2)
    then have e: "(cpu_step ^^ (17 + n)) (at_start c) = (cpu_step ^^ 2) c2" unfolding end_ using run_left [OF b(1)] by simp
    have k: "control_bits (cpsr ((cpu_step ^^ 2) c2)) = control_bits (cpsr c1)"
      using l(2) b(3) by (simp add: same_core_def)
    show ?thesis using True b(1,2) k mode_of_control [OF k] c1(3,4) unfolding e c1_def [symmetric] by (simp add: Let_def)
  qed
qed

end
