(* ===== verification/Entry_Properties.thy ===== *)
theory Entry_Properties imports Entry begin

text \<open>The property of the first instructions of the kernel.\<close>

text \<open>C31. Whatever the registers hold, in whatever mode and on whatever core the processor begins, after
  seventeen instructions core 0 has entered \<open>start_kernel\<close>, with the stack pointer at 0x20000, in
  supervisor mode if it began in hypervisor mode and else in its old mode, with the interrupt masks
  and every other control bit as they were; every other core waits in the endless loop for good.\<close>

theorem only_core_0_starts_kernel:
  "let c' = (cpu_step ^^ (17 + n)) (at_start c) in
     if mpidr c AND 3 = 0 then
       at c' = None \<and> rg c' SP = 0x20000 \<and>
       cpsr c' AND 0x1F = (if cpsr c AND 0x1F = 0x1A then 0x13 else cpsr c AND 0x1F) \<and>
       control_bits (cpsr c') AND NOT 0x1F = control_bits (cpsr c) AND NOT 0x1F
     else at c' \<in> {Some Lend, Some (Lend + 1)}"
  by (rule entry_runs)

end
