(* ===== verification/Spec2Isabelle.thy ===== *)
theory Spec2Isabelle
  imports Heap_Properties Kernel_Properties Memory_Properties Exception_Properties Syscall_Properties Kprintf_Properties
    App_Properties Boot_Properties Process_Properties Entry_Properties
begin

text \<open>
  A verification library for an ARMv7-A teaching operating system (Raspberry Pi 2B): the kernel's
  MMU set-up, processes and scheduler hooks, the exception handler, and the user side's heap,
  formatted output and applications.

  \<^bold>\<open>The program.\<close> \<^verbatim>\<open>system/start.c\<close> hands its stacks to the library \<^verbatim>\<open>out/e4.o\<close>, which brings the board up
  and runs \<open>init\<close>: it sets up the translation table (\<^verbatim>\<open>memory/mmu.c\<close>) and the process tables
  (\<^verbatim>\<open>system/process.c\<close>) and starts the user's first thread (\<^verbatim>\<open>user/src/usr_start.c\<close>). The library's
  scheduler calls the hooks of \<^verbatim>\<open>scheduler/scheduler.c\<close> when a thread is created, ends or is switched
  to; the hooks attach threads to processes and exchange the two sections of the table that hold
  a process's data and heap. Aborts, undefined instructions and unknown system calls arrive in
  \<^verbatim>\<open>system/exceptions.c\<close>; the known system calls and the interrupts are the library's. For each key
  the first thread starts a process: the malloc process, a client of the allocator of \<^verbatim>\<open>user/heap.c\<close>, or the
  counting application, whose threads print with \<^verbatim>\<open>user/user_kprintf.c\<close>.

  \<^bold>\<open>The theories.\<close>
  \<^item> \<^verbatim>\<open>OS_Prelude\<close>: words, byte memory with 32-bit loads and stores (locale \<open>word_store\<close>, interpreted
    by the byte memory), C arrays with their bounds, loops over arrays.
  \<^item> \<^verbatim>\<open>Heap_Model\<close>: \<open>malloc\<close>, \<open>free\<close> and their helpers, statement by statement; the record \<open>heap\<close> has
    the C globals and the memory. \<^verbatim>\<open>Heap_Layout\<close> describes a memory tiled by blocks and its free
    list, \<^verbatim>\<open>Heap_Malloc\<close> and \<^verbatim>\<open>Heap_Free\<close> prove that the code implements \<open>spec_malloc\<close> (first fit with
    splitting) and \<open>spec_free\<close> (joining with the neighbours) on the list of blocks, \<^verbatim>\<open>Block_List\<close> what
    the two do to the map of live blocks, \<^verbatim>\<open>Heap_Interface\<close> the contract of an allocator as a
    locale, interpreted by the model's \<open>malloc\<close> and \<open>free\<close>.
    \<^verbatim>\<open>Heap_Full\<close> and \<^verbatim>\<open>Heap_Early\<close> are the two cases the refinement excludes, a request for exactly what
    is left and a release among the first fifteen calls.
  \<^item> \<^verbatim>\<open>User_Malloc\<close>: the malloc process, proved safe as a client of the contract. \<^verbatim>\<open>Heap_Walk\<close>: the
    debugging output of the heap.
  \<^item> \<^verbatim>\<open>Mmu\<close>: the table (\<open>L1_TABLE\<close>, a list of 4096 words), the registers, the exchange of sections, the
    copy of the user data through the table. \<^verbatim>\<open>Process\<close>: process.c and the hooks of scheduler.c, and
    the locale \<open>address_space\<close> of a switch, interpreted by \<open>process_switch\<close>. \<^verbatim>\<open>Address_Spaces\<close>: the
    system in which a scheduler calls the hooks in any order, with its invariant.
    \<^verbatim>\<open>Process_Count\<close>: the bookkeeping of the threads of a process. \<^verbatim>\<open>Process_Table\<close>: what the hooks
    are for, a table of threads and processes without arrays (\<open>table_step\<close>, with \<open>admitted\<close> for the events
    the hooks can cope with), and the simulation: \<open>abs_sys\<close> of a run of the hooks is the run of the table.
    An access outside an array of the kernel, \<open>process_array[-1]\<close> included, is undefined (\<open>None\<close>).
  \<^item> \<^verbatim>\<open>Entry\<close>: \<^verbatim>\<open>system/entry.S\<close> as a list of instructions with their execution.
  \<^item> \<^verbatim>\<open>Exceptions\<close>: the handler; the functions of the library are one parameter, and the trace
    records their calls; \<open>comes_back\<close> takes the calls that never return as another. \<^verbatim>\<open>Syscalls\<close>: the stubs of \<^verbatim>\<open>user/syscall.S\<close> composed with the kernel. By
    \<^verbatim>\<open>include/exceptions.h\<close> the library serves the five known calls itself and forwards an unknown one to
    the handler, so the handler's own cases for the known calls are modelled but not reached this way.
    \<open>serves\<close> and \<open>announces_as\<close> are what the headers say of a service; the second leaves open what the
    library writes to the stack of a new thread. \<^verbatim>\<open>Kernel_Init\<close>: \<open>init\<close> of \<^verbatim>\<open>system/start.c\<close>.
  \<^item> \<^verbatim>\<open>Usr_Kprintf\<close>, \<^verbatim>\<open>Usr_Strings\<close>: the formatted output and the string routines; \<^verbatim>\<open>Usr_Render\<close>: a
    reference in two passes, and that the code agrees with it. \<^verbatim>\<open>Usr_Micro\<close>: the same code one statement
    at a time, with its position in the format, the global \<open>i\<close>, as shared state.
  \<^item> \<^verbatim>\<open>User_Threads\<close>: the counting application as a step relation over single accesses to its shared
    variables and its calls of \<open>usr_kprintf\<close>; \<^verbatim>\<open>Thread_Progress\<close>: a measure that every step lowers.
    \<^verbatim>\<open>Printing_Threads\<close>: the threads inside \<open>usr_kprintf\<close>, the calm runs in which no call interrupts another,
    and the runs in which one does. \<^verbatim>\<open>User_Apps\<close>: the start thread
    and the deliberate violations. \<^verbatim>\<open>Boot\<close>: \<open>start_kernel\<close> with its stacks, and the LED.
  \<^item> The properties are in \<^verbatim>\<open>Heap_Properties\<close>, \<^verbatim>\<open>Kernel_Properties\<close>, \<^verbatim>\<open>Memory_Properties\<close> (heap and
    sections together), \<^verbatim>\<open>Exception_Properties\<close>, \<^verbatim>\<open>Syscall_Properties\<close>, \<^verbatim>\<open>Kprintf_Properties\<close>, \<^verbatim>\<open>App_Properties\<close> and
    \<^verbatim>\<open>Boot_Properties\<close> (\<open>init\<close>), \<^verbatim>\<open>Process_Properties\<close> (whole runs of the hooks) and
    \<^verbatim>\<open>Entry_Properties\<close>, each with an instance at a concrete input.

  \<^bold>\<open>Bounds.\<close> Loops of the allocator that need not end are \<open>partial_function (option)\<close>, and the theorems
  about them state the result they return. \<open>heap_live\<close> reads the blocks of the memory with fuel
  131072, the number of 8-byte headers in a megabyte. The malloc process is followed for up to
  2147483583 turns: the allocator counts its calls in an \<open>int\<close>, and 64 are made before the loop. A
  run of the counting application has at most \<open>max_steps\<close> accesses and calls, five times the weight of
  its first state and the ranks of its three threads, and at most 200 statements for each of them (a
  line has at most 26 characters and its format 14); the bound also keeps its counters from wrapping.

  \<^bold>\<open>What the theorems show.\<close> The allocator is right for clients that ask for at most 4096 bytes and
  keep fewer than 64 blocks, and its one client in the repository is such a client; at the edges it
  is not (a heap that is exactly full, the first fifteen calls). \<open>changes_only\<close> says which bytes a call
  may change: beside the heap the sixteen bytes behind it, and for \<open>malloc\<close> the word at address 8.
  Both are written, and a word of the first is user data of process 0, whichever process makes the
  call. The two exchanged sections of different processes never overlap and are those of the
  current thread's process, as long as the library calls the hooks as it documents. \<open>init\<close> establishes the
  invariants of the hooks and ends with one thread in process 0; a thread created with the
  flags of a parent gets a free process, one with the flags of a child the process created last,
  which need not be its parent's. Over whole runs the hooks implement the table of processes, and a
  process is given out only when no thread is left in it, as long as a child is created only while
  the process created last has a thread, a parent only while a process is free, and no thread without a
  process ends; without the first two applications can get one process, without the others the hooks
  index \<open>process_array[-1]\<close>. The handler comes back but for the kernel's prefetch abort and the two
  calls of the UART that may wait. Of the
  four cores only the first reaches \<open>start_kernel\<close>. The output of a call of \<open>usr_kprintf\<close> is that of a
  reference if no other call of the same process disturbs it. The lines of the counting application
  are all printed, and whole, under every schedule that keeps to this; under others a thread reads
  behind the format. The properties whose text speaks of what goes wrong are proved of the code as it is.

  \<^bold>\<open>Not modelled.\<close> The library \<^verbatim>\<open>out/e4.o\<close> (scheduler, UART, timer, \<open>kprintf\<close>) is object code: what it
  does is a parameter. Caches, the TLB and the banks of registers of the processor's modes are left
  out. \<^verbatim>\<open>user/syscall_funcs.S\<close> is not linked, and the headers hold declarations whose functions are
  modelled where they are defined, or are the library's; a macro that no code uses has no definition.
\<close>

end
